(* ===== verification/Mtt_Prelude.thy ===== *)
theory Mtt_Prelude
  imports Main "HOL-Library.Word" "HOL-Library.Monad_Syntax"
begin

text \<open>
  The shared vocabulary of the development: the machine types of the 64-bit
  builds of the tracer, the parts of the C string library its sources call,
  raw byte writes, and null-terminated pointer chains (the shape of every hash
  bucket, free list and collision list of the program) with the lemmas the
  components use on them.
\<close>

unbundle bit_operations_syntax

named_theorems mtt_defs "unfolding equations of the small C-level primitives"
named_theorems chain_simps "rewrite rules for pointer chains"

section \<open>Machine types\<close>

type_synonym byte = "8 word"
type_synonym u16 = "16 word"
type_synonym u32 = "32 word"
type_synonym u64 = "64 word"
type_synonym size_t = "64 word"
type_synonym ptr = "64 word"
type_synonym memory = "ptr \<Rightarrow> byte"

abbreviation NULL :: ptr where "NULL \<equiv> 0"

abbreviation SIZE_MAX :: size_t where "SIZE_MAX \<equiv> - 1"

section \<open>C strings\<close>

text \<open>
  A C string is the list of its characters before the terminating NUL. The
  functions below are the ones of \<^verbatim>\<open><string.h>\<close> and \<^verbatim>\<open><stdlib.h>\<close> that the
  sources use, with positions as offsets from the start of the string.
\<close>

fun starts_with :: "string \<Rightarrow> string \<Rightarrow> bool" where
  "starts_with [] s = True"
| "starts_with (c # cs) [] = False"
| "starts_with (c # cs) (d # ds) = (c = d \<and> starts_with cs ds)"

fun strstr :: "string \<Rightarrow> string \<Rightarrow> nat option" where
  "strstr [] needle = (if needle = [] then Some 0 else None)"
| "strstr (c # cs) needle =
     (if starts_with needle (c # cs) then Some 0 else map_option Suc (strstr cs needle))"

fun strchr :: "string \<Rightarrow> char \<Rightarrow> nat option" where
  "strchr [] c = None"
| "strchr (d # ds) c = (if d = c then Some 0 else map_option Suc (strchr ds c))"

fun strrchr :: "string \<Rightarrow> char \<Rightarrow> nat option" where
  "strrchr [] c = None"
| "strrchr (d # ds) c =
     (case strrchr ds c of Some i \<Rightarrow> Some (Suc i) | None \<Rightarrow> (if d = c then Some 0 else None))"

definition is_blank :: "char \<Rightarrow> bool" where
  "is_blank c \<longleftrightarrow> c = CHR '' '' \<or> c = CHR 0x09"

text \<open>\<open>strtok\<close> called until it returns NULL: delimiters never produce an empty token.\<close>

fun strtok_all_aux :: "char \<Rightarrow> string \<Rightarrow> string \<Rightarrow> string list" where
  "strtok_all_aux d cur [] = (if cur = [] then [] else [rev cur])"
| "strtok_all_aux d cur (c # cs) =
     (if c = d then (if cur = [] then strtok_all_aux d [] cs
                     else rev cur # strtok_all_aux d [] cs)
      else strtok_all_aux d (c # cur) cs)"

definition strtok_all :: "string \<Rightarrow> char \<Rightarrow> string list" where
  "strtok_all s d = strtok_all_aux d [] s"

text \<open>Copying a string into a buffer of \<open>n\<close> bytes, cut to \<open>n - 1\<close> characters.\<close>

definition copy_trunc :: "nat \<Rightarrow> string \<Rightarrow> string" where
  "copy_trunc n s = take (n - 1) s"

definition is_digit :: "char \<Rightarrow> bool" where
  "is_digit c \<longleftrightarrow> 48 \<le> (of_char c :: nat) \<and> (of_char c :: nat) \<le> 57"

definition is_space :: "char \<Rightarrow> bool" where
  "is_space c \<longleftrightarrow> c = CHR '' '' \<or> (9 \<le> (of_char c :: nat) \<and> (of_char c :: nat) \<le> 13)"

fun digits_value :: "int \<Rightarrow> string \<Rightarrow> int" where
  "digits_value acc [] = acc"
| "digits_value acc (c # cs) =
     (if is_digit c then digits_value (10 * acc + int (of_char c) - 48) cs else acc)"

text \<open>
  \<open>strtol (s, NULL, 10)\<close>: optional white space, an optional sign, digits; the
  value saturates at the limits of \<open>long\<close>. \<open>atol\<close> is this value and \<open>atoi\<close> its
  conversion to \<open>int\<close>.
\<close>

definition clamp_long :: "int \<Rightarrow> int" where
  "clamp_long v = max (- (2 ^ 63)) (min (2 ^ 63 - 1) v)"

definition atol :: "string \<Rightarrow> int" where
  "atol s =
     (case dropWhile is_space s of
        [] \<Rightarrow> 0
      | c # cs \<Rightarrow>
          if c = CHR ''-'' then clamp_long (- digits_value 0 cs)
          else if c = CHR ''+'' then clamp_long (digits_value 0 cs)
          else clamp_long (digits_value 0 (c # cs)))"

definition atoi :: "string \<Rightarrow> int" where
  "atoi s = sint (word_of_int (atol s) :: 32 word)"

section \<open>Raw bytes\<close>

definition memset :: "ptr \<Rightarrow> byte \<Rightarrow> size_t \<Rightarrow> memory \<Rightarrow> memory" where
  "memset p v n m = (\<lambda>a. if a - p < n then v else m a)"

definition memcpy :: "ptr \<Rightarrow> ptr \<Rightarrow> size_t \<Rightarrow> memory \<Rightarrow> memory" where
  "memcpy dst src n m = (\<lambda>a. if a - dst < n then m (src + (a - dst)) else m a)"

lemma memset_inside: "a - p < n \<Longrightarrow> memset p v n m a = v"
  by (simp add: memset_def)

lemma memset_outside: "\<not> a - p < n \<Longrightarrow> memset p v n m a = m a"
  by (simp add: memset_def)

lemma memset_zero [simp]: "memset p v 0 m = m"
  by (simp add: memset_def)

lemma memcpy_zero [simp]: "memcpy d s 0 m = m"
  by (simp add: memcpy_def)

lemma memcpy_inside: "i < n \<Longrightarrow> memcpy d s n m (d + i) = m (s + i)"
  by (simp add: memcpy_def)

section \<open>Pointer chains\<close>

text \<open>
  \<open>chain nx p as\<close>: following \<open>nx\<close> from \<open>p\<close> visits exactly the nodes \<open>as\<close> and
  then reaches NULL.
\<close>

primrec chain :: "(ptr \<Rightarrow> ptr) \<Rightarrow> ptr \<Rightarrow> ptr list \<Rightarrow> bool" where
  "chain nx p [] \<longleftrightarrow> p = NULL"
| "chain nx p (a # as) \<longleftrightarrow> a = p \<and> p \<noteq> NULL \<and> chain nx (nx p) as"

text \<open>A path is the same without the terminating NULL: from \<open>p\<close> over \<open>as\<close> to \<open>q\<close>.\<close>

primrec ptr_path :: "(ptr \<Rightarrow> ptr) \<Rightarrow> ptr \<Rightarrow> ptr list \<Rightarrow> ptr \<Rightarrow> bool" where
  "ptr_path nx p [] q \<longleftrightarrow> p = q"
| "ptr_path nx p (a # as) q \<longleftrightarrow> a = p \<and> p \<noteq> NULL \<and> ptr_path nx (nx p) as q"

lemma chain_NULL [simp]: "chain nx NULL as \<longleftrightarrow> as = []"
  by (cases as) auto

lemma chain_nonNULL: "p \<noteq> NULL \<Longrightarrow> chain nx p as \<longleftrightarrow> (\<exists>bs. as = p # bs \<and> chain nx (nx p) bs)"
  by (cases as) auto

lemma chain_append: "chain nx p (as @ bs) \<longleftrightarrow> (\<exists>q. ptr_path nx p as q \<and> chain nx q bs)"
  by (induction as arbitrary: p) auto

lemma chain_unique: "chain nx p as \<Longrightarrow> chain nx p bs \<Longrightarrow> as = bs"
proof (induction as arbitrary: p bs)
  case Nil
  then show ?case by simp
next
  case (Cons a as)
  then show ?case by (cases bs) auto
qed

lemma chain_notin_tail: "chain nx (nx a) as \<Longrightarrow> a \<noteq> NULL \<Longrightarrow> a \<notin> set as"
proof
  assume c: "chain nx (nx a) as" and a: "a \<noteq> NULL" and "a \<in> set as"
  then obtain us vs where as: "as = us @ a # vs" by (meson split_list)
  with c have "chain nx (nx a) vs" by (auto simp: chain_append)
  with c have "as = vs" by (rule chain_unique)
  with as show False by simp
qed

lemma chain_distinct: "chain nx p as \<Longrightarrow> distinct as"
  by (induction as arbitrary: p) (auto dest: chain_notin_tail)

lemma chain_nodes_nonNULL: "chain nx p as \<Longrightarrow> a \<in> set as \<Longrightarrow> a \<noteq> NULL"
  by (induction as arbitrary: p) auto

lemma chain_cong:
  "(\<And>a. a \<in> set as \<Longrightarrow> nx a = nx' a) \<Longrightarrow> chain nx p as \<longleftrightarrow> chain nx' p as"
  by (induction as arbitrary: p) auto

lemma chain_frame: "chain nx p as \<Longrightarrow> (\<And>a. a \<in> set as \<Longrightarrow> nx' a = nx a) \<Longrightarrow> chain nx' p as"
  using chain_cong [of as nx nx'] by metis

lemma path_frame: "ptr_path nx p as q \<Longrightarrow> (\<And>a. a \<in> set as \<Longrightarrow> nx' a = nx a) \<Longrightarrow> ptr_path nx' p as q"
  by (induction as arbitrary: p) auto

lemma path_snoc: "ptr_path nx p (as @ [a]) q \<longleftrightarrow> ptr_path nx p as a \<and> a \<noteq> NULL \<and> nx a = q"
  by (induction as arbitrary: p) auto

text \<open>Pushing a node that is on no chain, and taking the first node off.\<close>

lemma chain_push:
  "chain nx p as \<Longrightarrow> a \<notin> set as \<Longrightarrow> a \<noteq> NULL \<Longrightarrow> chain (nx(a := p)) a (a # as)"
  by (auto intro: chain_frame)

lemma chain_pop: "chain nx p (a # as) \<Longrightarrow> chain nx (nx a) as"
  by auto

text \<open>Unlinking an inner node: its predecessor \<open>u\<close> now points past it.\<close>

lemma chain_unlink:
  assumes "chain nx p (us @ [u] @ a # vs)"
  shows "chain (nx(u := nx a)) p (us @ [u] @ vs)"
proof -
  have d: "distinct (us @ [u] @ a # vs)" using assms by (rule chain_distinct)
  from assms obtain q where q: "ptr_path nx p us q" "chain nx q ([u] @ a # vs)"
    unfolding chain_append [of nx p us] by blast
  have "ptr_path (nx(u := nx a)) p us q" by (rule path_frame [OF q(1)]) (use d in auto)
  moreover have "chain nx (nx a) vs" using q(2) by simp
  then have "chain (nx(u := nx a)) (nx a) vs" by (rule chain_frame) (use d in auto)
  ultimately show ?thesis using q(2) by (auto simp: chain_append)
qed

section \<open>Words\<close>

lemma word_and_le_right: "(x AND y) \<le> (y :: 'a :: len word)"
  by (rule word_and_le1)

lemma unat_and_less: "0 < (y :: 'a :: len word) \<Longrightarrow> unat (x AND (y - 1)) < unat y"
proof -
  assume "0 < y"
  have "unat (x AND (y - 1)) \<le> unat (y - 1)"
    using word_and_le1 [of x "y - 1"] by (simp add: word_le_nat_alt)
  also have "\<dots> < unat y" using \<open>0 < y\<close> by (metis measure_unat word_gt_0)
  finally show ?thesis .
qed

lemma word_mult_no_overflow:
  fixes a b :: "'a :: len word"
  assumes "a = 0 \<or> b \<le> - 1 div a"
  shows "unat (a * b) = unat a * unat b"
proof (cases "a = 0")
  case False
  have m: "unat (- 1 :: 'a word) < 2 ^ LENGTH('a)" by (rule unsigned_less)
  from False assms have "unat b \<le> unat (- 1 :: 'a word) div unat a"
    by (simp add: word_le_nat_alt unat_div_distrib)
  then have "unat a * unat b \<le> unat (- 1 :: 'a word)"
    by (metis (no_types) mult_le_mono2 order_trans times_div_less_eq_dividend)
  with m have "unat a * unat b < 2 ^ LENGTH('a)" by linarith
  then show ?thesis by (simp add: unat_word_ariths)
qed simp

text \<open>Clearing the low bits rounds down to a multiple of a power of two.\<close>

lemma and_not_mask_eq: "x AND NOT (mask n) = x - take_bit n (x :: 'a :: len word)"
proof -
  have "x AND NOT (mask n) = push_bit n (drop_bit n x)"
    by (rule bit_word_eqI) (auto simp: bit_simps)
  then show ?thesis using bits_ident [of n x] by (metis add_diff_cancel_right')
qed

lemma unat_and_not_mask: "unat (x AND NOT (mask n)) = unat x - unat x mod 2 ^ n"
  for x :: "'a :: len word"
proof -
  have t: "unat (take_bit n x) = unat x mod 2 ^ n"
    by (subst unsigned_take_bit_eq) (simp add: take_bit_eq_mod)
  then have "take_bit n x \<le> x" by (simp add: word_le_nat_alt)
  then show ?thesis by (simp add: and_not_mask_eq unat_sub t)
qed

end
