(* ===== verification/Mtt_Types.thy ===== *)
theory Mtt_Types
  imports Mtt_Prelude
begin

text \<open>
  The constants and data structures of the headers: the limits and the tracked
  state of \<^verbatim>\<open>mtt_internal.h\<close>, the thread slots of \<^verbatim>\<open>per_thread.h\<close>, the sample
  points of \<^verbatim>\<open>time_series.h\<close>, the leak sites and the report state of
  \<^verbatim>\<open>reporter.h\<close>, the stack cache of \<^verbatim>\<open>stack_cache.h\<close> and the dashboard server of
  \<^verbatim>\<open>http_server.h\<close>. Field names carry a prefix per structure. A fixed-size array
  of pointers or records is a function on indices, a mutex is the flag "held".
  The hash of a pointer to its bucket and its lock stripe closes the theory.
\<close>

section \<open>Limits (mtt_internal.h)\<close>

definition MTT_BUCKETS :: u32 where "MTT_BUCKETS = 4096"
definition MTT_MAX_ENTRIES :: u64 where "MTT_MAX_ENTRIES = 131072"
definition MTT_STACK_DEPTH :: nat where "MTT_STACK_DEPTH = 64"
definition MTT_LOCK_STRIPES :: nat where "MTT_LOCK_STRIPES = 64"
definition MTT_POOL_TARGET_BYTES :: size_t where "MTT_POOL_TARGET_BYTES = 20 * 1024 * 1024"
definition MTT_POOL_ENTRIES_MIN :: size_t where "MTT_POOL_ENTRIES_MIN = 1024"
definition MTT_POOL_ENTRIES_MAX :: size_t where "MTT_POOL_ENTRIES_MAX = 131072"
definition MTT_STACK_CACHE_SIZE :: nat where "MTT_STACK_CACHE_SIZE = 4096"
definition MTT_LEAK_DEDUP_SIZE :: nat where "MTT_LEAK_DEDUP_SIZE = 2048"
definition MTT_SYMBOL_MAX :: nat where "MTT_SYMBOL_MAX = 256"
definition MTT_REPORT_INTERVAL_SEC :: nat where "MTT_REPORT_INTERVAL_SEC = 60"
definition MTT_SAMPLE_MAX_PERIOD :: int where "MTT_SAMPLE_MAX_PERIOD = 1024"
definition MTT_SAMPLE_RATE_MAX :: int where "MTT_SAMPLE_RATE_MAX = 30"
definition MTT_BIG_ALLOC_THRESHOLD :: size_t where "MTT_BIG_ALLOC_THRESHOLD = 1024 * 1024"
definition MTT_SAMPLE_EXEMPT_THRESHOLD :: size_t where "MTT_SAMPLE_EXEMPT_THRESHOLD = 1024"
definition MTT_TS_MAX_POINTS :: u32 where "MTT_TS_MAX_POINTS = 3600"
definition MTT_HTTP_BUF_SIZE :: nat where "MTT_HTTP_BUF_SIZE = 8192"
definition MTT_HTTP_MAX_PATH :: nat where "MTT_HTTP_MAX_PATH = 256"
definition MTT_DEBUG_DEFAULT :: int where "MTT_DEBUG_DEFAULT = 1"
definition MTT_LEAK_THRESHOLD_DEFAULT :: int where "MTT_LEAK_THRESHOLD_DEFAULT = 300"
definition MTT_SKIP_STARTUP_DEFAULT :: int where "MTT_SKIP_STARTUP_DEFAULT = 0"
definition MTT_BOOTSTRAP_BUF_SIZE :: size_t where "MTT_BOOTSTRAP_BUF_SIZE = 65536"
definition MTT_BLACKLIST_RANGES_MAX :: nat where "MTT_BLACKLIST_RANGES_MAX = 64"
definition MTT_SAMPLE_DEFAULT :: u32 where "MTT_SAMPLE_DEFAULT = 0"
definition MTT_SAMPLE_RATE_DEFAULT :: size_t where "MTT_SAMPLE_RATE_DEFAULT = 0"
definition MTT_HTTP_DEFAULT_PORT :: u16 where "MTT_HTTP_DEFAULT_PORT = 0"
definition MTT_MAX_THREADS :: nat where "MTT_MAX_THREADS = 512"
definition MTT_HOOK_DEPTH_MAX :: int where "MTT_HOOK_DEPTH_MAX = 8"

lemmas mtt_limits [mtt_defs] =
  MTT_BUCKETS_def MTT_MAX_ENTRIES_def MTT_STACK_DEPTH_def MTT_LOCK_STRIPES_def
  MTT_POOL_TARGET_BYTES_def MTT_POOL_ENTRIES_MIN_def MTT_POOL_ENTRIES_MAX_def
  MTT_STACK_CACHE_SIZE_def MTT_LEAK_DEDUP_SIZE_def MTT_SYMBOL_MAX_def
  MTT_REPORT_INTERVAL_SEC_def MTT_SAMPLE_MAX_PERIOD_def MTT_SAMPLE_RATE_MAX_def
  MTT_BIG_ALLOC_THRESHOLD_def MTT_SAMPLE_EXEMPT_THRESHOLD_def MTT_TS_MAX_POINTS_def
  MTT_HTTP_BUF_SIZE_def MTT_HTTP_MAX_PATH_def MTT_DEBUG_DEFAULT_def
  MTT_LEAK_THRESHOLD_DEFAULT_def MTT_SKIP_STARTUP_DEFAULT_def MTT_BOOTSTRAP_BUF_SIZE_def
  MTT_BLACKLIST_RANGES_MAX_def MTT_SAMPLE_DEFAULT_def MTT_SAMPLE_RATE_DEFAULT_def
  MTT_HTTP_DEFAULT_PORT_def MTT_MAX_THREADS_def MTT_HOOK_DEPTH_MAX_def

text \<open>The sizes of the structures on the 64-bit targets.\<close>

definition sizeof_mtt_entry :: size_t where "sizeof_mtt_entry = 560"
definition sizeof_mtt_alloc_snap :: size_t where "sizeof_mtt_alloc_snap = 544"

section \<open>Tracking records and the tracked state (mtt_internal.h)\<close>

record mtt_entry =
  e_ptr :: ptr
  e_size :: size_t
  e_timestamp :: int
  e_alloc_num :: u64
  e_stack :: "ptr list"
  e_stack_frames :: int
  e_next :: ptr

text \<open>A record cleared by \<open>memset (e, 0, sizeof *e)\<close>.\<close>

definition zero_entry :: mtt_entry where
  "zero_entry = \<lparr>e_ptr = NULL, e_size = 0, e_timestamp = 0, e_alloc_num = 0,
     e_stack = replicate MTT_STACK_DEPTH NULL, e_stack_frames = 0, e_next = NULL\<rparr>"

datatype pool_mode = POOL_NONE | POOL_ACTIVE | POOL_FALLBACK

record mtt_state =
  s_buckets :: "(nat \<Rightarrow> ptr) option"
  s_bucket_count :: u32
  s_bucket_locks :: "nat \<Rightarrow> bool"
  s_hash_seed :: u64
  s_pool :: ptr
  s_pool_free_lists :: "nat \<Rightarrow> ptr"
  s_pool_locks :: "nat \<Rightarrow> bool"
  s_pool_capacity :: size_t
  s_pool_raw_size :: size_t
  s_pool_used :: size_t
  s_pool_mode :: pool_mode
  s_initialized :: bool
  s_disabled :: bool
  s_alloc_seq :: u64
  s_alloc_count :: size_t
  s_free_count :: size_t
  s_current_bytes :: size_t
  s_peak_bytes :: size_t
  s_total_bytes :: size_t
  s_leak_bytes_total :: size_t
  s_entry_count :: u64
  s_sample_period :: u32
  s_sample_counter :: u64
  s_sample_rate :: size_t
  s_sample_bytes_accum :: size_t
  s_skipped_sampled :: size_t
  s_skipped_overcap :: size_t
  s_peak_updated :: bool
  s_leak_threshold_sec :: int
  s_startup_until :: int
  s_temp_alloc_count :: size_t
  s_expired_alloc_count :: size_t
  s_free_expired_count :: size_t
  s_lib_blacklist :: string
  s_lib_blacklist_ready :: bool
  s_proc_name :: string
  s_proc_name_ready :: bool

section \<open>Thread slots (per_thread.h)\<close>

record per_thread =
  t_tid :: int
  t_hook_depth :: int
  t_depth_inited :: int
  t_in_hook :: int
  t_tool_internal :: int
  t_raw_resolving :: int
  t_in_capture :: int

section \<open>Sample points, leak sites, stack cache and server state\<close>

record ts_point =
  p_timestamp :: int
  p_current_bytes :: size_t
  p_peak_bytes :: size_t
  p_alloc_count :: size_t
  p_free_count :: size_t
  p_entry_count :: size_t
  p_rss_bytes :: size_t
  p_leak_bytes :: size_t
  p_total_alloc_bytes :: size_t

record time_series =
  ts_points :: "nat \<Rightarrow> ts_point"
  ts_head :: u32
  ts_count :: u32
  ts_lock :: bool

record leak_site =
  l_stack_hash :: u64
  l_first_seen :: int
  l_last_seen :: int
  l_count :: size_t
  l_per_leak_size :: size_t
  l_total_size :: size_t
  l_diff_size :: size_t
  l_is_expired :: bool

record stack_entry =
  k_hash :: u64
  k_frames :: "ptr list"
  k_frame_count :: int
  k_resolved :: "string list"
  k_is_resolved :: bool

record stack_cache =
  sc_entries :: "nat \<Rightarrow> ptr list"
  sc_count :: size_t
  sc_lock :: bool

text \<open>
  A block the reporter allocated is its address with its contents: the array of copied
  sites (each copy with its own address, or none where its allocation failed), the array
  of (site address, stack entry address) pairs, the copied sample points. \<open>r_prev_diff\<close>
  pairs the two arrays \<open>prev_diff_hashes\<close> and \<open>prev_diff_sizes\<close> up to \<open>prev_diff_count\<close>.
\<close>

record reporter =
  r_running :: bool
  r_scan_mutex :: bool
  r_cache_lock :: bool
  r_session_start :: int
  r_log_path :: string
  r_tmp_path :: string
  r_cached_sites :: "(ptr \<times> (ptr \<times> leak_site) option list) option"
  r_cached_site_count :: nat
  r_cached_pairs :: "(ptr \<times> (ptr \<times> ptr) list) option"
  r_cached_ts :: "(ptr \<times> ts_point list) option"
  r_prev_hashes :: ptr
  r_prev_sizes :: ptr
  r_prev_diff :: "(u64 \<times> size_t) list"
  r_prev_scan_time :: int

record http_server =
  h_running :: bool
  h_listen_fd :: int
  h_port :: u16

section \<open>Addresses\<close>

text \<open>\<open>MTT_FIX_THUMB_ADDR\<close>: the Thumb state bit of a return address is cleared.\<close>

definition MTT_FIX_THUMB_ADDR :: "ptr \<Rightarrow> ptr" where
  "MTT_FIX_THUMB_ADDR a = a AND NOT 1"

definition mtt_bucket_of :: "ptr \<Rightarrow> u32 \<Rightarrow> u64 \<Rightarrow> u32" where
  "mtt_bucket_of p bucket_count seed =
     (let h = p;
          h = drop_bit 3 h * 11400714819323198485;
          h = h XOR seed
      in ucast (h AND ucast (bucket_count - 1)))"

definition mtt_stripe_of :: "ptr \<Rightarrow> u32 \<Rightarrow> u64 \<Rightarrow> u32" where
  "mtt_stripe_of p bucket_count seed = mtt_bucket_of p bucket_count seed AND 63"

lemma fix_thumb_idem [simp]: "MTT_FIX_THUMB_ADDR (MTT_FIX_THUMB_ADDR a) = MTT_FIX_THUMB_ADDR a"
  by (simp add: MTT_FIX_THUMB_ADDR_def and.assoc)

lemma fix_thumb_even: "even (MTT_FIX_THUMB_ADDR a)"
  by (simp add: MTT_FIX_THUMB_ADDR_def even_and_iff)

lemma fix_thumb_NULL [simp]: "MTT_FIX_THUMB_ADDR NULL = NULL"
  by (simp add: MTT_FIX_THUMB_ADDR_def)

lemma bucket_of_less:
  assumes "0 < bc"
  shows "unat (mtt_bucket_of p bc seed) < unat bc"
proof -
  let ?m = "ucast (bc - 1) :: u64"
  let ?h = "(drop_bit 3 p * 11400714819323198485) XOR seed"
  have m: "unat ?m = unat (bc - 1)"
    by (simp add: unsigned_ucast_eq take_bit_nat_eq_self order_less_trans [OF unsigned_less])
  have "unat (?h AND ?m) \<le> unat (bc - 1)"
    using word_and_le1 [of ?h ?m] m by (simp add: word_le_nat_alt)
  moreover have "unat (bc - 1) < unat bc"
    using assms by (metis measure_unat word_gt_0)
  moreover have "unat (ucast (?h AND ?m) :: u32) \<le> unat (?h AND ?m)"
    by (simp add: unsigned_ucast_eq take_bit_nat_less_eq_self)
  ultimately show ?thesis
    by (simp add: mtt_bucket_of_def Let_def)
qed

lemma stripe_of_less: "unat (mtt_stripe_of p bc seed) < 64"
proof -
  have "unat (mtt_bucket_of p bc seed AND 63) \<le> unat (63 :: u32)"
    using word_and_le1 [of "mtt_bucket_of p bc seed" 63] by (simp add: word_le_nat_alt)
  then show ?thesis by (simp add: mtt_stripe_of_def)
qed

text \<open>The stripe of a pointer is the stripe of its bucket: bucket \<open>b\<close> is guarded by lock \<open>b mod 64\<close>.\<close>

lemma stripe_of_bucket:
  "unat (mtt_stripe_of p bc seed) = unat (mtt_bucket_of p bc seed) mod MTT_LOCK_STRIPES"
proof -
  have "mtt_bucket_of p bc seed AND 63 = take_bit 6 (mtt_bucket_of p bc seed)"
    by (simp add: take_bit_eq_mask mask_eq_exp_minus_1)
  then show ?thesis
    by (simp add: mtt_stripe_of_def MTT_LOCK_STRIPES_def take_bit_eq_mod unat_mod)
qed

end
