(* ===== verification/Mtt_World.thy ===== *)
theory Mtt_World
  imports Mtt_Types
begin

text \<open>
  The state of a traced process and the code the tracer calls but does not
  contain. \<open>world\<close> gathers the globals of the C files: the tracked state, the
  heap of tracking records, user memory as bytes, the thread slots, the resolved
  allocator pointers, the unwinder's and the reporter's state. \<open>ext\<close> is what is
  outside the sources (libc's allocator, the dynamic linker, the kernel, the
  unwinder): every definition that depends on it takes it as an argument.
  \<open>'l\<close> is the type of the external state, which external calls may change.

  \<open>g_hung\<close> records that the running thread never returns from the current call,
  because it waits for a mutex that is held or because a loop has no exit. What
  a definition computes after that point means nothing; the theorems about an
  operation say that the flag stays off, or that it is set.
\<close>

section \<open>Allocator pointers and external code\<close>

text \<open>
  The values a \<open>raw_*\<close> pointer can have: NULL, the bootstrap allocator of
  \<^verbatim>\<open>tracker.c\<close>, or the function the dynamic linker found.
\<close>

datatype fnptr = F_NULL | F_BOOTSTRAP | F_LIBC

datatype rawfn = RF_malloc | RF_free | RF_calloc | RF_realloc | RF_posix_memalign

text \<open>
  What \<open>dlsym (RTLD_NEXT, f)\<close> followed by \<open>dladdr\<close> says of a function: no
  symbol, a symbol for which \<open>dladdr\<close> fails, or a symbol with the file name of its
  object (\<open>dli_fname\<close>, which may be NULL).
\<close>

datatype dlsym_result = DL_NULL | DL_UNKNOWN | DL_IN "string option"

text \<open>One call of \<open>unw_step\<close> with \<open>unw_get_reg\<close>: a frame, the end, a failed register read, or a signal.\<close>

datatype unw_event = UNW_FRAME ptr | UNW_STOP | UNW_NOREG | UNW_CRASH int

text \<open>A call of \<open>backtrace\<close>: the frames, a negative result, or a signal.\<close>

datatype bt_result = BT_FRAMES "ptr list" | BT_NEGATIVE | BT_CRASH int

text \<open>The action installed for SIGSEGV and SIGBUS: the application's, or the unwinder's handler.\<close>

datatype sighandler = SH_APP | SH_MTT

text \<open>The background threads of the tracer.\<close>

datatype mtt_service = SV_REPORTER | SV_HTTP | SV_SIGNAL

text \<open>
  \<open>x_args_rtl\<close> says in which order the compiler evaluates the arguments of a call, which C
  leaves open; \<open>x_freq_text n s\<close> is what \<open>printf\<close> makes of the quotient \<open>n / s\<close> and its inverse
  in binary floating point.
\<close>

record 'l ext =
  x_malloc :: "'l \<Rightarrow> size_t \<Rightarrow> ptr \<times> 'l"
  x_free :: "'l \<Rightarrow> ptr \<Rightarrow> 'l"
  x_calloc :: "'l \<Rightarrow> size_t \<Rightarrow> size_t \<Rightarrow> ptr \<times> 'l"
  x_realloc :: "'l \<Rightarrow> memory \<Rightarrow> ptr \<Rightarrow> size_t \<Rightarrow> ptr \<times> memory \<times> 'l"
  x_posix_memalign :: "'l \<Rightarrow> size_t \<Rightarrow> size_t \<Rightarrow> int \<times> ptr \<times> 'l"
  x_getenv :: "string \<Rightarrow> string option"
  x_no_such_thread :: "'l \<Rightarrow> int \<Rightarrow> bool"
  x_dlsym_next :: "rawfn \<Rightarrow> dlsym_result"
  x_dlopen :: "string \<Rightarrow> (rawfn \<Rightarrow> bool) option"
  x_dlsym_fork :: bool
  x_fork :: "'l \<Rightarrow> int \<times> 'l"
  x_unw_context :: "'l \<Rightarrow> bool"
  x_unw_steps :: "'l \<Rightarrow> nat \<Rightarrow> unw_event"
  x_backtrace :: "'l \<Rightarrow> nat \<Rightarrow> bt_result"
  x_dlopen_unwind :: "string \<Rightarrow> (string \<Rightarrow> bool) option"
  x_unw_backtrace :: "'l \<Rightarrow> nat \<Rightarrow> bt_result"
  x_frame_address :: "'l \<Rightarrow> ptr"
  x_stack_word :: "'l \<Rightarrow> ptr \<Rightarrow> ptr"
  x_maps :: "'l \<Rightarrow> string option"
  x_readlink_exe :: "'l \<Rightarrow> string option"
  x_comm :: "'l \<Rightarrow> string option"
  x_getpid :: "'l \<Rightarrow> int"
  x_bootstrap_buf :: ptr
  x_hook_pc :: ptr
  x_pthread_create :: "'l \<Rightarrow> mtt_service \<Rightarrow> bool"
  x_rss_pages :: "'l \<Rightarrow> int option"
  x_page_size :: size_t
  x_socket :: "'l \<Rightarrow> int"
  x_bind :: "'l \<Rightarrow> nat \<Rightarrow> u16 \<Rightarrow> bool"
  x_listen :: "'l \<Rightarrow> bool"
  x_log_dir_exists :: "'l \<Rightarrow> bool"
  x_log_dir_writable :: "'l \<Rightarrow> bool"
  x_dladdr :: "'l \<Rightarrow> ptr \<Rightarrow> (string option \<times> ptr \<times> string option \<times> ptr) option"
  x_backtrace_symbol :: "'l \<Rightarrow> ptr \<Rightarrow> string option"
  x_exe_header :: "'l \<Rightarrow> nat list option"
  x_fopen :: "'l \<Rightarrow> string \<Rightarrow> bool"
  x_rename :: "'l \<Rightarrow> string \<Rightarrow> string \<Rightarrow> bool"
  x_localtime :: "int \<Rightarrow> string option"
  x_args_rtl :: bool
  x_freq_text :: "nat \<Rightarrow> nat \<Rightarrow> string"

section \<open>Executable address ranges (addr_validate.c)\<close>

record exec_range =
  er_lo :: ptr
  er_hi :: ptr
  er_libname :: string

section \<open>The world\<close>

record 'l world =
  g_state :: mtt_state
  g_entries :: "ptr \<Rightarrow> mtt_entry"
  g_mem :: memory
  g_threads :: "nat \<Rightarrow> per_thread"
  g_tls_ctx :: "int \<Rightarrow> nat option"
  g_tls_cached_tid :: "int \<Rightarrow> int"
  raw_malloc :: fnptr
  raw_free :: fnptr
  raw_calloc :: fnptr
  raw_realloc :: fnptr
  raw_posix_memalign :: fnptr
  g_raw_resolved :: bool
  g_raw_ready :: bool
  g_bootstrap_offset :: size_t
  g_debug_level :: int
  g_unwinder_mode :: int
  g_max_stack_frames :: int
  g_init_lock :: bool
  g_sigpipe_ignored :: bool
  g_blacklist_ranges :: "(ptr \<times> ptr) list"
  g_blacklist_fast_enabled :: bool
  g_exec_ranges :: "exec_range list"
  g_exec_once :: bool
  g_unw_disabled :: "int \<Rightarrow> bool"
  g_unwind_mutex :: bool
  g_in_unwind_call :: bool
  g_segv_handler :: sighandler
  g_bus_handler :: sighandler
  g_libunwind_available :: int
  g_libunwind_once :: bool
  g_time_series :: time_series
  g_ts_initialized :: bool
  g_stack_cache :: stack_cache
  g_stack_heap :: "ptr \<Rightarrow> stack_entry"
  g_addr_cache :: "nat \<Rightarrow> ptr \<times> string"
  g_non_pie_cached :: int
  g_exe_path :: string
  g_reporter :: reporter
  g_reporter_started :: bool
  g_atexit_registered :: bool
  g_atexit_done :: bool
  g_http_server :: http_server
  g_closed_fds :: "int list"
  g_files :: "string \<Rightarrow> string option"
  g_json_path :: "string option"
  g_json_checked :: bool
  g_first_diag :: "rawfn \<Rightarrow> bool"
  g_signal_thread_started :: bool
  g_signal_thread_running :: bool
  g_raw_fork :: bool
  g_fork_resolved :: bool
  g_time :: int
  g_coarse_clock :: "int option"
  g_ext :: 'l
  g_hung :: bool

text \<open>Updating the tracked state, one tracking record, one thread slot.\<close>

abbreviation upd_state :: "(mtt_state \<Rightarrow> mtt_state) \<Rightarrow> 'l world \<Rightarrow> 'l world" where
  "upd_state f w \<equiv> g_state_update f w"

definition upd_entry :: "ptr \<Rightarrow> (mtt_entry \<Rightarrow> mtt_entry) \<Rightarrow> 'l world \<Rightarrow> 'l world" where
  "upd_entry a f w = w\<lparr>g_entries := (g_entries w)(a := f (g_entries w a))\<rparr>"

definition upd_slot :: "nat \<Rightarrow> (per_thread \<Rightarrow> per_thread) \<Rightarrow> 'l world \<Rightarrow> 'l world" where
  "upd_slot i f w = w\<lparr>g_threads := (g_threads w)(i := f (g_threads w i))\<rparr>"

text \<open>\<open>mtt_now_sec\<close>: the coarse clock, or \<open>time (NULL)\<close> where it fails.\<close>

definition mtt_now_sec :: "'l world \<Rightarrow> int" where
  "mtt_now_sec w = (case g_coarse_clock w of Some t \<Rightarrow> t | None \<Rightarrow> g_time w)"

text \<open>The globals that no bookkeeping operation touches.\<close>

definition env_of :: "'l world \<Rightarrow> (bool \<times> bool \<times> fnptr) \<times> (int \<times> int option \<times> bool) \<times> (ptr \<times> ptr) list \<times> bool" where
  "env_of w = ((g_raw_ready w, g_raw_resolved w, raw_posix_memalign w),
     (g_time w, g_coarse_clock w, g_init_lock w), g_blacklist_ranges w, g_blacklist_fast_enabled w)"

lemma env_of_upd [simp]:
  "env_of (upd_entry a f w) = env_of w" "env_of (upd_slot i g w) = env_of w"
  "env_of (w\<lparr>g_state := s\<rparr>) = env_of w" "env_of (upd_state h w) = env_of w"
  "env_of (w\<lparr>g_ext := l\<rparr>) = env_of w" "env_of (w\<lparr>g_mem := m\<rparr>) = env_of w"
  "env_of (w\<lparr>g_hung := b\<rparr>) = env_of w" "env_of (w\<lparr>g_entries := es\<rparr>) = env_of w"
  by (simp_all add: env_of_def upd_entry_def upd_slot_def)

section \<open>Mutexes\<close>

definition bucket_lock :: "nat \<Rightarrow> 'l world \<Rightarrow> 'l world" where
  "bucket_lock i w =
     w\<lparr>g_hung := (g_hung w \<or> s_bucket_locks (g_state w) i),
       g_state := (g_state w)\<lparr>s_bucket_locks := (s_bucket_locks (g_state w))(i := True)\<rparr>\<rparr>"

definition bucket_unlock :: "nat \<Rightarrow> 'l world \<Rightarrow> 'l world" where
  "bucket_unlock i w =
     w\<lparr>g_state := (g_state w)\<lparr>s_bucket_locks := (s_bucket_locks (g_state w))(i := False)\<rparr>\<rparr>"

definition pool_lock :: "nat \<Rightarrow> 'l world \<Rightarrow> 'l world" where
  "pool_lock i w =
     w\<lparr>g_hung := (g_hung w \<or> s_pool_locks (g_state w) i),
       g_state := (g_state w)\<lparr>s_pool_locks := (s_pool_locks (g_state w))(i := True)\<rparr>\<rparr>"

definition pool_unlock :: "nat \<Rightarrow> 'l world \<Rightarrow> 'l world" where
  "pool_unlock i w =
     w\<lparr>g_state := (g_state w)\<lparr>s_pool_locks := (s_pool_locks (g_state w))(i := False)\<rparr>\<rparr>"

definition mtt_stripe_lock :: "ptr \<Rightarrow> 'l world \<Rightarrow> 'l world" where
  "mtt_stripe_lock p w =
     bucket_lock (unat (mtt_stripe_of p (s_bucket_count (g_state w)) (s_hash_seed (g_state w)))) w"

definition mtt_stripe_unlock :: "ptr \<Rightarrow> 'l world \<Rightarrow> 'l world" where
  "mtt_stripe_unlock p w =
     bucket_unlock (unat (mtt_stripe_of p (s_bucket_count (g_state w)) (s_hash_seed (g_state w)))) w"

section \<open>A concrete process\<close>

text \<open>
  One instance of the external code and the zero-initialised statics of a fresh
  process, used where a theorem is applied to concrete values. The allocator
  hands out consecutive 16-byte aligned blocks from a bump pointer (the external
  state) and fails above 1 GiB; no thread disappears; nothing is in the environment.
\<close>

definition align16 :: "size_t \<Rightarrow> size_t" where
  "align16 n = (n + 15) AND NOT 15"

definition demo_malloc :: "ptr \<Rightarrow> size_t \<Rightarrow> ptr \<times> ptr" where
  "demo_malloc l n =
     (if n > 0x40000000 \<or> l > 0x7fffffffffffffff then (NULL, l) else (l, l + align16 (n + 16)))"

definition demo_ext :: "ptr ext" where
  "demo_ext =
     \<lparr>x_malloc = demo_malloc,
      x_free = (\<lambda>l p. l),
      x_calloc = (\<lambda>l n s. if unat n * unat s > 0x40000000 then (NULL, l) else demo_malloc l (n * s)),
      x_realloc = (\<lambda>l m p n. if p \<noteq> NULL \<and> n = 0 then (NULL, m, l)
                              else let (q, l') = demo_malloc l n
                                   in (q, if q = NULL \<or> p = NULL then m else memcpy q p n m, l')),
      x_posix_memalign = (\<lambda>l a n. let (q, l') = demo_malloc l n in (if q = NULL then 12 else 0, q, l')),
      x_getenv = (\<lambda>_. None),
      x_no_such_thread = (\<lambda>_ _. False),
      x_dlsym_next = (\<lambda>_. DL_IN (Some ''/lib/libc.so.6'')),
      x_dlopen = (\<lambda>_. None),
      x_dlsym_fork = True,
      x_fork = (\<lambda>l. (99, l)),
      x_unw_context = (\<lambda>_. True),
      x_unw_steps = (\<lambda>_ n. if n < 6 then UNW_FRAME (0x401000 + 16 * of_nat n) else UNW_STOP),
      x_backtrace = (\<lambda>_ n. BT_FRAMES []),
      x_dlopen_unwind = (\<lambda>_. None),
      x_unw_backtrace = (\<lambda>_ n. BT_FRAMES []),
      x_frame_address = (\<lambda>_. NULL),
      x_stack_word = (\<lambda>_ _. 0),
      x_maps = (\<lambda>_. None),
      x_readlink_exe = (\<lambda>_. Some ''/usr/bin/app''),
      x_comm = (\<lambda>_. None),
      x_getpid = (\<lambda>_. 42),
      x_bootstrap_buf = 0x600000,
      x_hook_pc = 0x700000,
      x_pthread_create = (\<lambda>_ _. True),
      x_rss_pages = (\<lambda>_. None),
      x_page_size = 4096,
      x_socket = (\<lambda>_. 5),
      x_bind = (\<lambda>_ _ _. True),
      x_listen = (\<lambda>_. True),
      x_log_dir_exists = (\<lambda>_. True),
      x_log_dir_writable = (\<lambda>_. True),
      x_dladdr = (\<lambda>_ _. None),
      x_backtrace_symbol = (\<lambda>_ _. None),
      x_exe_header = (\<lambda>_. None),
      x_fopen = (\<lambda>_ _. True),
      x_rename = (\<lambda>_ _ _. True),
      x_localtime = (\<lambda>_. None),
      x_args_rtl = True,
      x_freq_text = (\<lambda>_ _. [])\<rparr>"

definition zero_slot :: per_thread where
  "zero_slot = \<lparr>t_tid = 0, t_hook_depth = 0, t_depth_inited = 0, t_in_hook = 0,
     t_tool_internal = 0, t_raw_resolving = 0, t_in_capture = 0\<rparr>"

definition zero_state :: mtt_state where
  "zero_state =
     \<lparr>s_buckets = None, s_bucket_count = 0, s_bucket_locks = (\<lambda>_. False), s_hash_seed = 0,
      s_pool = NULL, s_pool_free_lists = (\<lambda>_. NULL), s_pool_locks = (\<lambda>_. False),
      s_pool_capacity = 0, s_pool_raw_size = 0, s_pool_used = 0, s_pool_mode = POOL_NONE,
      s_initialized = False, s_disabled = False, s_alloc_seq = 0, s_alloc_count = 0,
      s_free_count = 0, s_current_bytes = 0, s_peak_bytes = 0, s_total_bytes = 0,
      s_leak_bytes_total = 0, s_entry_count = 0, s_sample_period = 0, s_sample_counter = 0,
      s_sample_rate = 0, s_sample_bytes_accum = 0, s_skipped_sampled = 0, s_skipped_overcap = 0,
      s_peak_updated = False, s_leak_threshold_sec = 0, s_startup_until = 0,
      s_temp_alloc_count = 0, s_expired_alloc_count = 0, s_free_expired_count = 0,
      s_lib_blacklist = [], s_lib_blacklist_ready = False, s_proc_name = [],
      s_proc_name_ready = False\<rparr>"

definition zero_point :: ts_point where
  "zero_point = \<lparr>p_timestamp = 0, p_current_bytes = 0, p_peak_bytes = 0, p_alloc_count = 0,
     p_free_count = 0, p_entry_count = 0, p_rss_bytes = 0, p_leak_bytes = 0, p_total_alloc_bytes = 0\<rparr>"

definition zero_stack_entry :: stack_entry where
  "zero_stack_entry = \<lparr>k_hash = 0, k_frames = replicate MTT_STACK_DEPTH NULL, k_frame_count = 0,
     k_resolved = replicate MTT_STACK_DEPTH [], k_is_resolved = False\<rparr>"

definition demo_world :: "ptr world" where
  "demo_world =
     \<lparr>g_state = zero_state, g_entries = (\<lambda>_. zero_entry), g_mem = (\<lambda>_. 0),
      g_threads = (\<lambda>_. zero_slot), g_tls_ctx = (\<lambda>_. None), g_tls_cached_tid = (\<lambda>_. 0),
      raw_malloc = F_NULL, raw_free = F_NULL, raw_calloc = F_NULL, raw_realloc = F_NULL,
      raw_posix_memalign = F_NULL, g_raw_resolved = False, g_raw_ready = False,
      g_bootstrap_offset = 0, g_debug_level = 1, g_unwinder_mode = 0, g_max_stack_frames = 64,
      g_init_lock = False, g_sigpipe_ignored = False, g_blacklist_ranges = [],
      g_blacklist_fast_enabled = False, g_exec_ranges = [], g_exec_once = False,
      g_unw_disabled = (\<lambda>_. False), g_unwind_mutex = False,
      g_in_unwind_call = False, g_segv_handler = SH_APP, g_bus_handler = SH_APP,
      g_libunwind_available = 0, g_libunwind_once = False,
      g_time_series = \<lparr>ts_points = (\<lambda>_. zero_point), ts_head = 0, ts_count = 0, ts_lock = False\<rparr>,
      g_ts_initialized = False,
      g_stack_cache = \<lparr>sc_entries = (\<lambda>_. []), sc_count = 0, sc_lock = False\<rparr>,
      g_stack_heap = (\<lambda>_. zero_stack_entry),
      g_addr_cache = (\<lambda>_. (NULL, [])), g_non_pie_cached = - 1, g_exe_path = [],
      g_reporter = \<lparr>r_running = False, r_scan_mutex = False, r_cache_lock = False,
        r_session_start = 0, r_log_path = [], r_tmp_path = [], r_cached_sites = None,
        r_cached_site_count = 0, r_cached_pairs = None, r_cached_ts = None,
        r_prev_hashes = NULL, r_prev_sizes = NULL, r_prev_diff = [], r_prev_scan_time = 0\<rparr>,
      g_reporter_started = False, g_atexit_registered = False, g_atexit_done = False,
      g_http_server = \<lparr>h_running = False, h_listen_fd = 0, h_port = 0\<rparr>,
      g_closed_fds = [], g_files = (\<lambda>_. None), g_json_path = None, g_json_checked = False,
      g_first_diag = (\<lambda>_. True),
      g_signal_thread_started = False, g_signal_thread_running = False, g_raw_fork = False,
      g_fork_resolved = False, g_time = 1000, g_coarse_clock = None, g_ext = 0x10000000,
      g_hung = False\<rparr>"

end
