(* ===== verification/C_Format.thy ===== *)
theory C_Format
  imports Mtt_Prelude
begin

text \<open>
  The conversions of \<open>printf\<close> the reports use: unsigned and signed decimals, decimals
  padded with zeros, fixed-point decimals. A decimal read back by \<open>atol\<close> is the number.
\<close>

definition digit_char :: "nat \<Rightarrow> char" where
  "digit_char d = char_of (48 + d)"

fun dec_string :: "nat \<Rightarrow> string" where
  "dec_string n = (if n < 10 then [digit_char n] else dec_string (n div 10) @ [digit_char (n mod 10)])"

declare dec_string.simps [simp del]

text \<open>\<open>%d\<close> and \<open>%ld\<close>.\<close>

definition int_string :: "int \<Rightarrow> string" where
  "int_string i = (if i < 0 then CHR ''-'' # dec_string (nat (- i)) else dec_string (nat i))"

text \<open>\<open>%0wld\<close>: zeros are put before the digits, after a sign.\<close>

definition zero_pad :: "nat \<Rightarrow> string \<Rightarrow> string" where
  "zero_pad n s = replicate (n - length s) (CHR ''0'') @ s"

definition padded_int :: "nat \<Rightarrow> int \<Rightarrow> string" where
  "padded_int n i = (if i < 0 then CHR ''-'' # zero_pad (n - 1) (dec_string (nat (- i)))
                     else zero_pad n (dec_string (nat i)))"

text \<open>
  \<open>%.2f\<close> of the quotient \<open>a / b\<close>: the exact value rounded to hundredths, ties to even.
\<close>

definition div_half_even :: "nat \<Rightarrow> nat \<Rightarrow> nat" where
  "div_half_even a b =
     (let q = a div b; r = a mod b
      in if 2 * r < b \<or> (2 * r = b \<and> even q) then q else q + 1)"

definition fixed2 :: "nat \<Rightarrow> nat \<Rightarrow> string" where
  "fixed2 a b =
     (let c = div_half_even (100 * a) b
      in dec_string (c div 100) @ ''.'' @ zero_pad 2 (dec_string (c mod 100)))"

section \<open>Reading decimals back\<close>

lemma digit_char_code: "d < 10 \<Longrightarrow> (of_char (digit_char d) :: nat) = 48 + d"
  by (simp add: digit_char_def)

lemma digit_char_is_digit: "d < 10 \<Longrightarrow> is_digit (digit_char d)"
  by (simp add: is_digit_def digit_char_code)

lemma digits_value_append:
  "\<forall>c \<in> set s. is_digit c \<Longrightarrow> digits_value a (s @ t) = digits_value (digits_value a s) t"
  by (induction s arbitrary: a) auto

lemma dec_string_digits: "c \<in> set (dec_string n) \<Longrightarrow> is_digit c"
proof (induction n rule: dec_string.induct)
  case (1 n)
  then show ?case
    by (subst (asm) (2) dec_string.simps) (auto simp: digit_char_is_digit split: if_splits)
qed

lemma dec_string_nonempty [simp]: "dec_string n \<noteq> []"
  by (subst dec_string.simps) simp

lemma digits_value_dec: "digits_value 0 (dec_string n) = int n"
proof (induction n rule: dec_string.induct)
  case (1 n)
  show ?case
  proof (cases "n < 10")
    case True
    then show ?thesis
      by (subst dec_string.simps) (simp add: digit_char_is_digit digit_char_code)
  next
    case False
    have "digits_value 0 (dec_string n) = digits_value (int (n div 10)) [digit_char (n mod 10)]"
      using False 1 by (subst dec_string.simps) (simp add: digits_value_append dec_string_digits)
    also have "\<dots> = 10 * int (n div 10) + int (n mod 10)"
      by (simp add: digit_char_is_digit digit_char_code)
    also have "\<dots> = int n" by (metis mult_div_mod_eq of_nat_add of_nat_mult of_nat_numeral)
    finally show ?thesis .
  qed
qed

lemma dec_string_inj: "dec_string m = dec_string n \<Longrightarrow> m = n"
  by (metis digits_value_dec of_nat_eq_iff)

lemma digit_not_space: "is_digit c \<Longrightarrow> \<not> is_space c \<and> c \<noteq> CHR ''-'' \<and> c \<noteq> CHR ''+''"
proof -
  assume "is_digit c"
  then have "48 \<le> (of_char c :: nat)" "\<not> (of_char c :: nat) \<le> 13" by (simp_all add: is_digit_def)
  then show ?thesis by (auto simp: is_space_def)
qed

lemma atol_int_string:
  assumes "- (2 ^ 63) \<le> i" "i < 2 ^ 63"
  shows "atol (int_string i) = i"
proof -
  have d: "dropWhile is_space (dec_string n) = dec_string n" for n
    using dec_string_digits [of _ n] digit_not_space by (cases "dec_string n") auto
  have minus: "\<not> is_space CHR ''-''" by (simp add: is_space_def)
  show ?thesis
  proof (cases "i < 0")
    case True
    then show ?thesis
      using assms by (simp add: atol_def int_string_def minus digits_value_dec clamp_long_def)
  next
    case False
    obtain c cs where c: "dec_string (nat i) = c # cs" by (cases "dec_string (nat i)") auto
    then have "is_digit c" using dec_string_digits [of c "nat i"] by simp
    then show ?thesis
      using False assms d [of "nat i"] digits_value_dec [of "nat i"] digit_not_space [of c] c
      by (simp add: atol_def int_string_def clamp_long_def)
  qed
qed

end
