(* ===== verification/Services.thy ===== *)
theory Services
  imports Mtt_World C_Format
begin

text \<open>
  The life cycle of the background threads: the reporter (\<^verbatim>\<open>reporter.c\<close>), the dashboard
  server (\<^verbatim>\<open>http_server.c\<close>) and the signal thread (\<^verbatim>\<open>tracker.c\<close>). Each is started at
  most once, can be told to stop, and is reset in a forked child. Waiting times and log
  messages are not modelled; the descriptors passed to \<open>close\<close> are recorded in
  \<open>g_closed_fds\<close>.
\<close>

section \<open>Reporter (reporter.c)\<close>

text \<open>The directory of the reports: \<open>/var/log/mtt\<close> if it can be made or exists and is writable.\<close>

definition ensure_log_dir :: "'l ext \<Rightarrow> nat \<Rightarrow> 'l world \<Rightarrow> string" where
  "ensure_log_dir X n w =
     (if n = 0 then ''/tmp''
      else if x_log_dir_exists X (g_ext w) \<and> x_log_dir_writable X (g_ext w)
      then copy_trunc n ''/var/log/mtt''
      else copy_trunc n ''/tmp/mtt-logs'')"

definition report_proc_name :: "mtt_state \<Rightarrow> string" where
  "report_proc_name s =
     (if s_proc_name_ready s \<and> s_proc_name s \<noteq> [] then s_proc_name s else ''unknown'')"

definition report_path :: "string \<Rightarrow> int \<Rightarrow> string \<Rightarrow> string \<Rightarrow> string" where
  "report_path dir pid nm suffix =
     copy_trunc 768 (dir @ ''/'' @ int_string pid @ ''_'' @ nm @ suffix)"

text \<open>
  The start also clears \<open>g_reporter.leak_table\<close>, a field that nothing reads (a scan has a table of its own)
  and that the record \<open>reporter\<close> does not have.
\<close>

definition mtt_reporter_start :: "'l ext \<Rightarrow> 'l world \<Rightarrow> 'l world" where
  "mtt_reporter_start X w =
     (if g_reporter_started w then w
      else
        let nm = report_proc_name (g_state w);
            dir = ensure_log_dir X 256 w;
            pid = x_getpid X (g_ext w);
            w = w\<lparr>g_reporter_started := True,
                  g_reporter := (g_reporter w)\<lparr>r_scan_mutex := False, r_cache_lock := False,
                    r_running := True, r_session_start := g_time w,
                    r_log_path := report_path dir pid nm ''.log'',
                    r_tmp_path := report_path dir pid nm ''.log.tmp''\<rparr>\<rparr>
        in if \<not> x_pthread_create X (g_ext w) SV_REPORTER
           then w\<lparr>g_reporter := (g_reporter w)\<lparr>r_running := False\<rparr>, g_reporter_started := False\<rparr>
           else w\<lparr>g_atexit_registered := True\<rparr>)"

definition mtt_reporter_stop :: "'l world \<Rightarrow> 'l world" where
  "mtt_reporter_stop w = w\<lparr>g_reporter := (g_reporter w)\<lparr>r_running := False\<rparr>\<rparr>"

definition mtt_reporter_reset_for_fork :: "'l world \<Rightarrow> 'l world" where
  "mtt_reporter_reset_for_fork w =
     w\<lparr>g_reporter_started := False, g_atexit_registered := False, g_atexit_done := False,
       g_reporter := (g_reporter w)\<lparr>r_running := False, r_scan_mutex := False, r_cache_lock := False\<rparr>\<rparr>"

section \<open>Dashboard server (http_server.c)\<close>

definition MTT_HTTP_BIND_RETRIES :: nat where "MTT_HTTP_BIND_RETRIES = 4"

definition close_fd :: "int \<Rightarrow> 'l world \<Rightarrow> 'l world" where
  "close_fd fd w = w\<lparr>g_closed_fds := g_closed_fds w @ [fd]\<rparr>"

text \<open>
  \<open>bind\<close> is asked up to four times for the requested port and once for each of the five
  ports after it; the second argument of \<open>x_bind\<close> numbers the attempts.
\<close>

definition bind_requested :: "'l ext \<Rightarrow> u16 \<Rightarrow> 'l world \<Rightarrow> bool" where
  "bind_requested X port w \<longleftrightarrow>
     list_ex (\<lambda>attempt. x_bind X (g_ext w) attempt port) [0..<MTT_HTTP_BIND_RETRIES]"

definition bind_fallback :: "'l ext \<Rightarrow> u16 \<Rightarrow> 'l world \<Rightarrow> u16 option" where
  "bind_fallback X port w =
     map_option (\<lambda>k. port + of_nat k)
       (find (\<lambda>k. x_bind X (g_ext w) (MTT_HTTP_BIND_RETRIES + k - 1) (port + of_nat k)) [1..<6])"

definition mtt_http_server_start :: "'l ext \<Rightarrow> u16 \<Rightarrow> 'l world \<Rightarrow> u16 \<times> 'l world" where
  "mtt_http_server_start X port w =
     (if port = 0 then (0, w)
      else if h_running (g_http_server w) then (h_port (g_http_server w), w)
      else
        let fd = x_socket X (g_ext w)
        in if fd < 0 then (0, w)
           else
             case (if bind_requested X port w then Some port else bind_fallback X port w) of
               None \<Rightarrow> (0, close_fd fd w)
             | Some port \<Rightarrow>
                 if \<not> x_listen X (g_ext w) then (0, close_fd fd w)
                 else
                   let w = w\<lparr>g_http_server :=
                         (g_http_server w)\<lparr>h_listen_fd := fd, h_port := port, h_running := True\<rparr>\<rparr>
                   in if \<not> x_pthread_create X (g_ext w) SV_HTTP
                      then (0, close_fd fd (w\<lparr>g_http_server := (g_http_server w)\<lparr>h_running := False\<rparr>\<rparr>))
                      else (port, w))"

definition mtt_http_server_stop :: "'l world \<Rightarrow> 'l world" where
  "mtt_http_server_stop w =
     (let w = w\<lparr>g_http_server := (g_http_server w)\<lparr>h_running := False\<rparr>\<rparr>
      in if h_listen_fd (g_http_server w) > 0
         then (close_fd (h_listen_fd (g_http_server w)) w)
                \<lparr>g_http_server := (g_http_server w)\<lparr>h_listen_fd := - 1\<rparr>\<rparr>
         else w)"

definition mtt_http_reset_for_fork :: "'l world \<Rightarrow> 'l world" where
  "mtt_http_reset_for_fork w =
     (let w = w\<lparr>g_http_server := (g_http_server w)\<lparr>h_running := False\<rparr>\<rparr>;
          w = (if h_listen_fd (g_http_server w) > 0
               then (close_fd (h_listen_fd (g_http_server w)) w)
                      \<lparr>g_http_server := (g_http_server w)\<lparr>h_listen_fd := - 1\<rparr>\<rparr>
               else w)
      in w\<lparr>g_http_server := (g_http_server w)\<lparr>h_port := 0\<rparr>\<rparr>)"

section \<open>Signal thread (tracker.c)\<close>

definition mtt_signal_thread_start :: "'l ext \<Rightarrow> 'l world \<Rightarrow> 'l world" where
  "mtt_signal_thread_start X w =
     (if g_signal_thread_started w then w
      else
        let w = w\<lparr>g_signal_thread_started := True, g_signal_thread_running := True\<rparr>
        in if \<not> x_pthread_create X (g_ext w) SV_SIGNAL
           then w\<lparr>g_signal_thread_running := False\<rparr>
           else w)"

text \<open>The part of \<open>mtt_fork_child\<close> that lets a forked child start the signal thread again.\<close>

definition signal_reset_for_fork :: "'l world \<Rightarrow> 'l world" where
  "signal_reset_for_fork w = w\<lparr>g_signal_thread_started := False, g_signal_thread_running := False\<rparr>"

text \<open>The start of \<open>mtt_atexit_handler\<close>: the three threads are told to stop.\<close>

definition atexit_stop :: "'l world \<Rightarrow> 'l world" where
  "atexit_stop w = mtt_http_server_stop (mtt_reporter_stop (w\<lparr>g_atexit_done := True, g_signal_thread_running := False\<rparr>))"

section \<open>Life cycle\<close>

text \<open>Any sequence of starts, stops and resets, by any thread, and the stop of all three at exit.\<close>

inductive svc_step :: "'l ext \<Rightarrow> 'l world \<Rightarrow> 'l world \<Rightarrow> bool" for X where
  reporter_start: "svc_step X w (mtt_reporter_start X w)"
| reporter_stop: "svc_step X w (mtt_reporter_stop w)"
| reporter_reset: "svc_step X w (mtt_reporter_reset_for_fork w)"
| http_start: "svc_step X w (snd (mtt_http_server_start X port w))"
| http_stop: "svc_step X w (mtt_http_server_stop w)"
| http_reset: "svc_step X w (mtt_http_reset_for_fork w)"
| signal_start: "svc_step X w (mtt_signal_thread_start X w)"
| signal_reset: "svc_step X w (signal_reset_for_fork w)"
| exit_stop: "\<not> g_atexit_done w \<Longrightarrow> svc_step X w (atexit_stop w)"

inductive svc_reach :: "'l ext \<Rightarrow> 'l world \<Rightarrow> 'l world \<Rightarrow> bool" for X w0 where
  start: "svc_reach X w0 w0"
| step: "svc_reach X w0 w \<Longrightarrow> svc_step X w w' \<Longrightarrow> svc_reach X w0 w'"

definition svc_inv :: "'l world \<Rightarrow> bool" where
  "svc_inv w \<longleftrightarrow>
     (r_running (g_reporter w) \<longrightarrow> g_reporter_started w \<and> g_atexit_registered w) \<and>
     (g_signal_thread_running w \<longrightarrow> g_signal_thread_started w) \<and>
     (h_running (g_http_server w) \<longrightarrow> 0 \<le> h_listen_fd (g_http_server w))"

lemma svc_step_inv: "svc_step X w w' \<Longrightarrow> svc_inv w \<Longrightarrow> svc_inv w'"
  by (induction rule: svc_step.induct)
    (auto simp: svc_inv_def mtt_reporter_start_def mtt_reporter_stop_def mtt_reporter_reset_for_fork_def
      mtt_http_server_start_def mtt_http_server_stop_def mtt_http_reset_for_fork_def close_fd_def
      mtt_signal_thread_start_def signal_reset_for_fork_def atexit_stop_def Let_def split: option.split)

lemma svc_reach_inv: "svc_reach X w0 w \<Longrightarrow> svc_inv w0 \<Longrightarrow> svc_inv w"
  by (induction rule: svc_reach.induct) (auto intro: svc_step_inv)

section \<open>Ports\<close>

lemma fallback_Some:
  assumes "bind_fallback X port w = Some r"
  shows "\<exists>k. 1 \<le> k \<and> k < 6 \<and> r = port + of_nat k \<and>
     x_bind X (g_ext w) (MTT_HTTP_BIND_RETRIES + k - 1) r"
  using assms by (auto simp: bind_fallback_def find_Some_iff)

lemma fallback_None:
  "bind_fallback X port w = None \<longleftrightarrow>
     (\<forall>k. 1 \<le> k \<and> k < 6 \<longrightarrow> \<not> x_bind X (g_ext w) (MTT_HTTP_BIND_RETRIES + k - 1) (port + of_nat k))"
  by (auto simp: bind_fallback_def find_None_iff)

lemma port_add:
  assumes "unat port + 5 < 2 ^ 16" "k < 6"
  shows "unat (port + of_nat k :: u16) = unat port + k"
proof -
  have "unat (of_nat k :: u16) = k" using assms(2) by (simp only: unat_of_nat) simp
  then show ?thesis using assms by (simp add: unat_word_ariths)
qed

section \<open>Properties\<close>



text \<open>Starting the dashboard for a port below 65531: it returns a port other than 0 exactly when
  the server is running afterwards, that port is the one recorded and one of the six tried, it is the
  requested port whenever \<open>bind\<close> accepts that in one of its four attempts, and where the start fails
  after a socket was opened the socket is closed.\<close>

theorem http_start_outcome:
  assumes "unat port + 5 < 2 ^ 16" "port \<noteq> 0" "\<not> h_running (g_http_server w)"
    and "mtt_http_server_start X port w = (r, w')"
  shows "(r \<noteq> 0 \<longleftrightarrow> h_running (g_http_server w'))
       \<and> (r \<noteq> 0 \<longrightarrow> h_port (g_http_server w') = r \<and> unat port \<le> unat r \<and> unat r \<le> unat port + 5 \<and>
            (bind_requested X port w \<longrightarrow> r = port))
       \<and> (r = 0 \<and> 0 \<le> x_socket X (g_ext w) \<longrightarrow> g_closed_fds w' = g_closed_fds w @ [x_socket X (g_ext w)])"
proof -
  have p: "port + of_nat k \<noteq> 0 \<and> unat port \<le> unat (port + of_nat k :: u16) \<and>
      unat (port + of_nat k :: u16) \<le> unat port + 5" if "k < 6" for k
  proof -
    have e: "unat (port + of_nat k :: u16) = unat port + k" by (rule port_add [OF assms(1) that])
    have "unat port \<noteq> 0" using assms(2) by (simp add: unat_eq_zero)
    then have "port + of_nat k \<noteq> 0" using e by (metis add_is_0 unat_0)
    then show ?thesis using e that by simp
  qed
  show ?thesis
  proof (cases "bind_requested X port w")
    case True
    then show ?thesis
      using assms(2-4) by (auto simp: mtt_http_server_start_def close_fd_def Let_def split: if_splits)
  next
    case False
    show ?thesis
    proof (cases "bind_fallback X port w")
      case None
      then show ?thesis
        using assms(2-4) False by (auto simp: mtt_http_server_start_def close_fd_def Let_def split: if_splits)
    next
      case (Some q)
      then obtain k where "k < 6" "q = port + of_nat k" using fallback_Some by blast
      then show ?thesis
        using assms(2-4) False Some p [of k]
        by (auto simp: mtt_http_server_start_def close_fd_def Let_def split: if_splits)
    qed
  qed
qed

theorem http_start_outcome_witness:
  "let (r, w') = mtt_http_server_start demo_ext 8080 demo_world
   in r = 8080 \<and> h_running (g_http_server w')"
proof -
  obtain r w' where s: "mtt_http_server_start demo_ext 8080 demo_world = (r, w')" by fastforce
  have "bind_requested demo_ext 8080 demo_world"
    by (simp add: bind_requested_def demo_ext_def MTT_HTTP_BIND_RETRIES_def upt_conv_Cons)
  moreover have "r \<noteq> 0"
    using s calculation by (auto simp: mtt_http_server_start_def demo_ext_def demo_world_def Let_def)
  ultimately show ?thesis
    using http_start_outcome [OF _ _ _ s] s by (simp add: demo_world_def)
qed

text \<open>Near the end of the port range the fallback wraps: when port 65535 cannot be bound and the
  next attempt succeeds, the server listens on port 0 (a port the system picks), and the caller is
  told 0, which means that no server runs.\<close>

theorem http_port_wraps:
  assumes "\<not> h_running (g_http_server w)" "0 \<le> x_socket X (g_ext w)" "x_listen X (g_ext w)"
    and "x_pthread_create X (g_ext w) SV_HTTP"
    and "\<not> bind_requested X 65535 w" "x_bind X (g_ext w) MTT_HTTP_BIND_RETRIES 0"
  shows "fst (mtt_http_server_start X 65535 w) = 0
       \<and> h_running (g_http_server (snd (mtt_http_server_start X 65535 w)))"
proof -
  have u: "[1..<6] = [1, 2, 3, 4, 5 :: nat]" by (simp add: upt_conv_Cons)
  have z: "(65536 :: u16) = 0" by (simp add: word_uint_eq_iff)
  have "bind_fallback X 65535 w = Some 0"
    unfolding bind_fallback_def u using assms(6) by (simp add: z)
  then show ?thesis using assms by (simp add: mtt_http_server_start_def)
qed

theorem http_port_wraps_witness:
  "fst (mtt_http_server_start (demo_ext\<lparr>x_bind := (\<lambda>_ _ p. p = 0)\<rparr>) 65535 demo_world) = 0"
  using http_port_wraps [of demo_world "demo_ext\<lparr>x_bind := (\<lambda>_ _ p. p = 0)\<rparr>"]
  by (simp add: demo_world_def demo_ext_def bind_requested_def MTT_HTTP_BIND_RETRIES_def upt_conv_Cons)

text \<open>When the server thread cannot be created the descriptor is closed but stays recorded: a
  later stop closes the same number again, which may by then belong to the application.\<close>

theorem http_fd_closed_twice:
  assumes "\<not> h_running (g_http_server w)" "port \<noteq> 0" "0 < x_socket X (g_ext w)" "x_listen X (g_ext w)"
    and "bind_requested X port w" "\<not> x_pthread_create X (g_ext w) SV_HTTP"
  shows "g_closed_fds (mtt_http_server_stop (snd (mtt_http_server_start X port w))) =
     g_closed_fds w @ [x_socket X (g_ext w), x_socket X (g_ext w)]"
  using assms by (simp add: mtt_http_server_start_def mtt_http_server_stop_def close_fd_def Let_def)

theorem http_fd_closed_twice_witness:
  "g_closed_fds (mtt_http_server_stop (snd (mtt_http_server_start
     (demo_ext\<lparr>x_pthread_create := (\<lambda>_ _. False)\<rparr>) 8080 demo_world))) = [5, 5]"
  using http_fd_closed_twice [of demo_world 8080 "demo_ext\<lparr>x_pthread_create := (\<lambda>_ _. False)\<rparr>"]
  by (simp add: demo_world_def demo_ext_def bind_requested_def MTT_HTTP_BIND_RETRIES_def upt_conv_Cons)

end
