(* ===== verification/Per_Thread.thy ===== *)
theory Per_Thread
  imports Mtt_World
begin

text \<open>
  The per-thread contexts of \<^verbatim>\<open>per_thread.h\<close> and the recursion depth of
  \<^verbatim>\<open>hooks.c\<close>. A thread finds its slot by its kernel id, claims a free one, or
  takes the slot of a thread that is gone; \<open>mtt_thread_get_cached\<close> remembers the
  slot in thread-local storage. The locale \<open>slot_table\<close> states what a client of
  the slots relies on; it is interpreted on both lookups.
\<close>

section \<open>Definitions\<close>

definition slot_claimed :: "int \<Rightarrow> per_thread" where
  "slot_claimed tid =
     \<lparr>t_tid = tid, t_hook_depth = - 1, t_depth_inited = - 1, t_in_hook = 0,
      t_tool_internal = 0, t_raw_resolving = 0, t_in_capture = 0\<rparr>"

definition find_slot :: "(per_thread \<Rightarrow> bool) \<Rightarrow> 'l world \<Rightarrow> nat option" where
  "find_slot P w = find (\<lambda>i. P (g_threads w i)) [0..<MTT_MAX_THREADS]"

definition mtt_thread_get :: "'l ext \<Rightarrow> int \<Rightarrow> 'l world \<Rightarrow> nat option \<times> 'l world" where
  "mtt_thread_get X tid w =
     (case find_slot (\<lambda>t. t_tid t = tid) w of
        Some i \<Rightarrow> (Some i, w)
      | None \<Rightarrow>
         (case find_slot (\<lambda>t. t_tid t = 0) w of
            Some i \<Rightarrow> (Some i, upd_slot i (\<lambda>_. slot_claimed tid) w)
          | None \<Rightarrow>
             (case find_slot (\<lambda>t. t_tid t \<noteq> 0 \<and> t_tid t \<noteq> tid \<and>
                                  x_no_such_thread X (g_ext w) (t_tid t)) w of
                Some i \<Rightarrow> (Some i, upd_slot i (\<lambda>_. slot_claimed tid) w)
              | None \<Rightarrow> (None, w))))"

definition mtt_thread_get_cached :: "'l ext \<Rightarrow> int \<Rightarrow> 'l world \<Rightarrow> nat option \<times> 'l world" where
  "mtt_thread_get_cached X tid w =
     (case g_tls_ctx w tid of
        Some c \<Rightarrow>
          if g_tls_cached_tid w tid = t_tid (g_threads w c) then (Some c, w)
          else (let (r, w) = mtt_thread_get X tid w
                in (r, w\<lparr>g_tls_ctx := (g_tls_ctx w)(tid := r),
                         g_tls_cached_tid := (g_tls_cached_tid w)(tid :=
                           (case r of Some i \<Rightarrow> t_tid (g_threads w i) | None \<Rightarrow> 0))\<rparr>))
      | None \<Rightarrow>
          (let (r, w) = mtt_thread_get X tid w
           in (r, w\<lparr>g_tls_ctx := (g_tls_ctx w)(tid := r),
                    g_tls_cached_tid := (g_tls_cached_tid w)(tid :=
                      (case r of Some i \<Rightarrow> t_tid (g_threads w i) | None \<Rightarrow> 0))\<rparr>)))"

text \<open>The recursion depth (hooks.c).\<close>

definition mtt_hook_enter :: "'l ext \<Rightarrow> int \<Rightarrow> 'l world \<Rightarrow> int \<times> 'l world" where
  "mtt_hook_enter X tid w =
     (let (c, w) = mtt_thread_get_cached X tid w in
      case c of
        None \<Rightarrow> (- 1, w)
      | Some i \<Rightarrow>
          let w = (if t_depth_inited (g_threads w i) \<noteq> 0x2A
                   then upd_slot i (\<lambda>t. t\<lparr>t_hook_depth := 0, t_depth_inited := 0x2A\<rparr>) w
                   else if t_hook_depth (g_threads w i) > MTT_HOOK_DEPTH_MAX
                   then upd_slot i (\<lambda>t. t\<lparr>t_hook_depth := 0\<rparr>) w
                   else w)
          in (t_hook_depth (g_threads w i), w))"

definition mtt_hook_inc_depth :: "'l ext \<Rightarrow> int \<Rightarrow> 'l world \<Rightarrow> 'l world" where
  "mtt_hook_inc_depth X tid w =
     (let (c, w) = mtt_thread_get_cached X tid w in
      case c of
        None \<Rightarrow> w
      | Some i \<Rightarrow>
          let w = (if t_depth_inited (g_threads w i) \<noteq> 0x2A
                   then upd_slot i (\<lambda>t. t\<lparr>t_hook_depth := 0, t_depth_inited := 0x2A\<rparr>) w
                   else w)
          in if t_hook_depth (g_threads w i) \<ge> MTT_HOOK_DEPTH_MAX then w
             else upd_slot i (\<lambda>t. t\<lparr>t_hook_depth := t_hook_depth t + 1\<rparr>) w)"

definition mtt_hook_dec_depth :: "'l ext \<Rightarrow> int \<Rightarrow> 'l world \<Rightarrow> 'l world" where
  "mtt_hook_dec_depth X tid w =
     (let (c, w) = mtt_thread_get_cached X tid w in
      case c of
        None \<Rightarrow> w
      | Some i \<Rightarrow>
          if t_hook_depth (g_threads w i) > 0
          then upd_slot i (\<lambda>t. t\<lparr>t_hook_depth := t_hook_depth t - 1\<rparr>) w
          else upd_slot i (\<lambda>t. t\<lparr>t_hook_depth := 0\<rparr>) w)"

section \<open>Invariants\<close>

text \<open>No two slots belong to the same thread.\<close>

definition slots_inv :: "'l world \<Rightarrow> bool" where
  "slots_inv w \<longleftrightarrow>
     (\<forall>i < MTT_MAX_THREADS. \<forall>j < MTT_MAX_THREADS.
        t_tid (g_threads w i) \<noteq> 0 \<longrightarrow> t_tid (g_threads w i) = t_tid (g_threads w j) \<longrightarrow> i = j)"

text \<open>A cached slot is an index of the table, remembered together with the thread's own id.\<close>

definition tls_inv :: "'l world \<Rightarrow> bool" where
  "tls_inv w \<longleftrightarrow>
     (\<forall>tid c. g_tls_ctx w tid = Some c \<longrightarrow> c < MTT_MAX_THREADS \<and> g_tls_cached_tid w tid = tid)"

text \<open>The depth counter stays between 0 and its maximum once it is set up.\<close>

definition depth_ok :: "per_thread \<Rightarrow> bool" where
  "depth_ok t \<longleftrightarrow>
     t_depth_inited t = 0x2A \<longrightarrow> 0 \<le> t_hook_depth t \<and> t_hook_depth t \<le> MTT_HOOK_DEPTH_MAX"

section \<open>Lookup\<close>

lemma find_slot_Some:
  "find_slot P w = Some i \<Longrightarrow> i < MTT_MAX_THREADS \<and> P (g_threads w i)"
  by (auto simp: find_slot_def find_Some_iff)

lemma find_slot_None:
  "find_slot P w = None \<longleftrightarrow> (\<forall>i < MTT_MAX_THREADS. \<not> P (g_threads w i))"
  by (auto simp: find_slot_def find_None_iff)

lemma slot_claimed_simps [simp]:
  "t_tid (slot_claimed tid) = tid" "t_depth_inited (slot_claimed tid) = - 1"
  "t_tool_internal (slot_claimed tid) = 0" "t_in_capture (slot_claimed tid) = 0"
  "t_raw_resolving (slot_claimed tid) = 0" "t_in_hook (slot_claimed tid) = 0"
  by (simp_all add: slot_claimed_def)

lemma upd_slot_simps [simp]:
  "g_threads (upd_slot i f w) = (g_threads w)(i := f (g_threads w i))"
  "g_state (upd_slot i f w) = g_state w" "g_ext (upd_slot i f w) = g_ext w"
  "g_tls_ctx (upd_slot i f w) = g_tls_ctx w" "g_hung (upd_slot i f w) = g_hung w"
  "g_tls_cached_tid (upd_slot i f w) = g_tls_cached_tid w"
  "g_entries (upd_slot i f w) = g_entries w" "g_mem (upd_slot i f w) = g_mem w"
  by (simp_all add: upd_slot_def)

lemma thread_get_cases:
  obtains (found) i where "mtt_thread_get X tid w = (Some i, w)" "i < MTT_MAX_THREADS"
      "t_tid (g_threads w i) = tid"
  | (claimed) i where "mtt_thread_get X tid w = (Some i, upd_slot i (\<lambda>_. slot_claimed tid) w)"
      "i < MTT_MAX_THREADS" "\<And>j. j < MTT_MAX_THREADS \<Longrightarrow> t_tid (g_threads w j) \<noteq> tid"
      "t_tid (g_threads w i) = 0 \<or> x_no_such_thread X (g_ext w) (t_tid (g_threads w i))"
  | (full) "mtt_thread_get X tid w = (None, w)"
      "\<And>j. j < MTT_MAX_THREADS \<Longrightarrow> t_tid (g_threads w j) \<noteq> tid \<and> t_tid (g_threads w j) \<noteq> 0 \<and>
         \<not> x_no_such_thread X (g_ext w) (t_tid (g_threads w j))"
proof (cases "find_slot (\<lambda>t. t_tid t = tid) w")
  case (Some i)
  then show thesis
    using found [of i] find_slot_Some [OF Some] by (simp add: mtt_thread_get_def)
next
  case None
  note nomatch = None
  show thesis
  proof (cases "find_slot (\<lambda>t. t_tid t = 0) w")
    case (Some i)
    then show thesis
      using claimed [of i] nomatch find_slot_Some [OF Some]
      by (simp add: mtt_thread_get_def find_slot_None)
  next
    case None
    note nofree = None
    show thesis
    proof (cases "find_slot (\<lambda>t. t_tid t \<noteq> 0 \<and> t_tid t \<noteq> tid \<and>
        x_no_such_thread X (g_ext w) (t_tid t)) w")
      case (Some i)
      then show thesis
        using claimed [of i] nomatch nofree find_slot_Some [OF Some]
        by (simp add: mtt_thread_get_def find_slot_None)
    next
      case None
      have "mtt_thread_get X tid w = (None, w)"
        using nomatch nofree None by (simp add: mtt_thread_get_def)
      then show thesis
        using full nomatch nofree None unfolding find_slot_None by blast
    qed
  qed
qed

section \<open>The interface of the slot table\<close>

text \<open>
  What the hooks rely on: a lookup that succeeds yields a slot of the table that
  carries the caller's id and that was the caller's, free, or left by a thread
  that is gone; it changes at most that slot, keeps one slot per thread, and
  asking again yields the same slot.
\<close>

locale slot_table =
  fixes get :: "int \<Rightarrow> 'l world \<Rightarrow> nat option \<times> 'l world"
    and inv :: "'l world \<Rightarrow> bool"
    and gone :: "'l world \<Rightarrow> int \<Rightarrow> bool"
  assumes get_owner: "inv w \<Longrightarrow> get tid w = (Some i, w') \<Longrightarrow>
      i < MTT_MAX_THREADS \<and> t_tid (g_threads w' i) = tid"
    and get_takes: "inv w \<Longrightarrow> get tid w = (Some i, w') \<Longrightarrow>
      t_tid (g_threads w i) = tid \<or> t_tid (g_threads w i) = 0 \<or> gone w (t_tid (g_threads w i))"
    and get_frame: "inv w \<Longrightarrow> get tid w = (r, w') \<Longrightarrow> r \<noteq> Some j \<Longrightarrow>
      g_threads w' j = g_threads w j"
    and get_state: "get tid w = (r, w') \<Longrightarrow> g_state w' = g_state w"
    and get_inv: "inv w \<Longrightarrow> get tid w = (r, w') \<Longrightarrow> inv w'"
    and get_again: "inv w \<Longrightarrow> tid \<noteq> 0 \<Longrightarrow> get tid w = (Some i, w') \<Longrightarrow> get tid w' = (Some i, w')"
begin

text \<open>Two live threads never share a slot, and one's lookup leaves the other's slot alone.\<close>

lemma get_disjoint:
  assumes "inv w" "tid \<noteq> tid'" "tid \<noteq> 0"
    and g1: "get tid w = (Some i, w1)" and g2: "get tid' w1 = (Some j, w2)"
    and alive: "\<not> gone w1 tid"
  shows "i \<noteq> j \<and> g_threads w2 i = g_threads w1 i"
proof -
  have i1: "inv w1" using get_inv assms by blast
  have o1: "t_tid (g_threads w1 i) = tid" using get_owner assms by blast
  have "i \<noteq> j" using get_takes [OF i1 g2] o1 alive assms(2,3) by auto
  then show ?thesis using get_frame [OF i1 g2, of i] by simp
qed

end

lemma slots_inv_claim:
  assumes "slots_inv w" "i < MTT_MAX_THREADS"
    and "\<And>j. j < MTT_MAX_THREADS \<Longrightarrow> t_tid (g_threads w j) \<noteq> tid"
  shows "slots_inv (upd_slot i (\<lambda>_. slot_claimed tid) w)"
proof -
  have "a = b" if "a < MTT_MAX_THREADS" "b < MTT_MAX_THREADS"
    "t_tid (((g_threads w)(i := slot_claimed tid)) a) \<noteq> 0"
    "t_tid (((g_threads w)(i := slot_claimed tid)) a) = t_tid (((g_threads w)(i := slot_claimed tid)) b)"
    for a b
    using that assms by (auto simp: slots_inv_def split: if_splits)
  then show ?thesis unfolding slots_inv_def by simp
qed

lemma find_slot_unique:
  assumes "slots_inv w" "tid \<noteq> 0" "i < MTT_MAX_THREADS" "t_tid (g_threads w i) = tid"
  shows "find_slot (\<lambda>t. t_tid t = tid) w = Some i"
proof (cases "find_slot (\<lambda>t. t_tid t = tid) w")
  case None
  then show ?thesis using assms by (auto simp: find_slot_None)
next
  case (Some j)
  with assms have "j = i" using find_slot_Some [OF Some] by (auto simp: slots_inv_def)
  with Some show ?thesis by simp
qed

lemma thread_get_same:
  assumes "slots_inv w" "tid \<noteq> 0" "i < MTT_MAX_THREADS" "t_tid (g_threads w i) = tid"
  shows "mtt_thread_get X tid w = (Some i, w)"
  using find_slot_unique [OF assms] by (simp add: mtt_thread_get_def)

lemma thread_get_inv:
  assumes "slots_inv w" "mtt_thread_get X tid w = (r, w')"
  shows "slots_inv w'"
  by (rule thread_get_cases [of X tid w]) (use assms in \<open>auto intro: slots_inv_claim\<close>)

lemma thread_get_other_globals:
  assumes "mtt_thread_get X tid w = (r, w')"
  shows "g_state w' = g_state w" "g_ext w' = g_ext w" "g_tls_ctx w' = g_tls_ctx w"
    "g_tls_cached_tid w' = g_tls_cached_tid w" "g_hung w' = g_hung w"
    "g_entries w' = g_entries w" "g_mem w' = g_mem w"
  by (rule thread_get_cases [of X tid w]; use assms in auto)+

interpretation plain_slots: slot_table "mtt_thread_get X" slots_inv
    "\<lambda>w. x_no_such_thread X (g_ext w)" for X :: "'l ext"
proof unfold_locales
  fix w w' :: "'l world" and tid i r j
  assume w: "slots_inv w"
  show "i < MTT_MAX_THREADS \<and> t_tid (g_threads w' i) = tid"
    if "mtt_thread_get X tid w = (Some i, w')"
    by (rule thread_get_cases [of X tid w]) (use that in auto)
  show "t_tid (g_threads w i) = tid \<or> t_tid (g_threads w i) = 0 \<or>
      x_no_such_thread X (g_ext w) (t_tid (g_threads w i))"
    if "mtt_thread_get X tid w = (Some i, w')"
    by (rule thread_get_cases [of X tid w]) (use that in auto)
  show "g_threads w' j = g_threads w j" if "mtt_thread_get X tid w = (r, w')" "r \<noteq> Some j"
    by (rule thread_get_cases [of X tid w]) (use that in auto)
  show "slots_inv w'" if "mtt_thread_get X tid w = (r, w')"
    using thread_get_inv w that by blast
  show "mtt_thread_get X tid w' = (Some i, w')"
    if "tid \<noteq> 0" "mtt_thread_get X tid w = (Some i, w')"
    by (rule thread_get_cases [of X tid w])
      (use that w thread_get_inv [OF w that(2)] in \<open>auto intro!: thread_get_same\<close>)
qed (auto dest: thread_get_other_globals)

text \<open>The cached lookup, with the invariant of the thread-local cache.\<close>

lemma cached_cases:
  assumes "tls_inv w"
  obtains (hit) c where "mtt_thread_get_cached X tid w = (Some c, w)" "c < MTT_MAX_THREADS"
      "t_tid (g_threads w c) = tid" "g_tls_ctx w tid = Some c" "g_tls_cached_tid w tid = tid"
  | (slow) r w1 where "mtt_thread_get X tid w = (r, w1)"
      "mtt_thread_get_cached X tid w =
         (r, w1\<lparr>g_tls_ctx := (g_tls_ctx w1)(tid := r),
                g_tls_cached_tid := (g_tls_cached_tid w1)(tid :=
                  (case r of Some i \<Rightarrow> t_tid (g_threads w1 i) | None \<Rightarrow> 0))\<rparr>)"
proof -
  obtain r w1 where g: "mtt_thread_get X tid w = (r, w1)" by (cases "mtt_thread_get X tid w")
  show thesis
  proof (cases "g_tls_ctx w tid")
    case None
    then show thesis using slow [OF g] g by (simp add: mtt_thread_get_cached_def)
  next
    case (Some c)
    then have c: "c < MTT_MAX_THREADS" "g_tls_cached_tid w tid = tid"
      using assms by (auto simp: tls_inv_def)
    show thesis
    proof (cases "t_tid (g_threads w c) = tid")
      case True
      then show thesis using hit c Some by (simp add: mtt_thread_get_cached_def)
    next
      case False
      then show thesis using slow [OF g] g c Some by (simp add: mtt_thread_get_cached_def)
    qed
  qed
qed

lemma tls_inv_slow:
  assumes "tls_inv w" "slots_inv w" "mtt_thread_get X tid w = (r, w1)"
  shows "tls_inv (w1\<lparr>g_tls_ctx := (g_tls_ctx w1)(tid := r),
       g_tls_cached_tid := (g_tls_cached_tid w1)(tid :=
         (case r of Some i \<Rightarrow> t_tid (g_threads w1 i) | None \<Rightarrow> 0))\<rparr>)"
  using assms plain_slots.get_owner [of w X tid _ w1]
  by (auto simp: tls_inv_def thread_get_other_globals [OF assms(3)])

lemma slots_inv_tls [simp]:
  "slots_inv (w\<lparr>g_tls_ctx := a, g_tls_cached_tid := b\<rparr>) = slots_inv w"
  by (simp add: slots_inv_def)

lemma cached_same:
  assumes "slots_inv w" "tid \<noteq> 0" "g_tls_ctx w tid = Some i" "g_tls_cached_tid w tid = tid"
    "t_tid (g_threads w i) = tid"
  shows "mtt_thread_get_cached X tid w = (Some i, w)"
  using assms by (simp add: mtt_thread_get_cached_def)

interpretation cached_slots: slot_table "mtt_thread_get_cached X" "\<lambda>w. slots_inv w \<and> tls_inv w"
    "\<lambda>w. x_no_such_thread X (g_ext w)" for X :: "'l ext"
proof unfold_locales
  fix w w' :: "'l world" and tid i r j
  assume inv: "slots_inv w \<and> tls_inv w"
  then have w: "slots_inv w" and tls: "tls_inv w" by auto
  show "i < MTT_MAX_THREADS \<and> t_tid (g_threads w' i) = tid"
    if "mtt_thread_get_cached X tid w = (Some i, w')"
    by (rule cached_cases [OF tls, of X tid])
      (use that plain_slots.get_owner [OF w] in fastforce)+
  show "t_tid (g_threads w i) = tid \<or> t_tid (g_threads w i) = 0 \<or>
      x_no_such_thread X (g_ext w) (t_tid (g_threads w i))"
    if "mtt_thread_get_cached X tid w = (Some i, w')"
    by (rule cached_cases [OF tls, of X tid])
      (use that plain_slots.get_takes [OF w] in fastforce)+
  show "g_threads w' j = g_threads w j"
    if "mtt_thread_get_cached X tid w = (r, w')" "r \<noteq> Some j"
    by (rule cached_cases [OF tls, of X tid])
      (use that plain_slots.get_frame [OF w] in fastforce)+
  show "slots_inv w' \<and> tls_inv w'" if "mtt_thread_get_cached X tid w = (r, w')"
    by (rule cached_cases [OF tls, of X tid])
      (use that inv plain_slots.get_inv [OF w] tls_inv_slow [OF tls w] in fastforce)+
  show "mtt_thread_get_cached X tid w' = (Some i, w')"
    if "tid \<noteq> 0" "mtt_thread_get_cached X tid w = (Some i, w')"
    by (rule cached_cases [OF tls, of X tid])
      (use that plain_slots.get_owner [OF w] plain_slots.get_inv [OF w]
        in \<open>auto intro!: cached_same\<close>)
next
  fix w w' :: "'l world" and tid r
  show "g_state w' = g_state w" if "mtt_thread_get_cached X tid w = (r, w')"
    using that
    by (auto simp: mtt_thread_get_cached_def thread_get_other_globals
        split: option.splits if_splits prod.splits)
qed

section \<open>The recursion depth\<close>

text \<open>Thread \<open>tid\<close> owns slot \<open>i\<close> and has it cached: the fast path of every hook.\<close>

definition slot_ready :: "int \<Rightarrow> nat \<Rightarrow> 'l world \<Rightarrow> bool" where
  "slot_ready tid i w \<longleftrightarrow>
     g_tls_ctx w tid = Some i \<and> g_tls_cached_tid w tid = tid \<and> t_tid (g_threads w i) = tid"

lemma ready_cached: "slot_ready tid i w \<Longrightarrow> mtt_thread_get_cached X tid w = (Some i, w)"
  by (simp add: slot_ready_def mtt_thread_get_cached_def)

lemma cached_ready:
  assumes "slots_inv w" "tls_inv w" "mtt_thread_get_cached X tid w = (Some i, w')"
  shows "slot_ready tid i w'"
  by (rule cached_cases [OF assms(2), of X tid])
    (use assms plain_slots.get_owner [OF assms(1), of X tid] in
      \<open>auto simp: slot_ready_def thread_get_other_globals\<close>)

lemma ready_upd_slot [simp]:
  "t_tid (f (g_threads w i)) = t_tid (g_threads w i) \<Longrightarrow>
     slot_ready tid i (upd_slot i f w) = slot_ready tid i w"
  by (simp add: slot_ready_def)

lemma hook_enter_ready:
  assumes "slot_ready tid i w"
  shows "mtt_hook_enter X tid w =
    (let t = g_threads w i in
     if t_depth_inited t \<noteq> 0x2A
     then (0, upd_slot i (\<lambda>t. t\<lparr>t_hook_depth := 0, t_depth_inited := 0x2A\<rparr>) w)
     else if t_hook_depth t > MTT_HOOK_DEPTH_MAX
     then (0, upd_slot i (\<lambda>t. t\<lparr>t_hook_depth := 0\<rparr>) w)
     else (t_hook_depth t, w))"
  using assms by (simp add: mtt_hook_enter_def ready_cached Let_def)

lemma hook_inc_ready:
  assumes "slot_ready tid i w" "t_depth_inited (g_threads w i) = 0x2A"
    "t_hook_depth (g_threads w i) < MTT_HOOK_DEPTH_MAX"
  shows "mtt_hook_inc_depth X tid w = upd_slot i (\<lambda>t. t\<lparr>t_hook_depth := t_hook_depth t + 1\<rparr>) w"
  using assms by (simp add: mtt_hook_inc_depth_def ready_cached)

lemma hook_dec_ready:
  assumes "slot_ready tid i w" "t_hook_depth (g_threads w i) > 0"
  shows "mtt_hook_dec_depth X tid w = upd_slot i (\<lambda>t. t\<lparr>t_hook_depth := t_hook_depth t - 1\<rparr>) w"
  using assms by (simp add: mtt_hook_dec_depth_def ready_cached)

lemma upd_slot_upd_slot [simp]: "upd_slot i f (upd_slot i g w) = upd_slot i (\<lambda>t. f (g t)) w"
  by (simp add: upd_slot_def)

lemma upd_slot_id: "f (g_threads w i) = g_threads w i \<Longrightarrow> upd_slot i f w = w"
  by (simp add: upd_slot_def)

text \<open>Every operation on the depth keeps it inside its range in every slot.\<close>

lemma thread_get_depth_ok:
  assumes "\<forall>j. depth_ok (g_threads w j)" "mtt_thread_get X tid w = (r, w')"
  shows "\<forall>j. depth_ok (g_threads w' j)"
  by (rule thread_get_cases [of X tid w]) (use assms in \<open>auto simp: depth_ok_def\<close>)

lemma cached_depth_ok:
  assumes "\<forall>j. depth_ok (g_threads w j)" "mtt_thread_get_cached X tid w = (r, w')"
  shows "\<forall>j. depth_ok (g_threads w' j)"
proof (cases "mtt_thread_get_cached X tid w = (r, w)")
  case False
  obtain r1 w1 where g: "mtt_thread_get X tid w = (r1, w1)" by (cases "mtt_thread_get X tid w")
  with assms(2) False have "g_threads w' = g_threads w1"
    by (auto simp: mtt_thread_get_cached_def split: option.splits if_splits)
  with thread_get_depth_ok [OF assms(1) g] show ?thesis by simp
qed (use assms in auto)

lemma depth_ops_ok:
  assumes "\<forall>j. depth_ok (g_threads w j)"
  shows "\<forall>j. depth_ok (g_threads (snd (mtt_hook_enter X tid w)) j)"
    and "\<forall>j. depth_ok (g_threads (mtt_hook_inc_depth X tid w) j)"
    and "\<forall>j. depth_ok (g_threads (mtt_hook_dec_depth X tid w) j)"
proof -
  obtain r w1 where g: "mtt_thread_get_cached X tid w = (r, w1)"
    by (cases "mtt_thread_get_cached X tid w")
  have ok: "\<forall>j. depth_ok (g_threads w1 j)" by (rule cached_depth_ok [OF assms g])
  show "\<forall>j. depth_ok (g_threads (snd (mtt_hook_enter X tid w)) j)"
    using ok by (cases r) (auto simp: mtt_hook_enter_def g Let_def depth_ok_def MTT_HOOK_DEPTH_MAX_def)
  show "\<forall>j. depth_ok (g_threads (mtt_hook_inc_depth X tid w) j)"
    using ok
    by (cases r) (auto simp: mtt_hook_inc_depth_def g Let_def depth_ok_def MTT_HOOK_DEPTH_MAX_def)
  show "\<forall>j. depth_ok (g_threads (mtt_hook_dec_depth X tid w) j)"
    using ok
    by (cases r) (auto simp: mtt_hook_dec_depth_def g Let_def depth_ok_def MTT_HOOK_DEPTH_MAX_def)
qed

section \<open>Histories of hook calls\<close>

text \<open>
  The worlds that any interleaving of depth operations by any threads reaches
  from the zero-initialised statics, while threads start and exit (which only
  the external state shows).
\<close>

inductive depth_reach :: "'l ext \<Rightarrow> 'l world \<Rightarrow> bool" for X where
  start: "(\<forall>i. g_threads w i = zero_slot) \<Longrightarrow> (\<forall>t. g_tls_ctx w t = None) \<Longrightarrow> depth_reach X w"
| enter: "depth_reach X w \<Longrightarrow> tid \<noteq> 0 \<Longrightarrow> depth_reach X (snd (mtt_hook_enter X tid w))"
| inc: "depth_reach X w \<Longrightarrow> tid \<noteq> 0 \<Longrightarrow> depth_reach X (mtt_hook_inc_depth X tid w)"
| dec: "depth_reach X w \<Longrightarrow> tid \<noteq> 0 \<Longrightarrow> depth_reach X (mtt_hook_dec_depth X tid w)"
| env: "depth_reach X w \<Longrightarrow> depth_reach X (w\<lparr>g_ext := l\<rparr>)"

lemma slots_inv_upd [simp]:
  "(\<And>t. t_tid (f t) = t_tid t) \<Longrightarrow> slots_inv (upd_slot i f w) = slots_inv w"
proof -
  assume f: "\<And>t. t_tid (f t) = t_tid t"
  have "t_tid (g_threads (upd_slot i f w) k) = t_tid (g_threads w k)" for k by (simp add: f)
  then show ?thesis unfolding slots_inv_def by (simp only:)
qed

lemma tls_inv_upd [simp]: "tls_inv (upd_slot i f w) = tls_inv w"
  by (simp add: tls_inv_def)

lemma inv_ext [simp]:
  "slots_inv (w\<lparr>g_ext := l\<rparr>) = slots_inv w" "tls_inv (w\<lparr>g_ext := l\<rparr>) = tls_inv w"
  by (simp_all add: slots_inv_def tls_inv_def)

lemma depth_ops_slots:
  assumes "slots_inv w" "tls_inv w"
  shows "slots_inv (snd (mtt_hook_enter X tid w)) \<and> tls_inv (snd (mtt_hook_enter X tid w))"
    and "slots_inv (mtt_hook_inc_depth X tid w) \<and> tls_inv (mtt_hook_inc_depth X tid w)"
    and "slots_inv (mtt_hook_dec_depth X tid w) \<and> tls_inv (mtt_hook_dec_depth X tid w)"
proof -
  obtain r w1 where g: "mtt_thread_get_cached X tid w = (r, w1)"
    by (cases "mtt_thread_get_cached X tid w")
  have ok: "slots_inv w1 \<and> tls_inv w1" using cached_slots.get_inv assms g by blast
  show "slots_inv (snd (mtt_hook_enter X tid w)) \<and> tls_inv (snd (mtt_hook_enter X tid w))"
    using ok by (cases r) (simp_all add: mtt_hook_enter_def g Let_def)
  show "slots_inv (mtt_hook_inc_depth X tid w) \<and> tls_inv (mtt_hook_inc_depth X tid w)"
    using ok by (cases r) (simp_all add: mtt_hook_inc_depth_def g Let_def)
  show "slots_inv (mtt_hook_dec_depth X tid w) \<and> tls_inv (mtt_hook_dec_depth X tid w)"
    using ok by (cases r) (simp_all add: mtt_hook_dec_depth_def g Let_def)
qed

lemma depth_reach_inv:
  assumes "depth_reach X w"
  shows "slots_inv w \<and> tls_inv w \<and> (\<forall>j. depth_ok (g_threads w j))"
  using assms
proof induction
  case (start w)
  then show ?case by (simp add: slots_inv_def tls_inv_def depth_ok_def zero_slot_def)
next
  case (enter w tid)
  then show ?case using depth_ops_slots(1) depth_ops_ok(1) by blast
next
  case (inc w tid)
  then show ?case using depth_ops_slots(2) depth_ops_ok(2) by blast
next
  case (dec w tid)
  then show ?case using depth_ops_slots(3) depth_ops_ok(3) by blast
next
  case (env w l)
  then show ?case by simp
qed

text \<open>
  A cached lookup finds what the full scan finds. The C files each hold their
  own copy of the cache (it is a static of the header): by this equation it does
  not matter which copy a call uses, so the model keeps one per thread.
\<close>

lemma cached_eq_scan:
  assumes "slots_inv w" "tls_inv w" "tid \<noteq> 0"
  shows "fst (mtt_thread_get_cached X tid w) = fst (mtt_thread_get X tid w)
       \<and> g_threads (snd (mtt_thread_get_cached X tid w)) = g_threads (snd (mtt_thread_get X tid w))"
  by (rule cached_cases [OF assms(2), of X tid]) (use thread_get_same [OF assms(1,3)] in auto)

lemma hook_enter_slot:
  assumes "slots_inv w" "tls_inv w" "mtt_hook_enter X tid w = (d, w1)"
  shows "d = - 1 \<or> (\<exists>i. slot_ready tid i w1 \<and> t_depth_inited (g_threads w1 i) = 0x2A \<and>
           t_hook_depth (g_threads w1 i) = d)"
proof -
  obtain r w0 where g: "mtt_thread_get_cached X tid w = (r, w0)"
    by (cases "mtt_thread_get_cached X tid w")
  show ?thesis
  proof (cases r)
    case None
    then show ?thesis using assms(3) g by (simp add: mtt_hook_enter_def)
  next
    case (Some i)
    have "slot_ready tid i w0" using cached_ready assms(1,2) g Some by blast
    then have "slot_ready tid i w1 \<and> t_depth_inited (g_threads w1 i) = 0x2A \<and>
           t_hook_depth (g_threads w1 i) = d"
      using assms(3) g Some by (auto simp: mtt_hook_enter_def Let_def split: if_splits)
    then show ?thesis by blast
  qed
qed

section \<open>Properties\<close>

text \<open>The fresh process of \<open>demo_world\<close> starts a history.\<close>

lemma demo_threads [simp]:
  "g_threads demo_world i = zero_slot" "g_tls_ctx demo_world t = None"
  "x_no_such_thread demo_ext l t = False"
  by (simp_all add: demo_world_def demo_ext_def)

lemma demo_world_reach: "depth_reach X demo_world"
  by (rule depth_reach.start) simp_all

text \<open>Looking up a free slot in the blank table yields slot 0.\<close>

lemma find_slot_first: "P (g_threads w 0) \<Longrightarrow> find_slot P w = Some 0"
  by (simp add: find_slot_def MTT_MAX_THREADS_def upt_conv_Cons)

lemma find_slot_second:
  "\<not> P (g_threads w 0) \<Longrightarrow> P (g_threads w 1) \<Longrightarrow> find_slot P w = Some 1"
proof -
  assume p: "\<not> P (g_threads w 0)" "P (g_threads w 1)"
  have "2 \<le> MTT_MAX_THREADS" by (simp add: MTT_MAX_THREADS_def)
  then have "[0..<MTT_MAX_THREADS] = 0 # 1 # [2..<MTT_MAX_THREADS]"
    using upt_conv_Cons [of 0 MTT_MAX_THREADS] upt_conv_Cons [of 1 MTT_MAX_THREADS]
    by (simp add: numeral_2_eq_2)
  then show ?thesis using p by (simp add: find_slot_def)
qed

lemma demo_get:
  assumes "tid \<noteq> 0"
  shows "mtt_thread_get_cached X tid demo_world = (Some 0,
     (upd_slot 0 (\<lambda>_. slot_claimed tid) demo_world)
       \<lparr>g_tls_ctx := (g_tls_ctx demo_world)(tid := Some 0),
        g_tls_cached_tid := (g_tls_cached_tid demo_world)(tid := tid)\<rparr>)"
proof -
  have "find_slot (\<lambda>t. t_tid t = tid) demo_world = None"
    using assms by (simp add: find_slot_None zero_slot_def)
  moreover have "find_slot (\<lambda>t. t_tid t = 0) demo_world = Some 0"
    by (rule find_slot_first) (simp add: zero_slot_def)
  ultimately show ?thesis by (simp add: mtt_thread_get_cached_def mtt_thread_get_def)
qed

text \<open>C15. Thread slots are exclusive: whatever the hooks did before, the slot one live
  thread obtains is never handed to another thread, and the other thread's lookup
  leaves its contents alone.\<close>

theorem slots_exclusive:
  assumes "depth_reach X w" "tid \<noteq> 0" "tid \<noteq> tid'"
    and "mtt_thread_get_cached X tid w = (Some i, w1)"
    and "mtt_thread_get_cached X tid' w1 = (Some j, w2)"
    and "\<not> x_no_such_thread X (g_ext w1) tid"
  shows "i \<noteq> j \<and> g_threads w2 i = g_threads w1 i"
  using cached_slots.get_disjoint [of w tid tid' X i w1 j w2] depth_reach_inv [OF assms(1)] assms
  by blast

theorem slots_exclusive_witness:
  "let (r1, w1) = mtt_thread_get_cached demo_ext 7 demo_world;
       (r2, w2) = mtt_thread_get_cached demo_ext 8 w1
   in r1 = Some 0 \<and> r2 \<noteq> Some 0 \<and> (r2 \<noteq> None \<longrightarrow> g_threads w2 0 = slot_claimed 7)"
proof -
  obtain w1 where g1: "mtt_thread_get_cached demo_ext 7 demo_world = (Some 0, w1)"
    and s1: "g_threads w1 0 = slot_claimed 7"
    by (simp add: demo_get)
  obtain r2 w2 where g2: "mtt_thread_get_cached demo_ext 8 w1 = (r2, w2)"
    by (cases "mtt_thread_get_cached demo_ext 8 w1")
  show ?thesis
    using slots_exclusive [OF demo_world_reach, of 7 8 demo_ext 0 w1 _ w2] g1 g2 s1
    by (cases r2) auto
qed

text \<open>C16. The thread-local cache is transparent: after any history the cached lookup
  returns the slot that the scan of all slots returns, and both leave the same slot table.\<close>

theorem cached_lookup_equiv:
  assumes "depth_reach X w" "tid \<noteq> 0"
  shows "fst (mtt_thread_get_cached X tid w) = fst (mtt_thread_get X tid w)
       \<and> g_threads (snd (mtt_thread_get_cached X tid w)) = g_threads (snd (mtt_thread_get X tid w))"
  using cached_eq_scan depth_reach_inv [OF assms(1)] assms(2) by blast

theorem cached_lookup_equiv_witness:
  "fst (mtt_thread_get_cached demo_ext 7 (snd (mtt_hook_enter demo_ext 7 demo_world))) =
   fst (mtt_thread_get demo_ext 7 (snd (mtt_hook_enter demo_ext 7 demo_world)))"
  using cached_lookup_equiv [OF depth_reach.enter [OF demo_world_reach], of 7 7 demo_ext] by simp

text \<open>C17. The recursion depth is balanced: for a hook that is not nested too deeply, the
  decrement after an increment restores the thread's slot, so the depth a hook sees at
  entry is the depth it leaves behind.\<close>

theorem hook_depth_balanced:
  assumes "depth_reach X w" "tid \<noteq> 0" "mtt_hook_enter X tid w = (d, w1)"
    and "0 \<le> d" "d < MTT_HOOK_DEPTH_MAX"
  shows "mtt_hook_dec_depth X tid (mtt_hook_inc_depth X tid w1) = w1
       \<and> fst (mtt_hook_enter X tid (mtt_hook_inc_depth X tid w1)) = d + 1"
proof -
  have inv: "slots_inv w" "tls_inv w" using depth_reach_inv assms(1) by auto
  obtain i where i: "slot_ready tid i w1" and d: "t_depth_inited (g_threads w1 i) = 0x2A"
    "t_hook_depth (g_threads w1 i) = d"
    using hook_enter_slot [OF inv assms(3)] assms(4) by auto
  have inc: "mtt_hook_inc_depth X tid w1 = upd_slot i (\<lambda>t. t\<lparr>t_hook_depth := t_hook_depth t + 1\<rparr>) w1"
    using hook_inc_ready i d assms(5) by blast
  have "mtt_hook_dec_depth X tid (mtt_hook_inc_depth X tid w1) = w1"
    using i d assms(4) by (simp add: inc hook_dec_ready [where i = i] upd_slot_id)
  moreover have "fst (mtt_hook_enter X tid (mtt_hook_inc_depth X tid w1)) = d + 1"
    using i d assms(5) by (simp add: inc hook_enter_ready [where i = i])
  ultimately show ?thesis by blast
qed

theorem hook_depth_balanced_witness:
  "let (d, w1) = mtt_hook_enter demo_ext 7 demo_world
   in d = 0 \<and> mtt_hook_dec_depth demo_ext 7 (mtt_hook_inc_depth demo_ext 7 w1) = w1"
proof -
  obtain w1 where g: "mtt_hook_enter demo_ext 7 demo_world = (0, w1)"
    by (simp add: mtt_hook_enter_def demo_get)
  show ?thesis
    using hook_depth_balanced [OF demo_world_reach _ g]
    by (simp add: g MTT_HOOK_DEPTH_MAX_def)
qed

text \<open>A residual depth is never reset: in every reachable world a slot that was set up
  holds a depth of at most 8, so the branch of the hook entry that clears a depth above 8
  is never taken, and a thread that inherits a slot with a non-zero depth sees that depth.\<close>

theorem residual_depth_kept:
  assumes "depth_reach X w" "tid \<noteq> 0" "mtt_thread_get_cached X tid w = (Some i, w1)"
    and "t_depth_inited (g_threads w1 i) = 0x2A"
  shows "mtt_hook_enter X tid w = (t_hook_depth (g_threads w1 i), w1)
       \<and> 0 \<le> t_hook_depth (g_threads w1 i) \<and> t_hook_depth (g_threads w1 i) \<le> MTT_HOOK_DEPTH_MAX"
proof -
  have "depth_ok (g_threads w1 i)"
    using cached_depth_ok depth_reach_inv [OF assms(1)] assms(3) by blast
  then show ?thesis using assms by (simp add: mtt_hook_enter_def depth_ok_def)
qed

theorem residual_depth_kept_witness:
  "\<exists>w1. mtt_thread_get_cached demo_ext 7 (mtt_hook_inc_depth demo_ext 7 demo_world) = (Some 0, w1) \<and>
     mtt_hook_enter demo_ext 7 (mtt_hook_inc_depth demo_ext 7 demo_world) = (1, w1)"
proof -
  define w where "w = mtt_hook_inc_depth demo_ext 7 demo_world"
  have r: "depth_reach demo_ext w" unfolding w_def by (rule depth_reach.inc [OF demo_world_reach]) simp
  have s: "slot_ready 7 0 w" "t_depth_inited (g_threads w 0) = 0x2A" "t_hook_depth (g_threads w 0) = 1"
    by (simp_all add: w_def mtt_hook_inc_depth_def demo_get slot_ready_def slot_claimed_def
        MTT_HOOK_DEPTH_MAX_def)
  have g: "mtt_thread_get_cached demo_ext 7 w = (Some 0, w)" by (rule ready_cached [OF s(1)])
  show ?thesis using residual_depth_kept [OF r _ g] s g unfolding w_def by simp
qed

end
