(* ===== verification/Raw_Alloc.thy ===== *)
theory Raw_Alloc
  imports Per_Thread
begin

text \<open>
  The raw allocators of \<^verbatim>\<open>tracker.c\<close>: the bootstrap allocator that serves requests
  before the dynamic linker is asked for the real functions, the calls through the
  \<open>raw_*\<close> pointers, and \<open>mtt_resolve_raw_allocators\<close>, whole and cut into the steps
  that other threads can interleave with.
\<close>

section \<open>The bootstrap allocator\<close>

definition bootstrap_align :: "size_t \<Rightarrow> size_t" where
  "bootstrap_align sz = (sz + 7) AND NOT 7"

definition bootstrap_malloc :: "'l ext \<Rightarrow> size_t \<Rightarrow> 'l world \<Rightarrow> ptr \<times> 'l world" where
  "bootstrap_malloc X sz w =
     (let aligned = bootstrap_align sz;
          old = g_bootstrap_offset w;
          w = w\<lparr>g_bootstrap_offset := old + aligned\<rparr>
      in if old + aligned > MTT_BOOTSTRAP_BUF_SIZE then (NULL, w)
         else (x_bootstrap_buf X + old, w))"

definition bootstrap_free :: "ptr \<Rightarrow> 'l world \<Rightarrow> 'l world" where
  "bootstrap_free p w = w"

definition bootstrap_calloc :: "'l ext \<Rightarrow> size_t \<Rightarrow> size_t \<Rightarrow> 'l world \<Rightarrow> ptr \<times> 'l world" where
  "bootstrap_calloc X count sz w =
     (if count > 0 \<and> sz > 0 \<and> count > SIZE_MAX div sz then (NULL, w)
      else
        let total = count * sz;
            (p, w) = bootstrap_malloc X total w
        in if p \<noteq> NULL
           then let actual = bootstrap_align total
                in (p, if actual > 0 then w\<lparr>g_mem := memset p 0 actual (g_mem w)\<rparr> else w)
           else (p, w))"

definition bootstrap_realloc :: "'l ext \<Rightarrow> ptr \<Rightarrow> size_t \<Rightarrow> 'l world \<Rightarrow> ptr \<times> 'l world" where
  "bootstrap_realloc X p sz w =
     (if p = NULL then bootstrap_malloc X sz w
      else if sz = 0 then (NULL, bootstrap_free p w)
      else
        let (new_ptr, w) = bootstrap_malloc X sz w
        in if new_ptr = NULL then (NULL, w)
           else
             let copy_n = (if sz < MTT_BOOTSTRAP_BUF_SIZE then sz else MTT_BOOTSTRAP_BUF_SIZE);
                 w = w\<lparr>g_mem := memcpy new_ptr p copy_n (g_mem w)\<rparr>
             in (new_ptr, bootstrap_free p w))"

section \<open>Calls through the raw pointers\<close>

text \<open>
  A call through a NULL pointer does not return. \<open>calloc\<close> of the C library
  clears the block it returns.
\<close>

definition call_malloc :: "'l ext \<Rightarrow> size_t \<Rightarrow> 'l world \<Rightarrow> ptr \<times> 'l world" where
  "call_malloc X n w =
     (case raw_malloc w of
        F_LIBC \<Rightarrow> let (p, l) = x_malloc X (g_ext w) n in (p, w\<lparr>g_ext := l\<rparr>)
      | F_BOOTSTRAP \<Rightarrow> bootstrap_malloc X n w
      | F_NULL \<Rightarrow> (NULL, w\<lparr>g_hung := True\<rparr>))"

definition call_free :: "'l ext \<Rightarrow> ptr \<Rightarrow> 'l world \<Rightarrow> 'l world" where
  "call_free X p w =
     (case raw_free w of
        F_LIBC \<Rightarrow> w\<lparr>g_ext := x_free X (g_ext w) p\<rparr>
      | F_BOOTSTRAP \<Rightarrow> bootstrap_free p w
      | F_NULL \<Rightarrow> w\<lparr>g_hung := True\<rparr>)"

definition call_calloc :: "'l ext \<Rightarrow> size_t \<Rightarrow> size_t \<Rightarrow> 'l world \<Rightarrow> ptr \<times> 'l world" where
  "call_calloc X n s w =
     (case raw_calloc w of
        F_LIBC \<Rightarrow>
          let (p, l) = x_calloc X (g_ext w) n s
          in (p, w\<lparr>g_ext := l, g_mem := (if p = NULL then g_mem w else memset p 0 (n * s) (g_mem w))\<rparr>)
      | F_BOOTSTRAP \<Rightarrow> bootstrap_calloc X n s w
      | F_NULL \<Rightarrow> (NULL, w\<lparr>g_hung := True\<rparr>))"

definition call_realloc :: "'l ext \<Rightarrow> ptr \<Rightarrow> size_t \<Rightarrow> 'l world \<Rightarrow> ptr \<times> 'l world" where
  "call_realloc X p n w =
     (case raw_realloc w of
        F_LIBC \<Rightarrow> let (q, m, l) = x_realloc X (g_ext w) (g_mem w) p n in (q, w\<lparr>g_ext := l, g_mem := m\<rparr>)
      | F_BOOTSTRAP \<Rightarrow> bootstrap_realloc X p n w
      | F_NULL \<Rightarrow> (NULL, w\<lparr>g_hung := True\<rparr>))"

definition call_posix_memalign ::
  "'l ext \<Rightarrow> size_t \<Rightarrow> size_t \<Rightarrow> 'l world \<Rightarrow> int \<times> ptr \<times> 'l world" where
  "call_posix_memalign X alignment sz w =
     (case raw_posix_memalign w of
        F_LIBC \<Rightarrow>
          let (r, p, l) = x_posix_memalign X (g_ext w) alignment sz in (r, p, w\<lparr>g_ext := l\<rparr>)
      | _ \<Rightarrow> (0, NULL, w\<lparr>g_hung := True\<rparr>))"

section \<open>Resolving the real allocators\<close>

definition libc_candidates :: "string list" where
  "libc_candidates = [''libc.so.6'', ''libc.so'', ''libc.musl-aarch64.so.1'']"

text \<open>\<open>RAW_SAFE_SET\<close>: a symbol is taken when \<open>dladdr\<close> knows it and it is not in the tracer.\<close>

definition raw_safe :: "dlsym_result \<Rightarrow> bool" where
  "raw_safe r =
     (case r of
        DL_NULL \<Rightarrow> False
      | DL_UNKNOWN \<Rightarrow> False
      | DL_IN fname \<Rightarrow>
          (case fname of None \<Rightarrow> True | Some f \<Rightarrow> strstr f ''libmemorytracetool'' = None))"

definition resolve_next :: "'l ext \<Rightarrow> 'l world \<Rightarrow> 'l world" where
  "resolve_next X w =
     (let w = (if raw_safe (x_dlsym_next X RF_malloc) then w\<lparr>raw_malloc := F_LIBC\<rparr> else w);
          w = (if raw_safe (x_dlsym_next X RF_free) then w\<lparr>raw_free := F_LIBC\<rparr> else w);
          w = (if raw_safe (x_dlsym_next X RF_calloc) then w\<lparr>raw_calloc := F_LIBC\<rparr> else w);
          w = (if raw_safe (x_dlsym_next X RF_realloc) then w\<lparr>raw_realloc := F_LIBC\<rparr> else w)
      in if raw_safe (x_dlsym_next X RF_posix_memalign) then w\<lparr>raw_posix_memalign := F_LIBC\<rparr> else w)"

definition any_bootstrap :: "'l world \<Rightarrow> bool" where
  "any_bootstrap w \<longleftrightarrow>
     raw_malloc w = F_BOOTSTRAP \<or> raw_free w = F_BOOTSTRAP \<or>
     raw_calloc w = F_BOOTSTRAP \<or> raw_realloc w = F_BOOTSTRAP"

definition resolve_from :: "(rawfn \<Rightarrow> bool) \<Rightarrow> 'l world \<Rightarrow> 'l world" where
  "resolve_from has w =
     (let w = (if raw_malloc w = F_BOOTSTRAP \<and> has RF_malloc then w\<lparr>raw_malloc := F_LIBC\<rparr> else w);
          w = (if raw_free w = F_BOOTSTRAP \<and> has RF_free then w\<lparr>raw_free := F_LIBC\<rparr> else w);
          w = (if raw_calloc w = F_BOOTSTRAP \<and> has RF_calloc then w\<lparr>raw_calloc := F_LIBC\<rparr> else w);
          w = (if raw_realloc w = F_BOOTSTRAP \<and> has RF_realloc then w\<lparr>raw_realloc := F_LIBC\<rparr> else w)
      in if raw_posix_memalign w = F_NULL \<and> has RF_posix_memalign
         then w\<lparr>raw_posix_memalign := F_LIBC\<rparr> else w)"

fun resolve_candidates :: "'l ext \<Rightarrow> string list \<Rightarrow> 'l world \<Rightarrow> 'l world" where
  "resolve_candidates X [] w = w"
| "resolve_candidates X (c # cs) w =
     (case x_dlopen X c of
        None \<Rightarrow> resolve_candidates X cs w
      | Some has \<Rightarrow>
          let w = resolve_from has w
          in if \<not> any_bootstrap w then w else resolve_candidates X cs w)"

definition preset_bootstrap :: "'l world \<Rightarrow> 'l world" where
  "preset_bootstrap w =
     w\<lparr>raw_malloc := F_BOOTSTRAP, raw_free := F_BOOTSTRAP,
       raw_calloc := F_BOOTSTRAP, raw_realloc := F_BOOTSTRAP\<rparr>"

text \<open>The part after the compare-and-swap was won, for the thread that owns slot \<open>i\<close>.\<close>

definition resolve_winner :: "'l ext \<Rightarrow> nat \<Rightarrow> 'l world \<Rightarrow> 'l world" where
  "resolve_winner X i w =
     (let w = upd_slot i (\<lambda>t. t\<lparr>t_raw_resolving := 1\<rparr>) w;
          saved_hook = t_in_hook (g_threads w i);
          w = upd_slot i (\<lambda>t. t\<lparr>t_in_hook := 1\<rparr>) w;
          w = resolve_next X w;
          w = (if any_bootstrap w then resolve_candidates X libc_candidates w else w);
          w = upd_slot i (\<lambda>t. t\<lparr>t_in_hook := saved_hook\<rparr>) w;
          w = upd_slot i (\<lambda>t. t\<lparr>t_raw_resolving := 0\<rparr>) w
      in w\<lparr>g_raw_ready := True\<rparr>)"

definition mtt_resolve_raw_allocators :: "'l ext \<Rightarrow> int \<Rightarrow> 'l world \<Rightarrow> 'l world" where
  "mtt_resolve_raw_allocators X tid w =
     (if g_raw_ready w then w
      else if raw_malloc w \<noteq> F_NULL then w
      else
        let (ctx, w) = mtt_thread_get X tid w in
        case ctx of
          None \<Rightarrow> w
        | Some i \<Rightarrow>
            if t_raw_resolving (g_threads w i) \<noteq> 0 then w
            else
              let w = preset_bootstrap w
              in if g_raw_resolved w then w
                 else resolve_winner X i (w\<lparr>g_raw_resolved := True\<rparr>))"

section \<open>Lemmas on the bootstrap allocator\<close>

lemma bootstrap_align_unat:
  assumes "unat n + 7 < 2 ^ 64"
  shows "unat (bootstrap_align n) = 8 * ((unat n + 7) div 8)"
proof -
  have "unat (n + 7) = unat n + 7" using assms by (simp add: unat_word_ariths)
  then have "unat (bootstrap_align n) = unat n + 7 - (unat n + 7) mod 8"
    using unat_and_not_mask [of "n + 7" 3] by (simp add: bootstrap_align_def mask_eq_exp_minus_1)
  then show ?thesis by (metis minus_mod_eq_mult_div)
qed

lemma bootstrap_align_bounds:
  assumes "unat n + 7 < 2 ^ 64"
  shows "unat n \<le> unat (bootstrap_align n)" "unat (bootstrap_align n) \<le> unat n + 7"
  using bootstrap_align_unat [OF assms] by linarith+

text \<open>A successful request takes the next bytes of the buffer, a failed one only moves the offset.\<close>

lemma bootstrap_malloc_step:
  assumes "unat (g_bootstrap_offset w) + unat n + 7 < 2 ^ 64" "bootstrap_malloc X n w = (p, w')"
  shows "unat (g_bootstrap_offset w') = unat (g_bootstrap_offset w) + unat (bootstrap_align n)"
    and "p = NULL \<or> p = x_bootstrap_buf X + g_bootstrap_offset w \<and>
           unat (g_bootstrap_offset w') \<le> 65536"
proof -
  have "unat (bootstrap_align n) \<le> unat n + 7" by (rule bootstrap_align_bounds) (use assms in simp)
  then have "unat (g_bootstrap_offset w) + unat (bootstrap_align n) < 2 ^ 64"
    using assms(1) by linarith
  then have u: "unat (g_bootstrap_offset w + bootstrap_align n) =
      unat (g_bootstrap_offset w) + unat (bootstrap_align n)"
    by (simp add: unat_word_ariths)
  show "unat (g_bootstrap_offset w') = unat (g_bootstrap_offset w) + unat (bootstrap_align n)"
    using assms(2) u by (auto simp: bootstrap_malloc_def Let_def split: if_splits)
  show "p = NULL \<or> p = x_bootstrap_buf X + g_bootstrap_offset w \<and>
           unat (g_bootstrap_offset w') \<le> 65536"
    using assms(2)
    by (auto simp: bootstrap_malloc_def Let_def MTT_BOOTSTRAP_BUF_SIZE_def word_le_nat_alt not_less
        split: if_splits)
qed

text \<open>A sequence of requests, each with the block it got.\<close>

fun bootstrap_run :: "'l ext \<Rightarrow> size_t list \<Rightarrow> 'l world \<Rightarrow> (ptr \<times> size_t) list \<times> 'l world" where
  "bootstrap_run X [] w = ([], w)"
| "bootstrap_run X (n # ns) w =
     (let (p, w) = bootstrap_malloc X n w; (ps, w) = bootstrap_run X ns w in ((p, n) # ps, w))"

definition block_offset :: "'l ext \<Rightarrow> ptr \<Rightarrow> nat" where
  "block_offset X p = unat (p - x_bootstrap_buf X)"

definition block_before :: "'l ext \<Rightarrow> ptr \<times> size_t \<Rightarrow> ptr \<times> size_t \<Rightarrow> bool" where
  "block_before X b c \<longleftrightarrow>
     fst b = NULL \<or> fst c = NULL \<or> block_offset X (fst b) + unat (snd b) \<le> block_offset X (fst c)"

lemma bootstrap_run_bounds:
  assumes "unat (g_bootstrap_offset w) + (\<Sum>n\<leftarrow>ns. unat n + 7) < 2 ^ 64"
    and "b \<in> set (fst (bootstrap_run X ns w))" "fst b \<noteq> NULL"
  shows "unat (g_bootstrap_offset w) \<le> block_offset X (fst b)
       \<and> block_offset X (fst b) + unat (snd b) \<le> 65536"
  using assms
proof (induction ns arbitrary: w)
  case (Cons n ns)
  obtain p w1 where m: "bootstrap_malloc X n w = (p, w1)" by (cases "bootstrap_malloc X n w")
  have small: "unat (g_bootstrap_offset w) + unat n + 7 < 2 ^ 64" using Cons.prems(1) by simp
  note st = bootstrap_malloc_step [OF small m]
  have a: "unat n \<le> unat (bootstrap_align n)" "unat (bootstrap_align n) \<le> unat n + 7"
    by (rule bootstrap_align_bounds; use small in simp)+
  have "b = (p, n) \<or> b \<in> set (fst (bootstrap_run X ns w1))"
    using Cons.prems(2) by (auto simp: m split: prod.splits)
  then show ?case
  proof
    assume "b = (p, n)"
    then show ?thesis using st a Cons.prems(3) by (auto simp: block_offset_def)
  next
    assume "b \<in> set (fst (bootstrap_run X ns w1))"
    moreover have "unat (g_bootstrap_offset w1) + (\<Sum>n\<leftarrow>ns. unat n + 7) < 2 ^ 64"
      using Cons.prems(1) st(1) a by simp
    ultimately show ?thesis using Cons.IH [of w1] Cons.prems(3) st(1) by simp
  qed
qed simp

lemma bootstrap_run_disjoint:
  assumes "unat (g_bootstrap_offset w) + (\<Sum>n\<leftarrow>ns. unat n + 7) < 2 ^ 64"
  shows "sorted_wrt (block_before X) (fst (bootstrap_run X ns w))"
  using assms
proof (induction ns arbitrary: w)
  case (Cons n ns)
  obtain p w1 where m: "bootstrap_malloc X n w = (p, w1)" by (cases "bootstrap_malloc X n w")
  have small: "unat (g_bootstrap_offset w) + unat n + 7 < 2 ^ 64" using Cons.prems by simp
  note st = bootstrap_malloc_step [OF small m]
  have a: "unat n \<le> unat (bootstrap_align n)" "unat (bootstrap_align n) \<le> unat n + 7"
    by (rule bootstrap_align_bounds; use small in simp)+
  have rest: "unat (g_bootstrap_offset w1) + (\<Sum>n\<leftarrow>ns. unat n + 7) < 2 ^ 64"
    using Cons.prems st(1) a by simp
  have "block_before X (p, n) c" if "c \<in> set (fst (bootstrap_run X ns w1))" for c
    using bootstrap_run_bounds [OF rest that] st a
    by (cases "fst c = NULL") (auto simp: block_before_def block_offset_def)
  then show ?case using Cons.IH [OF rest] by (simp add: m case_prod_beta)
qed simp

section \<open>Lemmas on the resolution\<close>

definition all_libc :: "'l world \<Rightarrow> bool" where
  "all_libc w \<longleftrightarrow>
     raw_malloc w = F_LIBC \<and> raw_free w = F_LIBC \<and> raw_calloc w = F_LIBC \<and> raw_realloc w = F_LIBC"

text \<open>No raw pointer is NULL: the state of every thread that got past the guard.\<close>

definition raw_set :: "'l world \<Rightarrow> bool" where
  "raw_set w \<longleftrightarrow>
     raw_malloc w \<noteq> F_NULL \<and> raw_free w \<noteq> F_NULL \<and> raw_calloc w \<noteq> F_NULL \<and> raw_realloc w \<noteq> F_NULL"

text \<open>The function is found next in the search order, or in a candidate that can be opened.\<close>

definition can_resolve :: "'l ext \<Rightarrow> rawfn \<Rightarrow> bool" where
  "can_resolve X f \<longleftrightarrow>
     raw_safe (x_dlsym_next X f) \<or>
     (\<exists>c \<in> set libc_candidates. \<exists>has. x_dlopen X c = Some has \<and> has f)"

text \<open>The raw pointer of each of the four functions.\<close>

fun raw_of :: "rawfn \<Rightarrow> 'l world \<Rightarrow> fnptr" where
  "raw_of RF_malloc w = raw_malloc w"
| "raw_of RF_free w = raw_free w"
| "raw_of RF_calloc w = raw_calloc w"
| "raw_of RF_realloc w = raw_realloc w"
| "raw_of RF_posix_memalign w = raw_posix_memalign w"

lemma any_bootstrap_iff:
  "any_bootstrap w \<longleftrightarrow> (\<exists>f. f \<noteq> RF_posix_memalign \<and> raw_of f w = F_BOOTSTRAP)"
proof
  assume "any_bootstrap w"
  then consider "raw_of RF_malloc w = F_BOOTSTRAP" | "raw_of RF_free w = F_BOOTSTRAP"
    | "raw_of RF_calloc w = F_BOOTSTRAP" | "raw_of RF_realloc w = F_BOOTSTRAP"
    by (auto simp: any_bootstrap_def)
  then show "\<exists>f. f \<noteq> RF_posix_memalign \<and> raw_of f w = F_BOOTSTRAP" by cases blast+
next
  assume "\<exists>f. f \<noteq> RF_posix_memalign \<and> raw_of f w = F_BOOTSTRAP"
  then obtain f where "f \<noteq> RF_posix_memalign" "raw_of f w = F_BOOTSTRAP" by blast
  then show "any_bootstrap w" by (cases f) (simp_all add: any_bootstrap_def)
qed

lemma all_libc_iff: "all_libc w \<longleftrightarrow> (\<forall>f. f \<noteq> RF_posix_memalign \<longrightarrow> raw_of f w = F_LIBC)"
proof
  assume "all_libc w"
  then show "\<forall>f. f \<noteq> RF_posix_memalign \<longrightarrow> raw_of f w = F_LIBC"
    by (metis all_libc_def raw_of.simps(1-4) rawfn.exhaust)
next
  assume a: "\<forall>f. f \<noteq> RF_posix_memalign \<longrightarrow> raw_of f w = F_LIBC"
  show "all_libc w"
    using a [rule_format, of RF_malloc] a [rule_format, of RF_free] a [rule_format, of RF_calloc]
      a [rule_format, of RF_realloc]
    by (simp add: all_libc_def)
qed

lemma resolve_next_raw:
  "f \<noteq> RF_posix_memalign \<Longrightarrow>
     raw_of f (resolve_next X w) = (if raw_safe (x_dlsym_next X f) then F_LIBC else raw_of f w)"
  by (cases f) (simp_all add: resolve_next_def Let_def)

lemma resolve_from_raw:
  "f \<noteq> RF_posix_memalign \<Longrightarrow>
     raw_of f (resolve_from has w) =
       (if raw_of f w = F_BOOTSTRAP \<and> has f then F_LIBC else raw_of f w)"
  by (cases f) (simp_all add: resolve_from_def Let_def)

lemma resolve_candidates_keep:
  assumes "f \<noteq> RF_posix_memalign" "raw_of f w = F_LIBC"
  shows "raw_of f (resolve_candidates X cs w) = F_LIBC"
  using assms(2)
proof (induction cs arbitrary: w)
  case (Cons c cs)
  then show ?case using assms(1)
    by (cases "x_dlopen X c") (simp_all add: resolve_from_raw Let_def)
qed simp

lemma resolve_candidates_set:
  assumes "f \<noteq> RF_posix_memalign" "raw_of f w \<noteq> F_NULL"
  shows "raw_of f (resolve_candidates X cs w) \<noteq> F_NULL"
  using assms(2)
proof (induction cs arbitrary: w)
  case (Cons c cs)
  then show ?case using assms(1)
    by (cases "x_dlopen X c") (simp_all add: resolve_from_raw Let_def)
qed simp

lemma resolve_candidates_found:
  assumes "f \<noteq> RF_posix_memalign" "raw_of f w \<noteq> F_NULL"
    and "c \<in> set cs" "x_dlopen X c = Some has" "has f"
  shows "raw_of f (resolve_candidates X cs w) = F_LIBC"
  using assms(2,3)
proof (induction cs arbitrary: w)
  case (Cons d cs)
  show ?case
  proof (cases "x_dlopen X d")
    case None
    with Cons assms(4) show ?thesis by auto
  next
    case (Some h)
    define v where "v = resolve_from h w"
    have nn: "raw_of f v \<noteq> F_NULL"
      using Cons.prems(1) assms(1) by (simp add: v_def resolve_from_raw)
    have "raw_of f v = F_LIBC" if "d = c \<or> \<not> any_bootstrap v"
    proof (cases "d = c")
      case True
      then show ?thesis using Some assms(1,4,5) Cons.prems(1)
        by (cases "raw_of f w") (simp_all add: v_def resolve_from_raw)
    next
      case False
      with that have "raw_of f v \<noteq> F_BOOTSTRAP" using any_bootstrap_iff assms(1) by blast
      with nn show ?thesis by (cases "raw_of f v") simp_all
    qed
    then show ?thesis
      using Cons.IH [OF nn] Cons.prems(2) Some resolve_candidates_keep [OF assms(1), of v]
      by (auto simp: v_def [symmetric] Let_def)
  qed
qed simp

lemma raw_of_upd [simp]: "raw_of f (upd_slot i g w) = raw_of f w"
  by (cases f) (simp_all add: upd_slot_def)

lemma raw_of_ready [simp]: "raw_of f (w\<lparr>g_raw_ready := b\<rparr>) = raw_of f w"
  by (cases f) simp_all

lemma raw_of_resolved [simp]: "raw_of f (w\<lparr>g_raw_resolved := b\<rparr>) = raw_of f w"
  by (cases f) simp_all

lemma raw_of_preset [simp]:
  "f \<noteq> RF_posix_memalign \<Longrightarrow> raw_of f (preset_bootstrap w) = F_BOOTSTRAP"
  by (cases f) (simp_all add: preset_bootstrap_def)

lemma resolve_winner_raw:
  assumes "f \<noteq> RF_posix_memalign" "raw_of f w \<noteq> F_NULL"
  shows "raw_of f (resolve_winner X i w) \<noteq> F_NULL"
    and "can_resolve X f \<Longrightarrow> raw_of f (resolve_winner X i w) = F_LIBC"
proof -
  define v where "v = resolve_next X (upd_slot i (\<lambda>t. t\<lparr>t_in_hook := 1\<rparr>)
      (upd_slot i (\<lambda>t. t\<lparr>t_raw_resolving := 1\<rparr>) w))"
  define u where "u = (if any_bootstrap v then resolve_candidates X libc_candidates v else v)"
  have r: "raw_of f (resolve_winner X i w) = raw_of f u"
    by (simp add: resolve_winner_def Let_def u_def v_def)
  have v: "raw_of f v = (if raw_safe (x_dlsym_next X f) then F_LIBC else raw_of f w)"
    using assms(1) by (simp add: v_def resolve_next_raw)
  then have nn: "raw_of f v \<noteq> F_NULL" using assms(2) by simp
  then show "raw_of f (resolve_winner X i w) \<noteq> F_NULL"
    unfolding r u_def using resolve_candidates_set [OF assms(1) nn, of X libc_candidates] by simp
  show "raw_of f (resolve_winner X i w) = F_LIBC" if c: "can_resolve X f"
  proof (cases "any_bootstrap v")
    case True
    show ?thesis
    proof (cases "raw_safe (x_dlsym_next X f)")
      case True
      then show ?thesis using v resolve_candidates_keep [OF assms(1), of v] by (simp add: r u_def)
    next
      case False
      then obtain d has where "d \<in> set libc_candidates" "x_dlopen X d = Some has" "has f"
        using c by (auto simp: can_resolve_def)
      with True show ?thesis using resolve_candidates_found [OF assms(1) nn]
        by (simp add: r u_def)
    qed
  next
    case False
    then have "raw_of f v \<noteq> F_BOOTSTRAP" using any_bootstrap_iff assms(1) by blast
    with nn False show ?thesis by (cases "raw_of f v") (simp_all add: r u_def)
  qed
qed

lemma resolve_next_threads [simp]: "g_threads (resolve_next X w) = g_threads w"
  by (simp add: resolve_next_def Let_def)

lemma resolve_from_threads [simp]: "g_threads (resolve_from has w) = g_threads w"
  by (simp add: resolve_from_def Let_def)

lemma resolve_candidates_threads [simp]: "g_threads (resolve_candidates X cs w) = g_threads w"
  by (induction cs arbitrary: w) (simp_all add: Let_def split: option.split)

lemma resolve_winner_threads:
  "g_threads (resolve_winner X i w) = (g_threads w)(i := (g_threads w i)\<lparr>t_raw_resolving := 0\<rparr>)"
  by (simp add: resolve_winner_def Let_def)

lemma resolve_winner_ready [simp]: "g_raw_ready (resolve_winner X i w)"
  by (simp add: resolve_winner_def Let_def)

lemma preset_simps [simp]:
  "g_threads (preset_bootstrap w) = g_threads w" "g_raw_resolved (preset_bootstrap w) = g_raw_resolved w"
  "g_raw_ready (preset_bootstrap w) = g_raw_ready w" "raw_malloc (preset_bootstrap w) = F_BOOTSTRAP"
  by (simp_all add: preset_bootstrap_def)

lemma resolve_done [simp]: "g_raw_ready w \<Longrightarrow> mtt_resolve_raw_allocators X tid w = w"
  by (simp add: mtt_resolve_raw_allocators_def)

lemma raw_of_tls:
  assumes "mtt_thread_get X tid w = (r, w')"
  shows "raw_malloc w' = raw_malloc w" "g_raw_ready w' = g_raw_ready w"
    "g_raw_resolved w' = g_raw_resolved w"
  by (rule thread_get_cases [of X tid w]; use assms in \<open>auto simp: upd_slot_def\<close>)+

lemma resolve_first:
  assumes "\<not> g_raw_ready w" "raw_malloc w = F_NULL" "\<not> g_raw_resolved w"
    and "mtt_thread_get X tid w = (Some i, w1)" "t_raw_resolving (g_threads w1 i) = 0"
  shows "mtt_resolve_raw_allocators X tid w =
     resolve_winner X i ((preset_bootstrap w1)\<lparr>g_raw_resolved := True\<rparr>)"
  using assms raw_of_tls [OF assms(4)] by (simp add: mtt_resolve_raw_allocators_def)

section \<open>Interleaved resolution\<close>

text \<open>
  The same function cut at the points where another thread can run: the guards,
  the stores of the bootstrap pointers, the compare-and-swap, and the winner's
  part. \<open>resolve_sched\<close> runs a schedule, a list of the threads that move.
\<close>

datatype rpc = R_Start | R_Preset nat | R_Cas nat | R_Win nat | R_Done

fun resolve_pc :: "'l ext \<Rightarrow> int \<Rightarrow> rpc \<Rightarrow> 'l world \<Rightarrow> rpc \<times> 'l world" where
  "resolve_pc X tid R_Start w =
     (if g_raw_ready w \<or> raw_malloc w \<noteq> F_NULL then (R_Done, w)
      else
        let (ctx, w) = mtt_thread_get X tid w in
        case ctx of
          None \<Rightarrow> (R_Done, w)
        | Some i \<Rightarrow> (if t_raw_resolving (g_threads w i) \<noteq> 0 then R_Done else R_Preset i, w))"
| "resolve_pc X tid (R_Preset i) w = (R_Cas i, preset_bootstrap w)"
| "resolve_pc X tid (R_Cas i) w =
     (if g_raw_resolved w then (R_Done, w) else (R_Win i, w\<lparr>g_raw_resolved := True\<rparr>))"
| "resolve_pc X tid (R_Win i) w = (R_Done, resolve_winner X i w)"
| "resolve_pc X tid R_Done w = (R_Done, w)"

fun resolve_sched ::
  "'l ext \<Rightarrow> int list \<Rightarrow> (int \<Rightarrow> rpc) \<Rightarrow> 'l world \<Rightarrow> (int \<Rightarrow> rpc) \<times> 'l world" where
  "resolve_sched X [] pcs w = (pcs, w)"
| "resolve_sched X (t # ts) pcs w =
     (let (pc, w) = resolve_pc X t (pcs t) w in resolve_sched X ts (pcs(t := pc)) w)"

text \<open>A thread that runs alone executes the function.\<close>

lemma resolve_sched_alone:
  "snd (resolve_sched X [t, t, t, t] (\<lambda>_. R_Start) w) = mtt_resolve_raw_allocators X t w"
  by (auto simp: mtt_resolve_raw_allocators_def Let_def split: prod.splits option.splits)

section \<open>Properties\<close>

text \<open>C20. The bootstrap allocator hands out disjoint blocks: over any sequence of requests
  whose total size does not wrap the 64-bit offset, every block handed out lies inside the
  64 KiB buffer and after all blocks handed out before it.\<close>

theorem bootstrap_blocks_disjoint:
  assumes "g_bootstrap_offset w = 0" "(\<Sum>n\<leftarrow>ns. unat n + 7) < 2 ^ 64"
  shows "sorted_wrt (block_before X) (fst (bootstrap_run X ns w)) \<and>
     (\<forall>b \<in> set (fst (bootstrap_run X ns w)). fst b \<noteq> NULL \<longrightarrow>
        block_offset X (fst b) + unat (snd b) \<le> unat MTT_BOOTSTRAP_BUF_SIZE)"
  using bootstrap_run_bounds [of w ns] bootstrap_run_disjoint [of w ns] assms
  by (simp add: MTT_BOOTSTRAP_BUF_SIZE_def)

lemma demo_offset [simp]: "g_bootstrap_offset demo_world = 0"
  by (simp add: demo_world_def)

theorem bootstrap_blocks_disjoint_witness:
  "sorted_wrt (block_before demo_ext) (fst (bootstrap_run demo_ext [24, 100, 70000, 5] demo_world))
   \<and> fst (bootstrap_run demo_ext [24, 100, 70000, 5] demo_world) =
       [(0x600000, 24), (0x600018, 100), (NULL, 70000), (NULL, 5)]"
proof
  show "sorted_wrt (block_before demo_ext) (fst (bootstrap_run demo_ext [24, 100, 70000, 5] demo_world))"
    using bootstrap_blocks_disjoint [of demo_world "[24, 100, 70000, 5]" demo_ext] by simp
qed (simp add: bootstrap_malloc_def bootstrap_align_def MTT_BOOTSTRAP_BUF_SIZE_def Let_def
    demo_world_def demo_ext_def)

text \<open>The bootstrap allocator accepts a request it cannot serve: rounding \<open>SIZE_MAX\<close> up to
  a multiple of 8 wraps to 0, so the request succeeds, returns a non-NULL pointer of the buffer
  and reserves no byte; the next request gets the same address.\<close>

theorem bootstrap_malloc_wraps:
  assumes "g_bootstrap_offset w \<le> MTT_BOOTSTRAP_BUF_SIZE"
  shows "bootstrap_malloc X SIZE_MAX w = (x_bootstrap_buf X + g_bootstrap_offset w, w)"
  using leD [OF assms] by (simp add: bootstrap_malloc_def bootstrap_align_def Let_def)

theorem bootstrap_malloc_wraps_witness:
  "bootstrap_malloc demo_ext SIZE_MAX demo_world = (0x600000, demo_world)"
  using bootstrap_malloc_wraps [of demo_world demo_ext] by (simp add: demo_ext_def)

lemma resolve_winner_flags:
  "g_raw_ready (resolve_winner X i w)" "g_raw_resolved (resolve_winner X i w) = g_raw_resolved w"
proof -
  have "g_raw_resolved (resolve_candidates X cs u) = g_raw_resolved u" for cs and u :: "'a world"
    by (induction cs arbitrary: u) (simp_all add: Let_def resolve_from_def split: option.split)
  then show "g_raw_ready (resolve_winner X i w)" "g_raw_resolved (resolve_winner X i w) = g_raw_resolved w"
    by (simp_all add: resolve_winner_def Let_def resolve_next_def upd_slot_def)
qed

text \<open>C18. The first call resolves everything: when each of the four functions is found by
  \<open>dlsym\<close> outside the tracer or in one of the candidate libraries, the call leaves all four raw
  pointers on the C library, marks them as ready, restores the flags of the calling thread, and
  every later call by any thread changes nothing.\<close>

theorem resolve_complete:
  assumes "\<not> g_raw_ready w" "raw_malloc w = F_NULL" "\<not> g_raw_resolved w"
    and "mtt_thread_get X tid w = (Some i, w1)" "t_raw_resolving (g_threads w1 i) = 0"
    and "\<forall>f. f \<noteq> RF_posix_memalign \<longrightarrow> can_resolve X f"
  shows "all_libc (mtt_resolve_raw_allocators X tid w)
       \<and> g_raw_ready (mtt_resolve_raw_allocators X tid w) \<and> g_raw_resolved (mtt_resolve_raw_allocators X tid w)
       \<and> g_threads (mtt_resolve_raw_allocators X tid w) = g_threads w1
       \<and> mtt_resolve_raw_allocators X tid' (mtt_resolve_raw_allocators X tid w) =
           mtt_resolve_raw_allocators X tid w"
proof -
  let ?w = "(preset_bootstrap w1)\<lparr>g_raw_resolved := True\<rparr>"
  have "raw_of f (resolve_winner X i ?w) = F_LIBC" if "f \<noteq> RF_posix_memalign" for f
    by (rule resolve_winner_raw(2)) (use that assms(6) in simp_all)
  moreover have "(g_threads w1 i)\<lparr>t_raw_resolving := 0\<rparr> = g_threads w1 i" using assms(5) by simp
  ultimately show ?thesis
    by (simp add: resolve_first [OF assms(1-5)] all_libc_iff resolve_winner_threads resolve_winner_flags)
qed

lemma demo_raw [simp]:
  "\<not> g_raw_ready demo_world" "raw_malloc demo_world = F_NULL" "\<not> g_raw_resolved demo_world"
  by (simp_all add: demo_world_def)

lemma demo_resolves [simp]: "can_resolve demo_ext f" "raw_safe (x_dlsym_next demo_ext f)"
  by (simp_all add: can_resolve_def raw_safe_def demo_ext_def)

lemma demo_scan:
  "tid \<noteq> 0 \<Longrightarrow> mtt_thread_get X tid demo_world = (Some 0, upd_slot 0 (\<lambda>_. slot_claimed tid) demo_world)"
  using find_slot_first [of "\<lambda>t. t_tid t = 0" demo_world]
  by (auto simp: mtt_thread_get_def zero_slot_def find_slot_None split: option.splits
      dest!: find_slot_Some)

theorem resolve_complete_witness:
  "all_libc (mtt_resolve_raw_allocators demo_ext 7 demo_world) \<and> g_raw_ready (mtt_resolve_raw_allocators demo_ext 7 demo_world)"
  using resolve_complete [of demo_world demo_ext 7 0] by (simp add: demo_scan)

text \<open>C19. A late store undoes the resolution: when a second thread passes the guards before the
  first thread stores its bootstrap pointers, and stores its own after the first has finished,
  all four raw pointers end on the bootstrap allocator although the resolution is published as
  complete, and no later call of any thread repairs them.\<close>

theorem resolve_race_reverts:
  assumes "\<not> g_raw_ready w" "raw_malloc w = F_NULL" "\<not> g_raw_resolved w" "a \<noteq> b"
    and "mtt_thread_get X a w = (Some i, w1)" "t_raw_resolving (g_threads w1 i) = 0"
    and "mtt_thread_get X b w1 = (Some j, w2)" "t_raw_resolving (g_threads w2 j) = 0"
  shows "let w' = snd (resolve_sched X [a, b, a, a, a, b, b] (\<lambda>_. R_Start) w)
         in g_raw_ready w' \<and> raw_malloc w' = F_BOOTSTRAP \<and> raw_free w' = F_BOOTSTRAP \<and>
            raw_calloc w' = F_BOOTSTRAP \<and> raw_realloc w' = F_BOOTSTRAP \<and>
            mtt_resolve_raw_allocators X tid w' = w'"
proof -
  have s: "raw_malloc w1 = F_NULL" "\<not> g_raw_ready w1" "\<not> g_raw_resolved w1" "\<not> g_raw_resolved w2"
    using raw_of_tls [OF assms(5)] raw_of_tls [OF assms(7)] assms(1-3) by auto
  show ?thesis using assms s by (simp add: preset_bootstrap_def Let_def resolve_winner_flags)
qed

theorem resolve_race_reverts_witness:
  "let w' = snd (resolve_sched demo_ext [7, 8, 7, 7, 7, 8, 8] (\<lambda>_. R_Start) demo_world)
   in g_raw_ready w' \<and> raw_malloc w' = F_BOOTSTRAP"
proof -
  define w where "w = upd_slot 0 (\<lambda>_. slot_claimed 7) demo_world"
  have "find_slot (\<lambda>t. t_tid t = 8) w = None" by (simp add: w_def find_slot_None zero_slot_def)
  moreover have "find_slot (\<lambda>t. t_tid t = 0) w = Some 1"
    by (rule find_slot_second) (simp_all add: w_def zero_slot_def)
  ultimately have g: "mtt_thread_get demo_ext 8 w = (Some 1, upd_slot 1 (\<lambda>_. slot_claimed 8) w)"
    by (simp add: mtt_thread_get_def)
  show ?thesis
    using resolve_race_reverts [OF _ _ _ _ demo_scan [of 7 demo_ext] _ g [unfolded w_def]]
    by (simp add: Let_def)
qed

end
