(* ===== verification/Proc_Maps.thy ===== *)
theory Proc_Maps
  imports Mtt_World
begin

text \<open>
  The two readers of \<^verbatim>\<open>/proc/self/maps\<close>: the table of executable ranges of
  \<^verbatim>\<open>addr_validate.c\<close>, searched by bisection, and the address ranges of blacklisted
  libraries of \<^verbatim>\<open>tracker.c\<close>. The conversions of \<open>sscanf\<close> they use come first.
\<close>

section \<open>Scanning a line\<close>

definition newline :: char where "newline = CHR 0x0A"

definition skip_ws :: "string \<Rightarrow> string" where
  "skip_ws s = dropWhile is_space s"

definition is_hex :: "char \<Rightarrow> bool" where
  "is_hex c \<longleftrightarrow> (let n = of_char c :: nat in
     48 \<le> n \<and> n \<le> 57 \<or> 97 \<le> n \<and> n \<le> 102 \<or> 65 \<le> n \<and> n \<le> 70)"

definition hex_val :: "char \<Rightarrow> nat" where
  "hex_val c = (let n = of_char c :: nat in
     if n \<le> 57 then n - 48 else if n \<le> 70 then n - 55 else n - 87)"

definition hex_value :: "string \<Rightarrow> nat" where
  "hex_value ds = foldl (\<lambda>a c. 16 * a + hex_val c) 0 ds"

text \<open>
  \<open>%lx\<close> (a run of hex digits, as the kernel prints them; too large a value
  saturates), \<open>%u\<close>, \<open>%s\<close> with a field width, and a literal character.
\<close>

definition scan_x :: "string \<Rightarrow> (u64 \<times> string) option" where
  "scan_x s =
     (let s = skip_ws s; ds = takeWhile is_hex s
      in if ds = [] then None
         else Some (of_nat (min (2 ^ 64 - 1) (hex_value ds)), dropWhile is_hex s))"

definition scan_u :: "string \<Rightarrow> string option" where
  "scan_u s =
     (let s = skip_ws s in if takeWhile is_digit s = [] then None else Some (dropWhile is_digit s))"

definition scan_s :: "nat option \<Rightarrow> string \<Rightarrow> (string \<times> string) option" where
  "scan_s width s =
     (let s = skip_ws s;
          t = takeWhile (\<lambda>c. \<not> is_space c) s;
          t = (case width of Some n \<Rightarrow> take n t | None \<Rightarrow> t)
      in if t = [] then None else Some (t, drop (length t) s))"

definition scan_lit :: "char \<Rightarrow> string \<Rightarrow> string option" where
  "scan_lit c s = (case s of [] \<Rightarrow> None | d # t \<Rightarrow> if d = c then Some t else None)"

text \<open>The lines of a text, and the lines \<open>fgets\<close> returns with a buffer of \<open>Suc (Suc k)\<close> bytes.\<close>

fun split_lines :: "string \<Rightarrow> string \<Rightarrow> string list" where
  "split_lines cur [] = (if cur = [] then [] else [rev cur])"
| "split_lines cur (c # cs) =
     (if c = newline then rev cur # split_lines [] cs else split_lines (c # cur) cs)"

fun fgets_one :: "nat \<Rightarrow> string \<Rightarrow> string \<times> string" where
  "fgets_one 0 s = ([], s)"
| "fgets_one (Suc k) [] = ([], [])"
| "fgets_one (Suc k) (c # cs) =
     (if c = newline then ([c], cs) else let (l, r) = fgets_one k cs in (c # l, r))"

lemma fgets_one_length: "length (snd (fgets_one k s)) \<le> length s"
  by (induction k s rule: fgets_one.induct) (auto simp: case_prod_beta)

function fgets_lines :: "nat \<Rightarrow> string \<Rightarrow> string list" where
  "fgets_lines k s =
     (if s = [] then [] else let (l, r) = fgets_one (Suc k) s in l # fgets_lines k r)"
  by pat_completeness auto
termination
proof (relation "measure (length \<circ> snd)")
  fix k s x l r
  assume "s \<noteq> []" "x = fgets_one (Suc k) s" "(l, r) = x"
  then have r: "r = snd (fgets_one (Suc k) s)" by (metis snd_conv)
  show "((k, r), (k, s)) \<in> measure (length \<circ> snd)"
  proof (cases s)
    case (Cons c cs)
    then show ?thesis using fgets_one_length [of k cs] by (auto simp: r case_prod_beta)
  qed (use \<open>s \<noteq> []\<close> in simp)
qed simp

declare fgets_lines.simps [simp del]

section \<open>Executable ranges (addr_validate.c)\<close>

definition MTT_MAX_EXEC_RANGES :: nat where "MTT_MAX_EXEC_RANGES = 256"
definition MTT_MAPS_BUF_SIZE :: nat where "MTT_MAPS_BUF_SIZE = 16384"
definition MTT_LIBNAME_MAX :: nat where "MTT_LIBNAME_MAX = 64"

text \<open>\<open>sscanf (line, "%lx-%lx %7s %*x %*x:%*x %*u %n")\<close>, with the text from \<open>%n\<close> on.\<close>

definition scan_maps_line :: "string \<Rightarrow> (u64 \<times> u64 \<times> string \<times> string) option" where
  "scan_maps_line s = do {
     (lo, s) \<leftarrow> scan_x s;
     s \<leftarrow> scan_lit (CHR ''-'') s;
     (hi, s) \<leftarrow> scan_x s;
     (perm, s) \<leftarrow> scan_s (Some 7) s;
     (_, s) \<leftarrow> scan_x s;
     (_, s) \<leftarrow> scan_x s;
     s \<leftarrow> scan_lit (CHR '':'') s;
     (_, s) \<leftarrow> scan_x s;
     s \<leftarrow> scan_u s;
     Some (lo, hi, perm, skip_ws s) }"

definition basename :: "string \<Rightarrow> string" where
  "basename path = (case strrchr path (CHR ''/'') of Some i \<Rightarrow> drop (Suc i) path | None \<Rightarrow> path)"

definition exec_range_of_line :: "string \<Rightarrow> exec_range option" where
  "exec_range_of_line line =
     (case scan_maps_line line of
        None \<Rightarrow> None
      | Some (lo, hi, perm, path) \<Rightarrow>
          if strchr perm (CHR ''x'') \<noteq> None
          then Some \<lparr>er_lo = lo, er_hi = hi,
                     er_libname = take (MTT_LIBNAME_MAX - 1) (basename (dropWhile is_blank path))\<rparr>
          else None)"

fun parse_maps_loop :: "nat \<Rightarrow> string list \<Rightarrow> exec_range list" where
  "parse_maps_loop n [] = []"
| "parse_maps_loop n (l # ls) =
     (if n < MTT_MAX_EXEC_RANGES then
        (case exec_range_of_line l of
           Some r \<Rightarrow> r # parse_maps_loop (Suc n) ls
         | None \<Rightarrow> parse_maps_loop n ls)
      else [])"

definition parse_maps_locked :: "'l ext \<Rightarrow> 'l world \<Rightarrow> 'l world" where
  "parse_maps_locked X w =
     (case x_maps X (g_ext w) of
        None \<Rightarrow> w
      | Some text \<Rightarrow>
          w\<lparr>g_exec_ranges := parse_maps_loop 0 (split_lines [] (take (MTT_MAPS_BUF_SIZE - 1) text))\<rparr>)"

definition mtt_addr_validate_init :: "'l ext \<Rightarrow> 'l world \<Rightarrow> 'l world" where
  "mtt_addr_validate_init X w =
     (if g_exec_once w then w else (parse_maps_locked X w)\<lparr>g_exec_once := True\<rparr>)"

definition mtt_addr_validate_refresh :: "'l ext \<Rightarrow> 'l world \<Rightarrow> 'l world" where
  "mtt_addr_validate_refresh X w = parse_maps_locked X w"

function range_search :: "exec_range list \<Rightarrow> u64 \<Rightarrow> int \<Rightarrow> int \<Rightarrow> nat option" where
  "range_search rs a lo hi =
     (if lo \<le> hi then
        let mid = lo + (hi - lo) div 2
        in if a < er_lo (rs ! nat mid) then range_search rs a lo (mid - 1)
           else if a \<ge> er_hi (rs ! nat mid) then range_search rs a (mid + 1) hi
           else Some (nat mid)
      else None)"
  by pat_completeness auto
termination
  by (relation "measure (\<lambda>(_, _, lo, hi). nat (hi - lo + 1))") auto

declare range_search.simps [simp del]

definition mtt_addr_find :: "ptr \<Rightarrow> 'l world \<Rightarrow> nat option" where
  "mtt_addr_find addr w =
     (let a = MTT_FIX_THUMB_ADDR addr; n = int (length (g_exec_ranges w))
      in if n \<le> 0 then None else range_search (g_exec_ranges w) a 0 (n - 1))"

definition mtt_addr_is_executable :: "'l ext \<Rightarrow> ptr \<Rightarrow> 'l world \<Rightarrow> bool \<times> 'l world" where
  "mtt_addr_is_executable X addr w =
     (if addr = NULL then (False, w)
      else let w = mtt_addr_validate_init X w in (mtt_addr_find addr w \<noteq> None, w))"

definition mtt_addr_libname :: "'l ext \<Rightarrow> ptr \<Rightarrow> 'l world \<Rightarrow> string option \<times> 'l world" where
  "mtt_addr_libname X addr w =
     (if addr = NULL then (None, w)
      else let w = mtt_addr_validate_init X w
           in (map_option (\<lambda>i. er_libname (g_exec_ranges w ! i)) (mtt_addr_find addr w), w))"

section \<open>Blacklists (tracker.c)\<close>

definition mtt_is_blacklisted :: "mtt_state \<Rightarrow> string option \<Rightarrow> bool" where
  "mtt_is_blacklisted s symbol =
     (case symbol of
        None \<Rightarrow> False
      | Some sy \<Rightarrow>
          s_lib_blacklist_ready s \<and> s_lib_blacklist s \<noteq> [] \<and>
          list_ex (\<lambda>token. token \<noteq> [] \<and> strstr sy token \<noteq> None)
            (map (dropWhile is_blank) (strtok_all (take 511 (s_lib_blacklist s)) (CHR '',''))))"

definition blacklist_tokens :: "string \<Rightarrow> string list" where
  "blacklist_tokens env =
     take 16 (filter (\<lambda>t. t \<noteq> []) (map (dropWhile is_blank) (strtok_all (copy_trunc 512 env) (CHR '',''))))"

text \<open>\<open>sscanf (line, "%lx-%lx %*s %*s %*s %*s %255[^\n]")\<close> with all three items read.\<close>

definition scan_blacklist_line :: "string \<Rightarrow> (u64 \<times> u64 \<times> string) option" where
  "scan_blacklist_line s = do {
     (start, s) \<leftarrow> scan_x s;
     s \<leftarrow> scan_lit (CHR ''-'') s;
     (stop, s) \<leftarrow> scan_x s;
     (_, s) \<leftarrow> scan_s None s;
     (_, s) \<leftarrow> scan_s None s;
     (_, s) \<leftarrow> scan_s None s;
     (_, s) \<leftarrow> scan_s None s;
     (let pathname = take 255 (takeWhile (\<lambda>c. c \<noteq> newline) (skip_ws s))
      in if pathname = [] then None else Some (start, stop, pathname)) }"

fun collect_ranges :: "string list \<Rightarrow> string list \<Rightarrow> (ptr \<times> ptr) list \<Rightarrow> (ptr \<times> ptr) list" where
  "collect_ranges tokens [] rs = rs"
| "collect_ranges tokens (l # ls) rs =
     (case scan_blacklist_line l of
        None \<Rightarrow> collect_ranges tokens ls rs
      | Some (start, stop, pathname) \<Rightarrow>
          if \<not> list_ex (\<lambda>t. strstr pathname t \<noteq> None) tokens then collect_ranges tokens ls rs
          else if length rs \<ge> MTT_BLACKLIST_RANGES_MAX then rs
          else collect_ranges tokens ls (rs @ [(start, stop)]))"

definition mtt_parse_blacklist_fast :: "'l ext \<Rightarrow> 'l world \<Rightarrow> 'l world" where
  "mtt_parse_blacklist_fast X w =
     (case x_getenv X ''MTT_LIB_BLACKLIST_FAST'' of
        None \<Rightarrow> w
      | Some env \<Rightarrow>
          if env = [] then w
          else
            let tokens = blacklist_tokens env
            in if tokens = [] then w
               else
                 (case x_maps X (g_ext w) of
                    None \<Rightarrow> w
                  | Some text \<Rightarrow>
                      let w = w\<lparr>g_blacklist_ranges :=
                                 collect_ranges tokens (fgets_lines 510 text) (g_blacklist_ranges w)\<rparr>
                      in if length (g_blacklist_ranges w) > 0 then
                           let w = w\<lparr>g_blacklist_fast_enabled := True\<rparr>;
                               exe = (case x_readlink_exe X (g_ext w) of None \<Rightarrow> [] | Some p \<Rightarrow> take 255 p)
                           in if exe \<noteq> [] \<and> list_ex (\<lambda>t. strstr exe t \<noteq> None) tokens
                              then upd_state (\<lambda>s. s\<lparr>s_disabled := True\<rparr>) w
                              else w
                         else w))"

definition mtt_is_lr_in_blacklist :: "ptr \<Rightarrow> 'l world \<Rightarrow> bool" where
  "mtt_is_lr_in_blacklist lr w \<longleftrightarrow>
     g_blacklist_fast_enabled w \<and> lr \<noteq> NULL \<and>
     list_ex (\<lambda>(start, stop). start \<le> lr \<and> lr < stop) (g_blacklist_ranges w)"

section \<open>Bisection\<close>

definition in_range :: "u64 \<Rightarrow> exec_range \<Rightarrow> bool" where
  "in_range a r \<longleftrightarrow> er_lo r \<le> a \<and> a < er_hi r"

text \<open>What the kernel promises of the file: ascending ranges that do not overlap.\<close>

definition sorted_ranges :: "exec_range list \<Rightarrow> bool" where
  "sorted_ranges rs \<longleftrightarrow>
     sorted_wrt (\<lambda>r s. er_hi r \<le> er_lo s) rs \<and> list_all (\<lambda>r. er_lo r \<le> er_hi r) rs"

lemma range_search_sound:
  assumes "0 \<le> lo" "hi < int (length rs)" "range_search rs a lo hi = Some i"
  shows "i < length rs \<and> in_range a (rs ! i)"
  using assms
proof (induction rs a lo hi rule: range_search.induct)
  case (1 rs a lo hi)
  let ?m = "lo + (hi - lo) div 2"
  have lh: "lo \<le> hi"
    using "1.prems"(3) by (subst (asm) range_search.simps) (auto split: if_splits)
  then have m: "lo \<le> ?m" "?m \<le> hi" by auto
  consider "a < er_lo (rs ! nat ?m)" | "\<not> a < er_lo (rs ! nat ?m)" "er_hi (rs ! nat ?m) \<le> a"
    | "\<not> a < er_lo (rs ! nat ?m)" "\<not> er_hi (rs ! nat ?m) \<le> a" by blast
  then show ?case
  proof cases
    case 1
    then show ?thesis using "1.IH"(1) [OF lh refl] "1.prems" lh m
      by (subst (asm) (2) range_search.simps) (simp add: Let_def)
  next
    case 2
    then show ?thesis using "1.IH"(2) [OF lh refl] "1.prems" lh m
      by (subst (asm) (2) range_search.simps) (simp add: Let_def)
  next
    case 3
    then have "range_search rs a lo hi = Some (nat ?m)"
      using lh by (subst range_search.simps) (simp add: Let_def)
    then have "i = nat ?m" using "1.prems"(3) by simp
    then show ?thesis using 3 "1.prems" m by (auto simp: in_range_def)
  qed
qed

lemma sorted_ranges_less:
  assumes "sorted_ranges rs" "i < j" "j < length rs"
  shows "er_hi (rs ! i) \<le> er_lo (rs ! j)" "er_lo (rs ! i) \<le> er_hi (rs ! i)"
    "er_lo (rs ! j) \<le> er_hi (rs ! j)"
  using assms by (auto simp: sorted_ranges_def sorted_wrt_iff_nth_less list_all_length)

lemma range_search_complete:
  assumes "sorted_ranges rs" "in_range a (rs ! k)" "0 \<le> lo" "hi < int (length rs)"
    and "lo \<le> int k" "int k \<le> hi"
  shows "range_search rs a lo hi \<noteq> None"
  using assms
proof (induction rs a lo hi rule: range_search.induct)
  case (1 rs a lo hi)
  let ?m = "lo + (hi - lo) div 2"
  have lh: "lo \<le> hi" using "1.prems" by simp
  then have m: "lo \<le> ?m" "?m \<le> hi" by auto
  have mlen: "nat ?m < length rs" "k < length rs" using m "1.prems" by auto
  consider "a < er_lo (rs ! nat ?m)" | "\<not> a < er_lo (rs ! nat ?m)" "er_hi (rs ! nat ?m) \<le> a"
    | "\<not> a < er_lo (rs ! nat ?m)" "\<not> er_hi (rs ! nat ?m) \<le> a" by blast
  then show ?case
  proof cases
    case 1
    then have "int k \<le> ?m - 1"
      using sorted_ranges_less [OF "1.prems"(1), of "nat ?m" k] "1.prems"(2) mlen m(1) "1.prems"(3)
      by (cases "k = nat ?m"; cases "nat ?m < k") (auto simp: in_range_def not_le)
    then show ?thesis using "1.IH"(1) [OF lh refl] 1 "1.prems" lh m
      by (subst range_search.simps) (simp add: Let_def)
  next
    case 2
    then have "?m + 1 \<le> int k"
      using sorted_ranges_less [OF "1.prems"(1), of k "nat ?m"] "1.prems"(2) mlen m(1) "1.prems"(3)
      by (cases "k = nat ?m"; cases "k < nat ?m") (auto simp: in_range_def not_le not_less)
    then show ?thesis using "1.IH"(2) [OF lh refl] 2 "1.prems" lh m
      by (subst range_search.simps) (simp add: Let_def)
  next
    case 3
    then show ?thesis using lh by (subst range_search.simps) (simp add: Let_def)
  qed
qed

lemma mtt_addr_find_iff:
  assumes "sorted_ranges (g_exec_ranges w)"
  shows "mtt_addr_find addr w \<noteq> None \<longleftrightarrow>
     (\<exists>r \<in> set (g_exec_ranges w). in_range (MTT_FIX_THUMB_ADDR addr) r)"
proof
  assume "mtt_addr_find addr w \<noteq> None"
  then show "\<exists>r \<in> set (g_exec_ranges w). in_range (MTT_FIX_THUMB_ADDR addr) r"
    using range_search_sound [of 0 "int (length (g_exec_ranges w)) - 1" "g_exec_ranges w"]
    by (fastforce simp: mtt_addr_find_def Let_def split: if_splits)
next
  assume "\<exists>r \<in> set (g_exec_ranges w). in_range (MTT_FIX_THUMB_ADDR addr) r"
  then obtain k where "k < length (g_exec_ranges w)"
    "in_range (MTT_FIX_THUMB_ADDR addr) (g_exec_ranges w ! k)"
    by (auto simp: in_set_conv_nth)
  then show "mtt_addr_find addr w \<noteq> None"
    using range_search_complete [OF assms, of "MTT_FIX_THUMB_ADDR addr" k 0
        "int (length (g_exec_ranges w)) - 1"]
    by (auto simp: mtt_addr_find_def Let_def)
qed

lemma mtt_addr_find_sound:
  assumes "mtt_addr_find addr w = Some i"
  shows "i < length (g_exec_ranges w) \<and> in_range (MTT_FIX_THUMB_ADDR addr) (g_exec_ranges w ! i)"
  using assms range_search_sound [of 0 "int (length (g_exec_ranges w)) - 1" "g_exec_ranges w"]
  by (fastforce simp: mtt_addr_find_def Let_def split: if_splits)

section \<open>Printing and scanning a line\<close>

text \<open>The line the kernel prints: \<open>lo-hi perm offset major:minor inode path\<close>, the path padded with blanks.\<close>

definition hex_char :: "nat \<Rightarrow> char" where
  "hex_char n = char_of (if n < 10 then 48 + n else 87 + n)"

fun hex_string :: "nat \<Rightarrow> string" where
  "hex_string n = (if n < 16 then [hex_char n] else hex_string (n div 16) @ [hex_char (n mod 16)])"

declare hex_string.simps [simp del]

definition maps_line ::
  "u64 \<Rightarrow> u64 \<Rightarrow> string \<Rightarrow> u64 \<Rightarrow> u64 \<Rightarrow> u64 \<Rightarrow> string \<Rightarrow> nat \<Rightarrow> string \<Rightarrow> string" where
  "maps_line lo hi perm off maj mnr inode pad pathname =
     hex_string (unat lo) @ ''-'' @ hex_string (unat hi) @ '' '' @ perm @ '' '' @
     hex_string (unat off) @ '' '' @ hex_string (unat maj) @ '':'' @ hex_string (unat mnr) @ '' '' @
     inode @ replicate (Suc pad) (CHR '' '') @ pathname"

lemma hex_char_props:
  assumes "n < 16"
  shows "is_hex (hex_char n)" "hex_val (hex_char n) = n" "\<not> is_space (hex_char n)"
proof -
  have c: "(of_char (hex_char n) :: nat) = (if n < 10 then 48 + n else 87 + n)"
    using assms by (simp add: hex_char_def)
  show "is_hex (hex_char n)" "hex_val (hex_char n) = n"
    using assms by (auto simp: is_hex_def hex_val_def c Let_def)
  have "hex_char n \<noteq> CHR '' ''"
  proof
    assume "hex_char n = CHR '' ''"
    then have "(of_char (hex_char n) :: nat) = 32" by simp
    then show False using c assms by (simp split: if_splits)
  qed
  then show "\<not> is_space (hex_char n)" using assms c by (auto simp: is_space_def split: if_splits)
qed

lemma hex_string_props:
  "list_all (\<lambda>c. is_hex c \<and> \<not> is_space c) (hex_string n) \<and> hex_string n \<noteq> [] \<and> hex_value (hex_string n) = n"
proof (induction n rule: hex_string.induct)
  case (1 n)
  show ?case
  proof (cases "n < 16")
    case True
    then show ?thesis
      by (simp add: hex_string.simps [of n] hex_char_props hex_value_def)
  next
    case False
    then show ?thesis
      using 1 by (simp add: hex_string.simps [of n] hex_char_props hex_value_def)
  qed
qed

lemma scan_x_print:
  assumes "list_all is_space ws" "rest = [] \<or> \<not> is_hex (hd rest)"
  shows "scan_x (ws @ hex_string (unat v) @ rest) = Some (v, rest)"
proof -
  note h = hex_string_props [of "unat v"]
  obtain c cs where cs: "hex_string (unat v) = c # cs" "\<not> is_space c"
    using h by (cases "hex_string (unat v)") auto
  have sk: "skip_ws (ws @ hex_string (unat v) @ rest) = hex_string (unat v) @ rest"
    using assms(1) cs by (simp add: skip_ws_def list_all_iff dropWhile_append2)
  have "\<forall>c \<in> set (hex_string (unat v)). is_hex c" using h by (simp add: list_all_iff)
  then have "takeWhile is_hex (hex_string (unat v) @ rest) = hex_string (unat v)"
    "dropWhile is_hex (hex_string (unat v) @ rest) = rest"
    using assms(2) by (cases rest; simp add: takeWhile_append2 dropWhile_append2)+
  moreover have "unat v < 2 ^ LENGTH(64)" by (rule unsigned_less)
  ultimately show ?thesis using h by (simp add: scan_x_def sk Let_def min_absorb2)
qed

lemma scan_s_print:
  assumes "list_all is_space ws" "list_all (\<lambda>c. \<not> is_space c) t" "t \<noteq> []"
    and "case width of Some n \<Rightarrow> length t \<le> n | None \<Rightarrow> True" "rest = [] \<or> is_space (hd rest)"
  shows "scan_s width (ws @ t @ rest) = Some (t, rest)"
proof -
  obtain c cs where "t = c # cs" "\<not> is_space c" using assms by (cases t) auto
  then have sk: "skip_ws (ws @ t @ rest) = t @ rest"
    using assms(1) by (simp add: skip_ws_def list_all_iff dropWhile_append2)
  have "takeWhile (\<lambda>c. \<not> is_space c) (t @ rest) = t"
    using assms(2,5) by (cases rest) (simp_all add: takeWhile_append2 list_all_iff)
  moreover have "n \<noteq> 0" if "width = Some n" for n using that assms(3,4) by (cases t) auto
  ultimately show ?thesis using assms(3,4) by (auto simp: scan_s_def sk Let_def split: option.splits)
qed

lemma scan_u_print:
  assumes "list_all is_space ws" "list_all (\<lambda>c. is_digit c \<and> \<not> is_space c) t" "t \<noteq> []"
    and "rest = [] \<or> \<not> is_digit (hd rest)"
  shows "scan_u (ws @ t @ rest) = Some rest"
proof -
  obtain c cs where c: "t = c # cs" "\<not> is_space c" using assms by (cases t) auto
  then have sk: "skip_ws (ws @ t @ rest) = t @ rest"
    using assms(1) by (simp add: skip_ws_def list_all_iff dropWhile_append2)
  have "takeWhile is_digit (t @ rest) = t" "dropWhile is_digit (t @ rest) = rest"
    using assms(2,4) by (cases rest; simp add: takeWhile_append2 dropWhile_append2 list_all_iff)+
  then show ?thesis using assms(3) by (simp add: scan_u_def sk Let_def)
qed

lemma char_class_blank:
  "is_space (CHR '' '')" "\<not> is_hex (CHR '' '')" "\<not> is_hex (CHR ''-'')" "\<not> is_hex (CHR '':'')"
  "\<not> is_digit (CHR '' '')"
  by (simp_all add: is_space_def is_hex_def is_digit_def)

lemma scan_maps_line_print:
  assumes "perm \<noteq> []" "length perm \<le> 7" "list_all (\<lambda>c. \<not> is_space c) perm"
    and "inode \<noteq> []" "list_all (\<lambda>c. is_digit c \<and> \<not> is_space c) inode"
    and "pathname = [] \<or> \<not> is_space (hd pathname)"
  shows "scan_maps_line (maps_line lo hi perm off maj mnr inode pad pathname) =
     Some (lo, hi, perm, pathname)"
proof -
  note x0 = scan_x_print [of "[]"] and x1 = scan_x_print [of "[CHR '' '']"]
  note s1 = scan_s_print [of "[CHR '' '']" perm "Some 7"] and u1 = scan_u_print [of "[CHR '' '']" inode]
  have "\<forall>c \<in> set (replicate (Suc pad) (CHR '' '')). is_space c" by (simp add: char_class_blank)
  then have "skip_ws (replicate (Suc pad) (CHR '' '') @ pathname) = pathname"
    using assms(6) unfolding skip_ws_def
    by (subst dropWhile_append2) (auto simp: dropWhile_eq_self_iff)
  then show ?thesis
    using assms x0 x1 s1 u1
    by (simp add: maps_line_def scan_maps_line_def scan_lit_def char_class_blank)
qed

section \<open>Ranges of blacklisted libraries\<close>

text \<open>\<open>fgets\<close> on lines that fit its buffer.\<close>

lemma fgets_one_newline:
  "newline \<notin> set l \<Longrightarrow> length l < k \<Longrightarrow> fgets_one k (l @ newline # r) = (l @ [newline], r)"
proof (induction l arbitrary: k)
  case Nil
  then show ?case by (cases k) simp_all
next
  case (Cons c l)
  then show ?case by (cases k) auto
qed

lemma fgets_one_last: "newline \<notin> set l \<Longrightarrow> length l \<le> k \<Longrightarrow> fgets_one k l = (l, [])"
proof (induction l arbitrary: k)
  case Nil
  then show ?case by (cases k) simp_all
next
  case (Cons c l)
  then show ?case by (cases k) auto
qed

lemma fgets_lines_newline:
  "newline \<notin> set l \<Longrightarrow> length l \<le> k \<Longrightarrow>
     fgets_lines k (l @ newline # r) = (l @ [newline]) # fgets_lines k r"
  by (subst fgets_lines.simps) (simp add: fgets_one_newline)

lemma fgets_lines_last:
  "newline \<notin> set l \<Longrightarrow> length l \<le> Suc k \<Longrightarrow> fgets_lines k l = (if l = [] then [] else [l])"
  by (subst fgets_lines.simps) (simp add: fgets_one_last fgets_lines.simps [of k "[]"])

definition blacklist_match :: "string list \<Rightarrow> string \<Rightarrow> (ptr \<times> ptr) option" where
  "blacklist_match tokens line =
     (case scan_blacklist_line line of
        None \<Rightarrow> None
      | Some (start, stop, pathname) \<Rightarrow>
          if list_ex (\<lambda>t. strstr pathname t \<noteq> None) tokens then Some (start, stop) else None)"

lemma blacklist_match_iff:
  "blacklist_match tokens line = Some (a, b) \<longleftrightarrow>
     (\<exists>pathname. scan_blacklist_line line = Some (a, b, pathname) \<and>
        (\<exists>t \<in> set tokens. strstr pathname t \<noteq> None))"
  by (auto simp: blacklist_match_def list_ex_iff split: option.splits prod.splits if_splits)

lemma set_map_filter_iff: "y \<in> set (List.map_filter f xs) \<longleftrightarrow> (\<exists>x \<in> set xs. f x = Some y)"
  by (induction xs) (auto simp: List.map_filter_def)

lemma collect_ranges_eq:
  assumes "length rs \<le> MTT_BLACKLIST_RANGES_MAX"
  shows "collect_ranges tokens ls rs =
     take MTT_BLACKLIST_RANGES_MAX (rs @ List.map_filter (blacklist_match tokens) ls)"
  using assms
proof (induction ls arbitrary: rs)
  case Nil
  then show ?case by (simp add: List.map_filter_def)
next
  case (Cons l ls)
  show ?case
  proof (cases "blacklist_match tokens l")
    case None
    then have "collect_ranges tokens (l # ls) rs = collect_ranges tokens ls rs"
      by (auto simp: blacklist_match_def split: option.splits if_splits)
    with None Cons show ?thesis by (simp add: List.map_filter_def)
  next
    case (Some r)
    then have c: "collect_ranges tokens (l # ls) rs =
        (if length rs \<ge> MTT_BLACKLIST_RANGES_MAX then rs else collect_ranges tokens ls (rs @ [r]))"
      by (auto simp: blacklist_match_def split: option.splits if_splits)
    show ?thesis
    proof (cases "length rs \<ge> MTT_BLACKLIST_RANGES_MAX")
      case True
      with Cons.prems c show ?thesis by simp
    next
      case False
      with Cons.IH [of "rs @ [r]"] c Some show ?thesis by (simp add: List.map_filter_def)
    qed
  qed
qed

text \<open>The ranges a maps file yields for an environment value.\<close>

definition blacklist_of :: "string \<Rightarrow> string \<Rightarrow> (ptr \<times> ptr) list" where
  "blacklist_of env text =
     List.map_filter (blacklist_match (blacklist_tokens env)) (fgets_lines 510 text)"

lemma parse_blacklist_ranges:
  assumes "x_getenv X ''MTT_LIB_BLACKLIST_FAST'' = Some env" "blacklist_tokens env \<noteq> []"
    and "x_maps X (g_ext w) = Some text"
    and "length (g_blacklist_ranges w) \<le> MTT_BLACKLIST_RANGES_MAX"
  shows "g_blacklist_ranges (mtt_parse_blacklist_fast X w) =
       take MTT_BLACKLIST_RANGES_MAX (g_blacklist_ranges w @ blacklist_of env text)"
    and "take MTT_BLACKLIST_RANGES_MAX (g_blacklist_ranges w @ blacklist_of env text) \<noteq> [] \<Longrightarrow>
       g_blacklist_fast_enabled (mtt_parse_blacklist_fast X w)"
    and "g_ext (mtt_parse_blacklist_fast X w) = g_ext w"
proof -
  have e: "env \<noteq> []" using assms(2) by (auto simp: blacklist_tokens_def copy_trunc_def strtok_all_def)
  show "g_blacklist_ranges (mtt_parse_blacklist_fast X w) =
       take MTT_BLACKLIST_RANGES_MAX (g_blacklist_ranges w @ blacklist_of env text)"
    "take MTT_BLACKLIST_RANGES_MAX (g_blacklist_ranges w @ blacklist_of env text) \<noteq> [] \<Longrightarrow>
       g_blacklist_fast_enabled (mtt_parse_blacklist_fast X w)"
    "g_ext (mtt_parse_blacklist_fast X w) = g_ext w"
    using assms e
    by (simp_all add: mtt_parse_blacklist_fast_def collect_ranges_eq blacklist_of_def Let_def)
qed

text \<open>A list of names and a maps file, as they are written: the parser reads back what was meant.\<close>

fun commas :: "string list \<Rightarrow> string" where
  "commas [] = []"
| "commas [n] = n"
| "commas (n # ns) = n @ '','' @ commas ns"

definition names_ok :: "string list \<Rightarrow> bool" where
  "names_ok names \<longleftrightarrow>
     names \<noteq> [] \<and> length names \<le> 16 \<and> length (commas names) \<le> 511 \<and>
     list_all (\<lambda>n. n \<noteq> [] \<and> CHR '','' \<notin> set n \<and> \<not> is_blank (hd n)) names"

record vm_map =
  v_lo :: u64
  v_hi :: u64
  v_perm :: string
  v_off :: u64
  v_maj :: u64
  v_mnr :: u64
  v_inode :: string
  v_pad :: nat
  v_path :: string

definition kernel_line :: "vm_map \<Rightarrow> string" where
  "kernel_line m = maps_line (v_lo m) (v_hi m) (v_perm m) (v_off m) (v_maj m) (v_mnr m) (v_inode m) (v_pad m) (v_path m)"

definition kernel_text :: "vm_map list \<Rightarrow> string" where
  "kernel_text ms = concat (map (\<lambda>m. kernel_line m @ [newline]) ms)"

definition vm_ok :: "vm_map \<Rightarrow> bool" where
  "vm_ok m \<longleftrightarrow>
     v_perm m \<noteq> [] \<and> list_all (\<lambda>c. \<not> is_space c) (v_perm m) \<and>
     v_inode m \<noteq> [] \<and> list_all (\<lambda>c. is_digit c \<and> \<not> is_space c) (v_inode m) \<and>
     newline \<notin> set (v_path m) \<and> (v_path m = [] \<or> \<not> is_space (hd (v_path m))) \<and>
     length (v_path m) \<le> 255 \<and> length (kernel_line m) \<le> 510"

lemma strtok_aux_token:
  "d \<notin> set n \<Longrightarrow> strtok_all_aux d cur (n @ rest) = strtok_all_aux d (rev n @ cur) rest"
  by (induction n arbitrary: cur) auto

lemma strtok_commas:
  assumes "list_all (\<lambda>n. n \<noteq> [] \<and> CHR '','' \<notin> set n) names"
  shows "strtok_all (commas names) (CHR '','') = names"
  using assms unfolding strtok_all_def
proof (induction names rule: commas.induct)
  case (2 n)
  then show ?case using strtok_aux_token [of "CHR '',''" n "[]" "[]"] by simp
next
  case (3 n m ns)
  then show ?case using strtok_aux_token [of "CHR '',''" n "[]" "'','' @ commas (m # ns)"] by simp
qed simp

lemma tokens_commas:
  assumes "names_ok names"
  shows "blacklist_tokens (commas names) = names"
proof -
  have n: "\<And>n. n \<in> set names \<Longrightarrow> n \<noteq> [] \<and> CHR '','' \<notin> set n \<and> \<not> is_blank (hd n)"
    using assms by (simp add: names_ok_def list_all_iff)
  have "strtok_all (copy_trunc 512 (commas names)) (CHR '','') = names"
    using assms n by (simp add: names_ok_def copy_trunc_def strtok_commas list_all_iff)
  moreover have "map (dropWhile is_blank) names = names"
    by (rule map_idI) (metis n dropWhile_eq_self_iff)
  moreover have "filter (\<lambda>t. t \<noteq> []) names = names" using n by (simp add: filter_id_conv)
  ultimately show ?thesis using assms by (simp add: blacklist_tokens_def names_ok_def)
qed

lemma starts_with_iff: "starts_with t s \<longleftrightarrow> (\<exists>v. s = t @ v)"
  by (induction t s rule: starts_with.induct) auto

lemma strstr_iff: "strstr s t \<noteq> None \<longleftrightarrow> (\<exists>u v. s = u @ t @ v)"
proof (induction s)
  case (Cons c cs)
  have "(\<exists>u v. c # cs = u @ t @ v) \<longleftrightarrow> (\<exists>v. c # cs = t @ v) \<or> (\<exists>u v. cs = u @ t @ v)"
    by (metis append_Cons append_Nil neq_Nil_conv list.inject)
  then show ?case using Cons by (auto simp: starts_with_iff)
qed simp

lemma scan_blacklist_print:
  assumes "vm_ok m"
  shows "scan_blacklist_line (kernel_line m @ [newline]) =
     (if v_path m = [] then None else Some (v_lo m, v_hi m, v_path m))"
proof -
  note x0 = scan_x_print [of "[]"] and s1 = scan_s_print [of "[CHR '' '']" _ None]
  have hexs: "list_all (\<lambda>c. \<not> is_space c) (hex_string k)" "hex_string k \<noteq> []" for k
    using hex_string_props [of k] by (auto simp: list_all_iff)
  have dev: "list_all (\<lambda>c. \<not> is_space c) (hex_string k @ '':'' @ hex_string l)" for k l
    using hexs by (simp add: is_space_def)
  have nl: "is_space newline" by (simp add: is_space_def newline_def)
  have ok: "v_perm m \<noteq> []" "list_all (\<lambda>c. \<not> is_space c) (v_perm m)" "v_inode m \<noteq> []"
    "list_all (\<lambda>c. \<not> is_space c) (v_inode m)" "newline \<notin> set (v_path m)" "length (v_path m) \<le> 255"
    "v_path m = [] \<or> \<not> is_space (hd (v_path m))"
    using assms by (auto simp: vm_ok_def list_all_iff)
  have sp: "\<forall>c \<in> set (replicate (Suc (v_pad m)) (CHR '' '')). is_space c" by (simp add: char_class_blank)
  have sk: "skip_ws (replicate (Suc (v_pad m)) (CHR '' '') @ v_path m @ [newline]) = (if v_path m = [] then [] else v_path m @ [newline])"
    using ok(7) sp nl unfolding skip_ws_def by (subst dropWhile_append2) (auto simp: dropWhile_eq_self_iff)
  have path: "takeWhile (\<lambda>c. c \<noteq> newline) (v_path m @ [newline]) = v_path m"
    using ok(5) by (subst takeWhile_append2) auto
  let ?tail = "replicate (Suc (v_pad m)) (CHR '' '') @ v_path m @ [newline]"
  have e: "kernel_line m @ [newline] = [] @ hex_string (unat (v_lo m)) @ ''-'' @ [] @ hex_string (unat (v_hi m)) @
      '' '' @ v_perm m @ '' '' @ hex_string (unat (v_off m)) @ '' '' @
      (hex_string (unat (v_maj m)) @ '':'' @ hex_string (unat (v_mnr m))) @ '' '' @ v_inode m @ ?tail"
    by (simp add: kernel_line_def maps_line_def)
  show ?thesis
    unfolding e scan_blacklist_line_def
    using x0 s1 ok(1-4,6) hexs dev [of "unat (v_maj m)" "unat (v_mnr m)"] sk path
    by (simp add: scan_lit_def char_class_blank del: append_assoc replicate_Suc list_all_append)
qed

lemma kernel_line_no_newline:
  assumes "vm_ok m"
  shows "newline \<notin> set (kernel_line m)"
proof -
  have nl: "is_space newline" by (simp add: is_space_def newline_def)
  have "newline \<notin> set (hex_string k)" for k using hex_string_props [of k] nl by (auto simp: list_all_iff)
  then show ?thesis
    using assms nl by (auto simp: kernel_line_def maps_line_def vm_ok_def list_all_iff newline_def)
qed

lemma fgets_kernel:
  assumes "list_all vm_ok ms"
  shows "fgets_lines 510 (kernel_text ms) = map (\<lambda>m. kernel_line m @ [newline]) ms"
  using assms
proof (induction ms)
  case Nil
  then show ?case by (simp add: kernel_text_def fgets_lines.simps)
next
  case (Cons m ms)
  then have "length (kernel_line m) \<le> 510" "newline \<notin> set (kernel_line m)"
    using kernel_line_no_newline [of m] by (simp_all add: vm_ok_def)
  with Cons show ?case
    using fgets_lines_newline [of "kernel_line m" 510 "kernel_text ms"] by (simp add: kernel_text_def)
qed

lemma blacklist_of_kernel:
  assumes "names_ok names" "list_all vm_ok ms"
  shows "blacklist_of (commas names) (kernel_text ms) =
     map (\<lambda>m. (v_lo m, v_hi m)) (filter (\<lambda>m. \<exists>n \<in> set names. \<exists>u v. v_path m = u @ n @ v) ms)"
proof -
  let ?hit = "\<lambda>m. \<exists>n \<in> set names. \<exists>u v. v_path m = u @ n @ v"
  have ne: "\<And>n. n \<in> set names \<Longrightarrow> n \<noteq> []" using assms(1) by (auto simp: names_ok_def list_all_iff)
  have "blacklist_match names (kernel_line m @ [newline]) = (if ?hit m then Some (v_lo m, v_hi m) else None)"
    if "m \<in> set ms" for m
  proof -
    have "list_ex (\<lambda>t. strstr (v_path m) t \<noteq> None) names \<longleftrightarrow> ?hit m"
      unfolding list_ex_iff strstr_iff ..
    moreover have "v_path m = [] \<Longrightarrow> \<not> ?hit m" using ne by auto
    moreover have "vm_ok m" using that assms(2) by (simp add: list_all_iff)
    ultimately show ?thesis by (simp add: blacklist_match_def scan_blacklist_print)
  qed
  then have "List.map_filter (blacklist_match names) (map (\<lambda>m. kernel_line m @ [newline]) ms) =
      map (\<lambda>m. (v_lo m, v_hi m)) (filter ?hit ms)"
    by (induction ms) (simp_all add: List.map_filter_def)
  then show ?thesis by (simp add: blacklist_of_def tokens_commas [OF assms(1)] fgets_kernel [OF assms(2)])
qed

section \<open>Properties\<close>

text \<open>C25. The bisection over the executable ranges is exact: when the cached ranges are in the
  ascending order of the kernel's file, an address other than NULL is reported as executable if and only if it,
  with the Thumb bit cleared, lies in one of the ranges, and the name reported is that of a range
  that contains it.\<close>

theorem addr_executable_iff:
  assumes "g_exec_once w" "sorted_ranges (g_exec_ranges w)" "addr \<noteq> NULL"
  shows "fst (mtt_addr_is_executable X addr w) =
       (\<exists>r \<in> set (g_exec_ranges w). in_range (MTT_FIX_THUMB_ADDR addr) r)
   \<and> (\<forall>name. fst (mtt_addr_libname X addr w) = Some name \<longrightarrow>
       (\<exists>r \<in> set (g_exec_ranges w). in_range (MTT_FIX_THUMB_ADDR addr) r \<and> name = er_libname r))"
proof
  show "fst (mtt_addr_is_executable X addr w) =
       (\<exists>r \<in> set (g_exec_ranges w). in_range (MTT_FIX_THUMB_ADDR addr) r)"
    using assms mtt_addr_find_iff [OF assms(2)]
    by (simp add: mtt_addr_is_executable_def mtt_addr_validate_init_def)
  show "\<forall>name. fst (mtt_addr_libname X addr w) = Some name \<longrightarrow>
       (\<exists>r \<in> set (g_exec_ranges w). in_range (MTT_FIX_THUMB_ADDR addr) r \<and> name = er_libname r)"
    using assms mtt_addr_find_sound [of addr w]
    by (auto simp: mtt_addr_libname_def mtt_addr_validate_init_def)
qed

definition two_ranges :: "ptr world" where
  "two_ranges = demo_world\<lparr>g_exec_once := True,
     g_exec_ranges := [\<lparr>er_lo = 0x1000, er_hi = 0x2000, er_libname = ''app''\<rparr>,
                       \<lparr>er_lo = 0x5000, er_hi = 0x6000, er_libname = ''libc.so.6''\<rparr>]\<rparr>"

theorem addr_executable_iff_witness:
  "fst (mtt_addr_is_executable demo_ext 0x5001 two_ranges)"
  using addr_executable_iff [of two_ranges "0x5001" demo_ext]
  by (simp add: two_ranges_def sorted_ranges_def in_range_def MTT_FIX_THUMB_ADDR_def)

text \<open>C26. Scanning inverts printing: from a line in the kernel's format, with any address range,
  permissions of at most seven characters, device, inode and a path that does not start with
  white space, the scanner recovers the range, the permissions and the path.\<close>

theorem maps_line_roundtrip:
  assumes "perm \<noteq> []" "length perm \<le> 7" "list_all (\<lambda>c. \<not> is_space c) perm"
    and "inode \<noteq> []" "list_all (\<lambda>c. is_digit c \<and> \<not> is_space c) inode"
    and "pathname = [] \<or> \<not> is_space (hd pathname)"
  shows "scan_maps_line (maps_line lo hi perm off maj mnr inode pad pathname) =
     Some (lo, hi, perm, pathname)"
  using assms by (rule scan_maps_line_print)

theorem maps_line_roundtrip_witness:
  "scan_maps_line (maps_line 0x400000 0x452000 ''r-xp'' 0 8 2 ''173521'' 6 ''/usr/bin/dbus'') =
     Some (0x400000, 0x452000, ''r-xp'', ''/usr/bin/dbus'')"
  by (rule maps_line_roundtrip) (simp_all add: is_space_def is_digit_def)

text \<open>C27. The address blacklist is exact: where \<open>MTT_LIB_BLACKLIST_FAST\<close> is a comma-separated list of at
  most 16 names that fits the buffer of 512 bytes, the maps file consists of lines as the kernel prints
  them (short enough for the buffers of 512 and 256 bytes), no range has been recorded before and at
  most 64 mappings match, a return address is classified as blacklisted if and only if it is not NULL
  and lies in a mapping whose path has one of the names as a part.\<close>

theorem lr_blacklist_exact:
  assumes "names_ok names" "list_all vm_ok ms" "g_blacklist_ranges w = []" "\<not> g_blacklist_fast_enabled w"
    and "x_getenv X ''MTT_LIB_BLACKLIST_FAST'' = Some (commas names)" "x_maps X (g_ext w) = Some (kernel_text ms)"
    and "length (filter (\<lambda>m. \<exists>n \<in> set names. \<exists>u v. v_path m = u @ n @ v) ms) \<le> 64"
  shows "mtt_is_lr_in_blacklist lr (mtt_parse_blacklist_fast X w) \<longleftrightarrow>
     lr \<noteq> NULL \<and> (\<exists>m \<in> set ms. v_lo m \<le> lr \<and> lr < v_hi m \<and> (\<exists>n \<in> set names. \<exists>u v. v_path m = u @ n @ v))"
proof -
  let ?w = "mtt_parse_blacklist_fast X w" and ?b = "blacklist_of (commas names) (kernel_text ms)"
  let ?hit = "\<lambda>m. \<exists>n \<in> set names. \<exists>u v. v_path m = u @ n @ v"
  have b: "?b = map (\<lambda>m. (v_lo m, v_hi m)) (filter ?hit ms)" by (rule blacklist_of_kernel [OF assms(1,2)])
  have t: "blacklist_tokens (commas names) \<noteq> []" using assms(1) by (simp add: tokens_commas) (simp add: names_ok_def)
  note p = parse_blacklist_ranges [OF assms(5) t assms(6)]
  have r: "g_blacklist_ranges ?w = ?b" using p(1) assms(3,7) by (simp add: b MTT_BLACKLIST_RANGES_MAX_def)
  have "g_blacklist_fast_enabled ?w" if "x \<in> set ?b" for x
  proof -
    have "take MTT_BLACKLIST_RANGES_MAX (g_blacklist_ranges w @ ?b) \<noteq> []"
      using that assms(3) by (auto simp: MTT_BLACKLIST_RANGES_MAX_def)
    then show ?thesis using p(2) assms(3) by simp
  qed
  then have "mtt_is_lr_in_blacklist lr ?w \<longleftrightarrow> lr \<noteq> NULL \<and> (\<exists>(start, stop) \<in> set ?b. start \<le> lr \<and> lr < stop)"
    by (auto simp: mtt_is_lr_in_blacklist_def r list_ex_iff)
  then show ?thesis unfolding b by auto
qed

text \<open>Two names, two mappings.\<close>

definition lmdb_map :: vm_map where
  "lmdb_map = \<lparr>v_lo = 0x10, v_hi = 0x20, v_perm = ''r-xp'', v_off = 0, v_maj = 8, v_mnr = 1, v_inode = ''7'',
     v_pad = 0, v_path = ''/lib/liblmdb.so''\<rparr>"

definition shell_map :: vm_map where
  "shell_map = \<lparr>v_lo = 0x30, v_hi = 0x40, v_perm = ''r-xp'', v_off = 0, v_maj = 8, v_mnr = 1, v_inode = ''9'',
     v_pad = 0, v_path = ''/bin/sh''\<rparr>"

theorem lr_blacklist_exact_witness:
  "mtt_is_lr_in_blacklist 0x14 (mtt_parse_blacklist_fast (demo_ext\<lparr>x_getenv := (\<lambda>_. Some ''xml,lmdb''),
       x_maps := (\<lambda>_. Some (kernel_text [lmdb_map, shell_map]))\<rparr>) demo_world)"
proof -
  let ?X = "demo_ext\<lparr>x_getenv := (\<lambda>_. Some ''xml,lmdb''), x_maps := (\<lambda>_. Some (kernel_text [lmdb_map, shell_map]))\<rparr>"
  have n: "names_ok [''xml'', ''lmdb'']" by (simp add: names_ok_def is_blank_def)
  have m: "list_all vm_ok [lmdb_map, shell_map]"
    by (simp add: vm_ok_def lmdb_map_def shell_map_def kernel_line_def maps_line_def is_space_def is_digit_def
        newline_def hex_string.simps)
  have "v_path lmdb_map = ''/lib/lib'' @ ''lmdb'' @ ''.so''" by (simp add: lmdb_map_def)
  then have "\<exists>n \<in> set [''xml'', ''lmdb'']. \<exists>u v. v_path lmdb_map = u @ n @ v" by (meson list.set_intros)
  then show ?thesis
    using lr_blacklist_exact [OF n m, of demo_world ?X "0x14"]
      length_filter_le [of "\<lambda>m. \<exists>n \<in> set [''xml'', ''lmdb'']. \<exists>u v. v_path m = u @ n @ v" "[lmdb_map, shell_map]"]
    by (simp add: demo_world_def lmdb_map_def)
qed

definition blacklist_ext :: "ptr ext" where
  "blacklist_ext = demo_ext\<lparr>x_getenv := (\<lambda>_. Some ''lmdb''),
     x_maps := (\<lambda>_. Some (''10-20 r-xp 0 8:1 7 /lib/liblmdb.so'' @ [newline] @ ''30-40 r-xp 0 8:1 9 /bin/sh''))\<rparr>"

lemma blacklist_ext_simps [simp]:
  "x_getenv blacklist_ext v = Some ''lmdb''"
  "x_maps blacklist_ext l =
     Some (''10-20 r-xp 0 8:1 7 /lib/liblmdb.so'' @ [newline] @ ''30-40 r-xp 0 8:1 9 /bin/sh'')"
  by (simp_all add: blacklist_ext_def)

lemma blacklist_ext_tokens [simp]: "blacklist_tokens ''lmdb'' = [''lmdb'']"
  by (simp add: blacklist_tokens_def strtok_all_def copy_trunc_def is_blank_def)

lemma blacklist_ext_of:
  "blacklist_of ''lmdb''
     (''10-20 r-xp 0 8:1 7 /lib/liblmdb.so'' @ [newline] @ ''30-40 r-xp 0 8:1 9 /bin/sh'') = [(0x10, 0x20)]"
proof -
  have f: "fgets_lines 510 (''10-20 r-xp 0 8:1 7 /lib/liblmdb.so'' @ [newline] @ ''30-40 r-xp 0 8:1 9 /bin/sh'') =
     [''10-20 r-xp 0 8:1 7 /lib/liblmdb.so'' @ [newline], ''30-40 r-xp 0 8:1 9 /bin/sh'']"
    using fgets_lines_newline [of "''10-20 r-xp 0 8:1 7 /lib/liblmdb.so''" 510 "''30-40 r-xp 0 8:1 9 /bin/sh''"]
      fgets_lines_last [of "''30-40 r-xp 0 8:1 9 /bin/sh''" 510]
    by (simp add: newline_def)
  show ?thesis
    unfolding blacklist_of_def f
    by (simp add: List.map_filter_def blacklist_match_def scan_blacklist_line_def scan_x_def scan_s_def
        scan_lit_def skip_ws_def is_space_def is_hex_def hex_value_def hex_val_def newline_def Let_def)
qed

text \<open>The address blacklist is not cleared before it is parsed again: a second run over the
  same maps file, as the initialisation after a \<open>fork\<close> does, appends every range a second time.\<close>

theorem blacklist_reparse_duplicates:
  assumes "x_getenv X ''MTT_LIB_BLACKLIST_FAST'' = Some env" "blacklist_tokens env \<noteq> []"
    and "x_maps X (g_ext w) = Some text" "g_blacklist_ranges w = []"
    and "2 * length (blacklist_of env text) \<le> MTT_BLACKLIST_RANGES_MAX"
  shows "g_blacklist_ranges (mtt_parse_blacklist_fast X (mtt_parse_blacklist_fast X w)) =
     blacklist_of env text @ blacklist_of env text"
proof -
  have r: "g_blacklist_ranges (mtt_parse_blacklist_fast X w) = blacklist_of env text"
    using parse_blacklist_ranges(1) [OF assms(1-3)] assms(4,5) by simp
  have e: "x_maps X (g_ext (mtt_parse_blacklist_fast X w)) = Some text"
    using parse_blacklist_ranges(3) [OF assms(1-3)] assms(3,4) by simp
  show ?thesis using parse_blacklist_ranges(1) [OF assms(1,2) e] assms(5) by (simp add: r)
qed

theorem blacklist_reparse_duplicates_witness:
  "g_blacklist_ranges (mtt_parse_blacklist_fast blacklist_ext
     (mtt_parse_blacklist_fast blacklist_ext demo_world)) = [(0x10, 0x20), (0x10, 0x20)]"
  using blacklist_reparse_duplicates [of blacklist_ext "''lmdb''" demo_world]
  by (simp add: blacklist_ext_of [simplified] MTT_BLACKLIST_RANGES_MAX_def demo_world_def)

end
