(* ===== verification/Unwind.thy ===== *)
theory Unwind
  imports Per_Thread Proc_Maps
begin

text \<open>
  Stack capture: the signal-protected unwinders of \<^verbatim>\<open>unwind_libunwind.c\<close> (the
  statically linked stepping unwinder, the dynamically loaded one, and the protected
  \<open>backtrace\<close>) and \<open>mtt_capture_stack\<close> of \<^verbatim>\<open>tracker.c\<close>, which tries them in order and
  ends with the frame-pointer chain. A fault inside the unwinder is an event of the
  external unwinder; \<open>siglongjmp\<close> back to \<open>sigsetjmp\<close> is the branch the model takes on it.
\<close>

section \<open>Protection\<close>

definition mtt_libunwind_thread_disabled :: "int \<Rightarrow> 'l world \<Rightarrow> bool" where
  "mtt_libunwind_thread_disabled tid w = g_unw_disabled w tid"

definition mtt_libunwind_disable_this_thread :: "int \<Rightarrow> 'l world \<Rightarrow> 'l world" where
  "mtt_libunwind_disable_this_thread tid w = w\<lparr>g_unw_disabled := (g_unw_disabled w)(tid := True)\<rparr>"

text \<open>
  The handler: inside a protected call the fault jumps back (\<open>Some sig\<close>), otherwise
  the default action is restored and the signal raised again, which ends the process.
\<close>

definition mtt_unwind_crash_handler :: "int \<Rightarrow> 'l world \<Rightarrow> int option \<times> 'l world" where
  "mtt_unwind_crash_handler sig w =
     (if g_in_unwind_call w then (Some sig, w\<lparr>g_in_unwind_call := False\<rparr>)
      else (None, w\<lparr>g_hung := True\<rparr>))"

text \<open>Entering and leaving a protected call: the mutex, the two signal actions and the flag.\<close>

definition protect_enter :: "'l world \<Rightarrow> (sighandler \<times> sighandler) \<times> 'l world" where
  "protect_enter w =
     (let w = w\<lparr>g_hung := (g_hung w \<or> g_unwind_mutex w), g_unwind_mutex := True\<rparr>
      in ((g_segv_handler w, g_bus_handler w),
          w\<lparr>g_segv_handler := SH_MTT, g_bus_handler := SH_MTT, g_in_unwind_call := True\<rparr>))"

definition protect_leave :: "sighandler \<times> sighandler \<Rightarrow> 'l world \<Rightarrow> 'l world" where
  "protect_leave old w =
     w\<lparr>g_in_unwind_call := False, g_segv_handler := fst old, g_bus_handler := snd old,
       g_unwind_mutex := False\<rparr>"

section \<open>The stepping unwinder (static build)\<close>

text \<open>Writing \<open>fs\<close> to the first elements of the frame array.\<close>

definition write_frames :: "ptr list \<Rightarrow> ptr list \<Rightarrow> ptr list" where
  "write_frames fs st = fs @ drop (length fs) st"

text \<open>
  \<open>mtt_unwind_step_loop\<close> from frame \<open>n\<close> with \<open>k\<close> iterations left: the frames stored,
  and the signal if a step faults.
\<close>

fun mtt_unwind_step_loop :: "(nat \<Rightarrow> unw_event) \<Rightarrow> nat \<Rightarrow> nat \<Rightarrow> ptr list \<times> int option" where
  "mtt_unwind_step_loop ev n 0 = ([], None)"
| "mtt_unwind_step_loop ev n (Suc k) =
     (case ev n of
        UNW_FRAME pc \<Rightarrow> let (fs, c) = mtt_unwind_step_loop ev (Suc n) k in (pc # fs, c)
      | UNW_STOP \<Rightarrow> ([], None)
      | UNW_NOREG \<Rightarrow> ([], None)
      | UNW_CRASH sig \<Rightarrow> ([], Some sig))"

definition mtt_libunwind_available :: "int \<Rightarrow> 'l world \<Rightarrow> bool" where
  "mtt_libunwind_available tid w \<longleftrightarrow> \<not> mtt_libunwind_thread_disabled tid w"

definition mtt_libunwind_capture ::
  "'l ext \<Rightarrow> int \<Rightarrow> ptr list \<Rightarrow> int \<Rightarrow> 'l world \<Rightarrow> int \<times> ptr list \<times> 'l world" where
  "mtt_libunwind_capture X tid frames max_frames w =
     (if max_frames \<le> 0 then (- 1, frames, w)
      else if mtt_libunwind_thread_disabled tid w then (- 1, frames, w)
      else
        let (old, w) = protect_enter w;
            (fs, crash) = (if x_unw_context X (g_ext w)
                           then mtt_unwind_step_loop (x_unw_steps X (g_ext w)) 0 (nat max_frames)
                           else ([], None));
            (crashed, w) = (case crash of
                              None \<Rightarrow> (False, w)
                            | Some sig \<Rightarrow> let (j, w) = mtt_unwind_crash_handler sig w in (j \<noteq> None, w));
            w = protect_leave old w;
            n = int (length fs)
        in if crashed then
             let w = mtt_libunwind_disable_this_thread tid w
             in if n \<ge> 1 then (n, write_frames (map MTT_FIX_THUMB_ADDR fs) frames, w)
                else (- 1, frames, w)
           else (n, write_frames (map MTT_FIX_THUMB_ADDR fs) frames, w))"

section \<open>The dynamically loaded unwinder\<close>

definition unwind_sonames :: "string list" where
  "unwind_sonames = [''libunwind.so.8'', ''libunwind.so.7'', ''libunwind.so'',
     ''libunwind-aarch64.so.8'', ''libunwind-arm.so.8'']"

definition unwind_symbols :: "string list" where
  "unwind_symbols = [''unw_backtrace'', ''_UL_backtrace'', ''_U_backtrace'']"

fun dlopen_first :: "'l ext \<Rightarrow> string list \<Rightarrow> (string \<Rightarrow> bool) option" where
  "dlopen_first X [] = None"
| "dlopen_first X (n # ns) =
     (case x_dlopen_unwind X n of Some h \<Rightarrow> Some h | None \<Rightarrow> dlopen_first X ns)"

definition try_load_libunwind :: "'l ext \<Rightarrow> 'l world \<Rightarrow> 'l world" where
  "try_load_libunwind X w =
     (case dlopen_first X unwind_sonames of
        None \<Rightarrow> w\<lparr>g_libunwind_available := - 1\<rparr>
      | Some h \<Rightarrow> if list_ex h unwind_symbols then w\<lparr>g_libunwind_available := 1\<rparr>
                  else w\<lparr>g_libunwind_available := - 1\<rparr>)"

definition libunwind_load_once :: "'l ext \<Rightarrow> 'l world \<Rightarrow> 'l world" where
  "libunwind_load_once X w =
     (if g_libunwind_once w then w else (try_load_libunwind X w)\<lparr>g_libunwind_once := True\<rparr>)"

definition mtt_libunwind_available_dl :: "'l ext \<Rightarrow> int \<Rightarrow> 'l world \<Rightarrow> bool \<times> 'l world" where
  "mtt_libunwind_available_dl X tid w =
     (if mtt_libunwind_thread_disabled tid w then (False, w)
      else let w = libunwind_load_once X w in (g_libunwind_available w = 1, w))"

text \<open>A call that may fault, run under the protection: its frames, or nothing after a fault.\<close>

definition protected_backtrace :: "bt_result \<Rightarrow> 'l world \<Rightarrow> ptr list \<times> bool \<times> 'l world" where
  "protected_backtrace r w =
     (let (old, w) = protect_enter w;
          (fs, crashed, w) = (case r of
              BT_FRAMES fs \<Rightarrow> (fs, False, w)
            | BT_NEGATIVE \<Rightarrow> ([], False, w)
            | BT_CRASH sig \<Rightarrow> let (j, w) = mtt_unwind_crash_handler sig w in ([], j \<noteq> None, w))
      in (fs, crashed, protect_leave old w))"

definition mtt_libunwind_capture_dl ::
  "'l ext \<Rightarrow> int \<Rightarrow> ptr list \<Rightarrow> int \<Rightarrow> 'l world \<Rightarrow> int \<times> ptr list \<times> 'l world" where
  "mtt_libunwind_capture_dl X tid frames max_frames w =
     (if max_frames \<le> 0 then (- 1, frames, w)
      else if mtt_libunwind_thread_disabled tid w then (- 1, frames, w)
      else
        let w = libunwind_load_once X w
        in if g_libunwind_available w \<noteq> 1 then (- 1, frames, w)
           else
             let (fs, crashed, w) = protected_backtrace (x_unw_backtrace X (g_ext w) (nat max_frames)) w
             in if crashed then (- 1, frames, mtt_libunwind_disable_this_thread tid w)
                else (int (length fs), write_frames (map MTT_FIX_THUMB_ADDR fs) frames, w))"

definition mtt_safe_backtrace ::
  "'l ext \<Rightarrow> ptr list \<Rightarrow> int \<Rightarrow> 'l world \<Rightarrow> int \<times> ptr list \<times> 'l world" where
  "mtt_safe_backtrace X frames max_frames w =
     (if max_frames \<le> 0 then (0, frames, w)
      else
        let (fs, crashed, w) = protected_backtrace (x_backtrace X (g_ext w) (nat max_frames)) w
        in if crashed then (0, frames, w) else (int (length fs), write_frames fs frames, w))"

section \<open>mtt_capture_stack (tracker.c)\<close>

text \<open>The unprotected \<open>backtrace\<close>: a fault ends the process.\<close>

definition backtrace :: "'l ext \<Rightarrow> ptr list \<Rightarrow> int \<Rightarrow> 'l world \<Rightarrow> int \<times> ptr list \<times> 'l world" where
  "backtrace X frames max_frames w =
     (case x_backtrace X (g_ext w) (nat max_frames) of
        BT_FRAMES fs \<Rightarrow> (int (length fs), write_frames fs frames, w)
      | BT_NEGATIVE \<Rightarrow> (- 1, frames, w)
      | BT_CRASH sig \<Rightarrow> (0, frames, w\<lparr>g_hung := True\<rparr>))"

text \<open>The frame-pointer chain from \<open>fp\<close>, at most \<open>k\<close> more frames.\<close>

fun fp_chain :: "'l ext \<Rightarrow> nat \<Rightarrow> ptr \<Rightarrow> 'l world \<Rightarrow> ptr list \<times> 'l world" where
  "fp_chain X 0 fp w = ([], w)"
| "fp_chain X (Suc k) fp w =
     (if fp = NULL then ([], w)
      else
        let prev_fp = x_stack_word X (g_ext w) fp;
            lr = x_stack_word X (g_ext w) (fp + 8)
        in if lr = NULL then ([], w)
           else if prev_fp = NULL then ([], w)
           else
             let (ok, w) = mtt_addr_is_executable X (MTT_FIX_THUMB_ADDR lr) w
             in if \<not> ok then ([], w)
                else if prev_fp \<le> fp then ([], w)
                else if prev_fp - fp > push_bit 16 1 then ([], w)
                else let (fs, w) = fp_chain X k prev_fp w in (MTT_FIX_THUMB_ADDR lr # fs, w))"

definition set_stack :: "ptr \<Rightarrow> ptr list \<Rightarrow> int \<Rightarrow> 'l world \<Rightarrow> 'l world" where
  "set_stack e st n w = upd_entry e (\<lambda>r. r\<lparr>e_stack := st, e_stack_frames := n\<rparr>) w"

text \<open>The attempt with libunwind: \<open>Some\<close> when it yields at least two frames.\<close>

definition capture_libunwind ::
  "'l ext \<Rightarrow> int \<Rightarrow> ptr list \<Rightarrow> 'l world \<Rightarrow> (int \<times> ptr list) option \<times> ptr list \<times> bool \<times> 'l world" where
  "capture_libunwind X tid st w =
     (let disabled = mtt_libunwind_thread_disabled tid w
      in if g_unwinder_mode w \<noteq> 2 \<and> \<not> disabled \<and> mtt_libunwind_available tid w then
           let (n, st, w) = mtt_libunwind_capture X tid st (g_max_stack_frames w) w
           in if n \<ge> 2 then (Some (n, st), st, disabled, w)
              else (None, st, mtt_libunwind_thread_disabled tid w, w)
         else (None, st, disabled, w))"

definition capture_backtrace ::
  "'l ext \<Rightarrow> bool \<Rightarrow> ptr list \<Rightarrow> 'l world \<Rightarrow> int \<times> ptr list \<times> 'l world" where
  "capture_backtrace X disabled st w =
     (let (n, st, w) = (if \<not> disabled then backtrace X st (g_max_stack_frames w) w
                        else mtt_safe_backtrace X st (g_max_stack_frames w) w);
          n = (if n < 0 then 0 else n)
      in (n, map MTT_FIX_THUMB_ADDR (take (nat n) st) @ drop (nat n) st, w))"

text \<open>
  The build with the static libunwind, the default of the Makefile. A \<open>backtrace\<close> or a dynamically loaded
  unwinder that crashes leaves the array as it was; frames it may have stored before are not modelled.
\<close>

definition mtt_capture_stack :: "'l ext \<Rightarrow> int \<Rightarrow> ptr \<Rightarrow> 'l world \<Rightarrow> 'l world" where
  "mtt_capture_stack X tid e w =
     (if e = NULL then w
      else
        let (ctx, w) = mtt_thread_get X tid w in
        case ctx of
          None \<Rightarrow> upd_entry e (\<lambda>r. r\<lparr>e_stack_frames := 0\<rparr>) w
        | Some i \<Rightarrow>
            if t_in_capture (g_threads w i) \<noteq> 0 then upd_entry e (\<lambda>r. r\<lparr>e_stack_frames := 0\<rparr>) w
            else
              let saved = t_in_capture (g_threads w i);
                  w = upd_slot i (\<lambda>t. t\<lparr>t_in_capture := 1\<rparr>) w;
                  (r, st, disabled, w) = capture_libunwind X tid (e_stack (g_entries w e)) w
              in case r of
                   Some (n, st) \<Rightarrow> upd_slot i (\<lambda>t. t\<lparr>t_in_capture := saved\<rparr>) (set_stack e st n w)
                 | None \<Rightarrow>
                     let (n, st, w) = capture_backtrace X disabled st w;
                         (fs, w) = (if n = 0 then fp_chain X MTT_STACK_DEPTH (x_frame_address X (g_ext w)) w
                                    else ([], w));
                         w = (if fs \<noteq> [] then set_stack e (write_frames fs st) (int (length fs)) w
                              else set_stack e st n w)
                     in upd_slot i (\<lambda>t. t\<lparr>t_in_capture := saved\<rparr>) w)"

section \<open>The contract of the unwinders\<close>

text \<open>The protection is idle: no call is in progress.\<close>

definition prot_idle :: "'l world \<Rightarrow> bool" where
  "prot_idle w \<longleftrightarrow> \<not> g_unwind_mutex w \<and> \<not> g_in_unwind_call w"

text \<open>What a capture may change: the protection, the loader's state, and the threads it disables.\<close>

definition same_tracking :: "'l world \<Rightarrow> 'l world \<Rightarrow> bool" where
  "same_tracking w w' \<longleftrightarrow>
     g_state w' = g_state w \<and> g_entries w' = g_entries w \<and> g_threads w' = g_threads w \<and>
     g_mem w' = g_mem w \<and> g_ext w' = g_ext w \<and> raw_malloc w' = raw_malloc w \<and>
     raw_free w' = raw_free w \<and> raw_calloc w' = raw_calloc w \<and> raw_realloc w' = raw_realloc w \<and>
     env_of w' = env_of w"

text \<open>
  An unwinder leaves the process as it found it: the mutex released, the signal
  actions of the application back in place, the flag of the handler cleared, the
  tracked state untouched, whether or not it faulted inside.
\<close>

locale protected_unwinder =
  fixes capture :: "ptr list \<Rightarrow> int \<Rightarrow> 'l world \<Rightarrow> int \<times> ptr list \<times> 'l world"
  assumes cap_idle: "prot_idle w \<Longrightarrow> capture st m w = (n, st', w') \<Longrightarrow>
      prot_idle w' \<and> g_segv_handler w' = g_segv_handler w \<and> g_bus_handler w' = g_bus_handler w \<and>
      g_hung w' = g_hung w"
    and cap_tracking: "capture st m w = (n, st', w') \<Longrightarrow> same_tracking w w'"
    and cap_none: "m \<le> 0 \<Longrightarrow> capture st m w = (n, st', w') \<Longrightarrow> n \<le> 0 \<and> st' = st \<and> w' = w"
begin

text \<open>Any number of captures in a row.\<close>

primrec captures :: "(ptr list \<times> int) list \<Rightarrow> 'l world \<Rightarrow> 'l world" where
  "captures [] w = w"
| "captures (c # cs) w = captures cs (snd (snd (capture (fst c) (snd c) w)))"

lemma captures_restore:
  assumes "prot_idle w"
  shows "prot_idle (captures cs w) \<and> g_segv_handler (captures cs w) = g_segv_handler w \<and>
    g_bus_handler (captures cs w) = g_bus_handler w \<and> g_hung (captures cs w) = g_hung w \<and>
    same_tracking w (captures cs w)"
  using assms
proof (induction cs arbitrary: w)
  case Nil
  then show ?case by (simp add: same_tracking_def)
next
  case (Cons c cs)
  obtain n st' w' where c: "capture (fst c) (snd c) w = (n, st', w')"
    by (cases "capture (fst c) (snd c) w")
  show ?case
    using Cons.IH [of w'] cap_idle [OF Cons.prems c] cap_tracking [OF c]
    by (simp add: c same_tracking_def)
qed

end

lemma protect_leave_enter:
  assumes "protect_enter w = (old, w1)" "prot_idle w"
  shows "old = (g_segv_handler w, g_bus_handler w)" "g_hung w1 = g_hung w" "g_in_unwind_call w1"
  using assms by (auto simp: protect_enter_def prot_idle_def)

lemma same_tracking_simps [simp]:
  "same_tracking w (w\<lparr>g_unw_disabled := d\<rparr>)"
  "same_tracking w w"
  "same_tracking w (w\<lparr>g_libunwind_available := a, g_libunwind_once := b\<rparr>)"
  by (simp_all add: same_tracking_def env_of_def)

interpretation static_unw: protected_unwinder "mtt_libunwind_capture X tid"
  for X :: "'l ext" and tid
proof unfold_locales
  fix w w' :: "'l world" and st st' m n
  assume c: "mtt_libunwind_capture X tid st m w = (n, st', w')"
  show "prot_idle w' \<and> g_segv_handler w' = g_segv_handler w \<and> g_bus_handler w' = g_bus_handler w \<and>
      g_hung w' = g_hung w" if "prot_idle w"
    using c that
    by (auto simp: mtt_libunwind_capture_def protect_enter_def protect_leave_def prot_idle_def
        mtt_unwind_crash_handler_def mtt_libunwind_disable_this_thread_def Let_def
        split: if_splits option.splits prod.splits)
  show "same_tracking w w'"
    using c
    by (auto simp: mtt_libunwind_capture_def protect_enter_def protect_leave_def same_tracking_def env_of_def
        mtt_unwind_crash_handler_def mtt_libunwind_disable_this_thread_def Let_def
        split: if_splits option.splits prod.splits)
  show "n \<le> 0 \<and> st' = st \<and> w' = w" if "m \<le> 0"
    using c that by (auto simp: mtt_libunwind_capture_def)
qed

lemma protected_backtrace_restores:
  assumes "protected_backtrace r w = (fs, crashed, w')"
  shows "prot_idle w \<Longrightarrow> prot_idle w' \<and> g_segv_handler w' = g_segv_handler w \<and>
      g_bus_handler w' = g_bus_handler w \<and> g_hung w' = g_hung w"
    and "same_tracking w w'" and "r = BT_FRAMES gs \<Longrightarrow> fs = gs \<and> \<not> crashed"
    and "\<forall>gs. r \<noteq> BT_FRAMES gs \<Longrightarrow> fs = []"
    and "g_max_stack_frames w' = g_max_stack_frames w"
  using assms
  by (auto simp: protected_backtrace_def protect_enter_def protect_leave_def prot_idle_def
      same_tracking_def env_of_def mtt_unwind_crash_handler_def Let_def split: bt_result.splits prod.splits)

lemma load_once_restores [simp]:
  "prot_idle (libunwind_load_once X w) = prot_idle w"
  "g_segv_handler (libunwind_load_once X w) = g_segv_handler w"
  "g_bus_handler (libunwind_load_once X w) = g_bus_handler w"
  "g_hung (libunwind_load_once X w) = g_hung w"
  "same_tracking (libunwind_load_once X w) w' = same_tracking w w'"
  by (auto simp: libunwind_load_once_def try_load_libunwind_def prot_idle_def same_tracking_def env_of_def
      split: option.splits)

lemma disable_restores [simp]:
  "prot_idle (mtt_libunwind_disable_this_thread tid w) = prot_idle w"
  "g_segv_handler (mtt_libunwind_disable_this_thread tid w) = g_segv_handler w"
  "g_bus_handler (mtt_libunwind_disable_this_thread tid w) = g_bus_handler w"
  "g_hung (mtt_libunwind_disable_this_thread tid w) = g_hung w"
  "same_tracking v (mtt_libunwind_disable_this_thread tid w) = same_tracking v w"
  by (simp_all add: mtt_libunwind_disable_this_thread_def prot_idle_def same_tracking_def env_of_def)

interpretation dl_unw: protected_unwinder "mtt_libunwind_capture_dl X tid"
  for X :: "'l ext" and tid
proof unfold_locales
  fix w w' :: "'l world" and st st' m n
  assume c: "mtt_libunwind_capture_dl X tid st m w = (n, st', w')"
  define v where "v = libunwind_load_once X w"
  obtain fs cr u where p: "protected_backtrace (x_unw_backtrace X (g_ext v) (nat m)) v = (fs, cr, u)"
    by (cases "protected_backtrace (x_unw_backtrace X (g_ext v) (nat m)) v")
  note pr = protected_backtrace_restores [OF p]
  have w': "w' = w \<or> w' = v \<or> w' = u \<or> w' = mtt_libunwind_disable_this_thread tid u"
    using c by (auto simp: mtt_libunwind_capture_dl_def v_def [symmetric] p Let_def split: if_splits)
  show "prot_idle w' \<and> g_segv_handler w' = g_segv_handler w \<and> g_bus_handler w' = g_bus_handler w \<and>
      g_hung w' = g_hung w" if "prot_idle w"
    using w' pr(1) that by (auto simp: v_def)
  have "same_tracking w v" using load_once_restores(5) [of X w v] by (simp add: v_def)
  then show "same_tracking w w'" using w' pr(2) by (auto simp: v_def)
  show "n \<le> 0 \<and> st' = st \<and> w' = w" if "m \<le> 0"
    using c that by (auto simp: mtt_libunwind_capture_dl_def)
qed

interpretation safe_bt: protected_unwinder "mtt_safe_backtrace X" for X :: "'l ext"
proof unfold_locales
  fix w w' :: "'l world" and st st' m n
  assume c: "mtt_safe_backtrace X st m w = (n, st', w')"
  obtain fs cr u where p: "protected_backtrace (x_backtrace X (g_ext w) (nat m)) w = (fs, cr, u)"
    by (cases "protected_backtrace (x_backtrace X (g_ext w) (nat m)) w")
  note pr = protected_backtrace_restores [OF p]
  have w': "w' = w \<or> w' = u" using c by (auto simp: mtt_safe_backtrace_def p split: if_splits)
  show "prot_idle w' \<and> g_segv_handler w' = g_segv_handler w \<and> g_bus_handler w' = g_bus_handler w \<and>
      g_hung w' = g_hung w" if "prot_idle w"
    using w' pr(1) that by auto
  show "same_tracking w w'" using w' pr(2) by auto
  show "n \<le> 0 \<and> st' = st \<and> w' = w" if "m \<le> 0"
    using c that by (auto simp: mtt_safe_backtrace_def)
qed

section \<open>Frames\<close>

text \<open>The first \<open>n\<close> of 64 frames are filled in, with the Thumb bit cleared.\<close>

definition frames_ok :: "ptr list \<Rightarrow> int \<Rightarrow> bool" where
  "frames_ok st n \<longleftrightarrow>
     length st = MTT_STACK_DEPTH \<and> 0 \<le> n \<and> n \<le> int MTT_STACK_DEPTH \<and> list_all even (take (nat n) st)"

text \<open>\<open>backtrace\<close> stores at most as many frames as it is asked for.\<close>

definition bt_bounded :: "'l ext \<Rightarrow> bool" where
  "bt_bounded X \<longleftrightarrow> (\<forall>l m fs. x_backtrace X l m = BT_FRAMES fs \<longrightarrow> length fs \<le> m)"

lemma length_write_frames: "length fs \<le> length st \<Longrightarrow> length (write_frames fs st) = length st"
  by (simp add: write_frames_def)

lemma take_write_frames [simp]: "take (length fs) (write_frames fs st) = fs"
  by (simp add: write_frames_def)

lemma fix_all_even: "list_all even (map MTT_FIX_THUMB_ADDR fs)"
  by (simp add: list_all_iff fix_thumb_even)

lemma step_loop_length: "length (fst (mtt_unwind_step_loop ev n k)) \<le> k"
  by (induction k arbitrary: n) (auto split: unw_event.split simp: case_prod_beta)

lemma static_capture_frames:
  assumes "mtt_libunwind_capture X tid st m w = (n, st', w')" "length st = MTT_STACK_DEPTH"
    and "m \<le> int MTT_STACK_DEPTH"
  shows "length st' = MTT_STACK_DEPTH" "0 \<le> n \<Longrightarrow> frames_ok st' n"
proof -
  obtain fs cr where l: "(if x_unw_context X (g_ext w)
      then mtt_unwind_step_loop (x_unw_steps X (g_ext w)) 0 (nat m) else ([], None)) = (fs, cr)"
    by fastforce
  then have len: "length fs \<le> nat m"
    using step_loop_length [of "x_unw_steps X (g_ext w)" 0 "nat m"] by (auto split: if_splits)
  have st': "st' = st \<and> n = - 1 \<or>
      st' = write_frames (map MTT_FIX_THUMB_ADDR fs) st \<and> n = int (length fs)"
    using assms(1) l
    by (auto simp: mtt_libunwind_capture_def protect_enter_def Let_def
        split: if_splits prod.splits option.splits)
  have w: "length (write_frames (map MTT_FIX_THUMB_ADDR fs) st) = MTT_STACK_DEPTH"
    using len assms(2,3) by (subst length_write_frames) auto
  show "length st' = MTT_STACK_DEPTH" using st' w assms(2) by auto
  show "frames_ok st' n" if "0 \<le> n"
    using st' w that len assms(3) take_write_frames [of "map MTT_FIX_THUMB_ADDR fs" st] fix_all_even
    by (auto simp: frames_ok_def)
qed

lemma capture_backtrace_frames:
  assumes "capture_backtrace X disabled st w = (n, st', w')" "bt_bounded X"
    and "length st = MTT_STACK_DEPTH" "g_max_stack_frames w \<le> int MTT_STACK_DEPTH"
  shows "frames_ok st' n"
proof -
  obtain n0 st0 w0 where b: "(if \<not> disabled then backtrace X st (g_max_stack_frames w) w
      else mtt_safe_backtrace X st (g_max_stack_frames w) w) = (n0, st0, w0)"
    by (metis prod_cases3)
  obtain fs cr u where p:
    "protected_backtrace (x_backtrace X (g_ext w) (nat (g_max_stack_frames w))) w = (fs, cr, u)"
    by (cases "protected_backtrace (x_backtrace X (g_ext w) (nat (g_max_stack_frames w))) w")
  have len: "length fs \<le> nat (g_max_stack_frames w)"
    using protected_backtrace_restores(3,4) [OF p] assms(2) unfolding bt_bounded_def
    by (cases "x_backtrace X (g_ext w) (nat (g_max_stack_frames w))") auto
  have "length st0 = MTT_STACK_DEPTH \<and> n0 \<le> int MTT_STACK_DEPTH"
  proof (cases disabled)
    case True
    with b p len assms(3,4) show ?thesis
      by (auto simp: mtt_safe_backtrace_def length_write_frames split: if_splits)
  next
    case False
    with b len assms(3,4) protected_backtrace_restores(3) [OF p] show ?thesis
      by (cases "x_backtrace X (g_ext w) (nat (g_max_stack_frames w))")
        (auto simp: backtrace_def length_write_frames)
  qed
  moreover have "n = (if n0 < 0 then 0 else n0)"
    "st' = map MTT_FIX_THUMB_ADDR (take (nat n) st0) @ drop (nat n) st0"
    using assms(1) b by (auto simp: capture_backtrace_def Let_def)
  ultimately show ?thesis
    using fix_all_even [of "take (nat n) st0"] by (auto simp: frames_ok_def)
qed

lemma fp_chain_frames: "length (fst (fp_chain X k fp w)) \<le> k \<and> list_all even (fst (fp_chain X k fp w))"
  by (induction k arbitrary: fp w)
    (auto simp: Let_def case_prod_beta fix_thumb_even)

section \<open>What a capture leaves unchanged\<close>

text \<open>A capture into record \<open>e\<close> changes nothing of the tracking state but the frames of \<open>e\<close>.\<close>

definition only_frames :: "ptr \<Rightarrow> 'l world \<Rightarrow> 'l world \<Rightarrow> bool" where
  "only_frames e w w' \<longleftrightarrow>
     g_state w' = g_state w \<and> g_mem w' = g_mem w \<and> g_ext w' = g_ext w \<and>
     raw_malloc w' = raw_malloc w \<and> raw_free w' = raw_free w \<and>
     raw_calloc w' = raw_calloc w \<and> raw_realloc w' = raw_realloc w \<and> env_of w' = env_of w \<and>
     g_tls_ctx w' = g_tls_ctx w \<and> g_tls_cached_tid w' = g_tls_cached_tid w \<and>
     (\<exists>st n. g_entries w' = (g_entries w)(e := (g_entries w e)\<lparr>e_stack := st, e_stack_frames := n\<rparr>))"

lemma addr_executable_frame:
  assumes "mtt_addr_is_executable X a w = (b, w')"
  shows "\<exists>rs q. w' = w\<lparr>g_exec_ranges := rs, g_exec_once := q\<rparr>"
proof (intro exI)
  show "w' = w\<lparr>g_exec_ranges := g_exec_ranges w', g_exec_once := g_exec_once w'\<rparr>"
    using assms
    by (auto simp: mtt_addr_is_executable_def mtt_addr_validate_init_def parse_maps_locked_def Let_def
        split: if_splits option.splits)
qed

lemma fp_chain_frame: "\<exists>rs q. snd (fp_chain X k fp w) = w\<lparr>g_exec_ranges := rs, g_exec_once := q\<rparr>"
proof (induction k arbitrary: fp w)
  case 0
  have "w = w\<lparr>g_exec_ranges := g_exec_ranges w, g_exec_once := g_exec_once w\<rparr>" by simp
  then show ?case by (metis fp_chain.simps(1) snd_conv)
next
  case (Suc k)
  have self: "\<exists>rs q. w = w\<lparr>g_exec_ranges := rs, g_exec_once := q\<rparr>"
    by (rule exI [of _ "g_exec_ranges w"], rule exI [of _ "g_exec_once w"]) simp
  obtain ok v where a: "mtt_addr_is_executable X
      (MTT_FIX_THUMB_ADDR (x_stack_word X (g_ext w) (fp + 8))) w = (ok, v)"
    by (cases "mtt_addr_is_executable X (MTT_FIX_THUMB_ADDR (x_stack_word X (g_ext w) (fp + 8))) w")
  obtain rs p where v: "v = w\<lparr>g_exec_ranges := rs, g_exec_once := p\<rparr>"
    using addr_executable_frame [OF a] by blast
  have "snd (fp_chain X (Suc k) fp w) = w \<or> snd (fp_chain X (Suc k) fp w) = v \<or>
      (\<exists>q. snd (fp_chain X (Suc k) fp w) = snd (fp_chain X k q v))"
    by (auto simp: Let_def a case_prod_beta)
  then show ?case using self v Suc.IH [of _ v] by fastforce
qed

lemma capture_libunwind_frame:
  assumes "capture_libunwind X tid st w = (r, st', d, w')"
  shows "same_tracking w w'" "g_tls_ctx w' = g_tls_ctx w" "g_tls_cached_tid w' = g_tls_cached_tid w"
    "g_max_stack_frames w' = g_max_stack_frames w"
proof -
  obtain n st1 w1 where c:
    "mtt_libunwind_capture X tid st (g_max_stack_frames w) w = (n, st1, w1)"
    by (metis prod_cases3)
  have "g_tls_ctx w1 = g_tls_ctx w \<and> g_tls_cached_tid w1 = g_tls_cached_tid w \<and>
      g_max_stack_frames w1 = g_max_stack_frames w"
    using c
    by (auto simp: mtt_libunwind_capture_def protect_enter_def protect_leave_def
        mtt_unwind_crash_handler_def mtt_libunwind_disable_this_thread_def Let_def
        split: if_splits option.splits prod.splits)
  then show "same_tracking w w'" "g_tls_ctx w' = g_tls_ctx w"
    "g_tls_cached_tid w' = g_tls_cached_tid w" "g_max_stack_frames w' = g_max_stack_frames w"
    using assms static_unw.cap_tracking [OF c]
    by (auto simp: capture_libunwind_def Let_def c split: if_splits)
qed

lemma capture_backtrace_frame:
  assumes "capture_backtrace X d st w = (n, st', w')"
  shows "same_tracking w w'" "g_tls_ctx w' = g_tls_ctx w" "g_tls_cached_tid w' = g_tls_cached_tid w"
proof -
  obtain fs cr u where p:
    "protected_backtrace (x_backtrace X (g_ext w) (nat (g_max_stack_frames w))) w = (fs, cr, u)"
    by (cases "protected_backtrace (x_backtrace X (g_ext w) (nat (g_max_stack_frames w))) w")
  have u: "g_tls_ctx u = g_tls_ctx w" "g_tls_cached_tid u = g_tls_cached_tid w"
    using p by (auto simp: protected_backtrace_def protect_enter_def protect_leave_def
        mtt_unwind_crash_handler_def Let_def split: bt_result.splits)
  have "w' = w \<or> w' = w\<lparr>g_hung := True\<rparr> \<or> w' = u"
    using assms p
    by (auto simp: capture_backtrace_def backtrace_def mtt_safe_backtrace_def Let_def
        split: if_splits bt_result.splits prod.splits)
  then show "same_tracking w w'" "g_tls_ctx w' = g_tls_ctx w"
    "g_tls_cached_tid w' = g_tls_cached_tid w"
    using protected_backtrace_restores(2) [OF p] u by (auto simp: same_tracking_def env_of_def)
qed

lemma same_ranges:
  "same_tracking w (u\<lparr>g_exec_ranges := rs, g_exec_once := q\<rparr>) = same_tracking w u"
  "g_tls_ctx (u\<lparr>g_exec_ranges := rs, g_exec_once := q\<rparr>) = g_tls_ctx u"
  "g_tls_cached_tid (u\<lparr>g_exec_ranges := rs, g_exec_once := q\<rparr>) = g_tls_cached_tid u"
  by (simp_all add: same_tracking_def env_of_def)

lemma capture_stack_shape:
  assumes "e \<noteq> NULL" "mtt_thread_get X tid w = (c, w1)"
  obtains (skip) "mtt_capture_stack X tid e w = upd_entry e (\<lambda>r. r\<lparr>e_stack_frames := 0\<rparr>) w1"
  | (captured) i st n w2 where
      "mtt_capture_stack X tid e w = upd_slot i (\<lambda>t. t\<lparr>t_in_capture := 0\<rparr>) (set_stack e st n w2)"
      "same_tracking (upd_slot i (\<lambda>t. t\<lparr>t_in_capture := 1\<rparr>) w1) w2" "g_tls_ctx w2 = g_tls_ctx w1"
      "g_tls_cached_tid w2 = g_tls_cached_tid w1" "t_in_capture (g_threads w1 i) = 0"
      "bt_bounded X \<Longrightarrow> length (e_stack (g_entries w1 e)) = MTT_STACK_DEPTH \<Longrightarrow>
         g_max_stack_frames w1 \<le> int MTT_STACK_DEPTH \<Longrightarrow> frames_ok st n"
proof (cases "\<exists>i. c = Some i \<and> t_in_capture (g_threads w1 i) = 0")
  case False
  then have "mtt_capture_stack X tid e w = upd_entry e (\<lambda>r. r\<lparr>e_stack_frames := 0\<rparr>) w1"
    using assms by (auto simp: mtt_capture_stack_def split: option.splits)
  then show thesis by (rule skip)
next
  case True
  then obtain i where i: "c = Some i" "t_in_capture (g_threads w1 i) = 0" by blast
  define wa where "wa = upd_slot i (\<lambda>t. t\<lparr>t_in_capture := 1\<rparr>) w1"
  obtain r st1 d wb where cl: "capture_libunwind X tid (e_stack (g_entries wa e)) wa = (r, st1, d, wb)"
    by (metis prod_cases4)
  note clf = capture_libunwind_frame [OF cl]
  have ea: "e_stack (g_entries wa e) = e_stack (g_entries w1 e)"
    "g_max_stack_frames wa = g_max_stack_frames w1" "g_tls_ctx wa = g_tls_ctx w1"
    "g_tls_cached_tid wa = g_tls_cached_tid w1"
    by (simp_all add: wa_def) (simp add: upd_slot_def)
  have st1: "length st1 = MTT_STACK_DEPTH \<and> (\<forall>n st. r = Some (n, st) \<longrightarrow> frames_ok st n)"
    if "length (e_stack (g_entries w1 e)) = MTT_STACK_DEPTH" "g_max_stack_frames w1 \<le> int MTT_STACK_DEPTH"
    using cl static_capture_frames [of X tid "e_stack (g_entries w1 e)" "g_max_stack_frames w1" wa] that ea
    by (auto simp: capture_libunwind_def Let_def split: if_splits prod.splits)
  show thesis
  proof (cases r)
    case (Some ns)
    then obtain n st where r: "r = Some (n, st)" by (cases ns) auto
    show thesis
      using assms i clf ea st1 r cl
      by (intro captured [of i st n wb])
        (simp_all add: mtt_capture_stack_def wa_def [symmetric] Let_def)
  next
    case None
    obtain n st wc where cb: "capture_backtrace X d st1 wb = (n, st, wc)" by (metis prod_cases3)
    note cbf = capture_backtrace_frame [OF cb]
    define fw where "fw = (if n = 0 then fp_chain X MTT_STACK_DEPTH (x_frame_address X (g_ext wc)) wc
                           else ([], wc))"
    obtain rs q where "snd (fp_chain X MTT_STACK_DEPTH (x_frame_address X (g_ext wc)) wc) =
        wc\<lparr>g_exec_ranges := rs, g_exec_once := q\<rparr>"
      using fp_chain_frame [of X MTT_STACK_DEPTH "x_frame_address X (g_ext wc)" wc] by blast
    then have fw: "snd fw = wc \<or> snd fw = wc\<lparr>g_exec_ranges := rs, g_exec_once := q\<rparr>"
      by (simp add: fw_def)
    define st2 n2 where "st2 = (if fst fw \<noteq> [] then write_frames (fst fw) st else st)"
      and "n2 = (if fst fw \<noteq> [] then int (length (fst fw)) else n)"
    have eq: "mtt_capture_stack X tid e w =
        upd_slot i (\<lambda>t. t\<lparr>t_in_capture := 0\<rparr>) (set_stack e st2 n2 (snd fw))"
      using assms i None cl cb
      by (simp add: mtt_capture_stack_def wa_def [symmetric] Let_def fw_def [symmetric] st2_def n2_def
          case_prod_beta)
    have ok: "frames_ok st2 n2" if "bt_bounded X" "length (e_stack (g_entries w1 e)) = MTT_STACK_DEPTH"
      "g_max_stack_frames w1 \<le> int MTT_STACK_DEPTH"
    proof -
      have "frames_ok st n"
        using capture_backtrace_frames [OF cb that(1)] st1 that clf ea by simp
      then show ?thesis
        using fp_chain_frames [of X MTT_STACK_DEPTH "x_frame_address X (g_ext wc)" wc]
          take_write_frames [of "fst fw" st] length_write_frames [of "fst fw" st]
        by (auto simp: frames_ok_def st2_def n2_def fw_def split: if_splits)
    qed
    have tw: "same_tracking wa wc" "g_tls_ctx wc = g_tls_ctx w1" "g_tls_cached_tid wc = g_tls_cached_tid w1"
      using clf cbf ea by (simp_all add: same_tracking_def env_of_def)
    have tr: "same_tracking wa (snd fw)" "g_tls_ctx (snd fw) = g_tls_ctx w1"
      "g_tls_cached_tid (snd fw) = g_tls_cached_tid w1"
      using tw fw by (metis (no_types, lifting) same_ranges)+
    show thesis by (rule captured [OF eq tr(1) [unfolded wa_def] tr(2,3) i(2) ok])
  qed
qed

lemma capture_stack_frame:
  assumes "e \<noteq> NULL"
  shows "only_frames e w (mtt_capture_stack X tid e w)"
    and "g_threads (mtt_capture_stack X tid e w) = g_threads (snd (mtt_thread_get X tid w))"
proof -
  obtain c w1 where g: "mtt_thread_get X tid w = (c, w1)" by (cases "mtt_thread_get X tid w")
  note g1 = thread_get_other_globals [OF g]
  have raw: "raw_malloc w1 = raw_malloc w" "raw_free w1 = raw_free w" "raw_calloc w1 = raw_calloc w"
    "raw_realloc w1 = raw_realloc w" "env_of w1 = env_of w"
    by (rule thread_get_cases [of X tid w]; use g in \<open>auto simp: upd_slot_def env_of_def\<close>)+
  have triv: "\<exists>st m. (g_entries w)(e := (g_entries w e)\<lparr>e_stack_frames := n\<rparr>) =
      (g_entries w)(e := (g_entries w e)\<lparr>e_stack := st, e_stack_frames := m\<rparr>)" for n
    by (rule exI [of _ "e_stack (g_entries w e)"], rule exI [of _ n]) simp
  show "only_frames e w (mtt_capture_stack X tid e w)"
  proof (rule capture_stack_shape [OF assms g])
    assume "mtt_capture_stack X tid e w = upd_entry e (\<lambda>r. r\<lparr>e_stack_frames := 0\<rparr>) w1"
    then show ?thesis using g1 raw triv by (simp add: only_frames_def upd_entry_def)
  next
    fix i st n w2
    assume "mtt_capture_stack X tid e w = upd_slot i (\<lambda>t. t\<lparr>t_in_capture := 0\<rparr>) (set_stack e st n w2)"
      "same_tracking (upd_slot i (\<lambda>t. t\<lparr>t_in_capture := 1\<rparr>) w1) w2" "g_tls_ctx w2 = g_tls_ctx w1"
      "g_tls_cached_tid w2 = g_tls_cached_tid w1"
    then show ?thesis using g1 raw
      by (auto simp: only_frames_def same_tracking_def set_stack_def upd_entry_def upd_slot_def env_of_def)
  qed
  show "g_threads (mtt_capture_stack X tid e w) = g_threads (snd (mtt_thread_get X tid w))"
    by (rule capture_stack_shape [OF assms g])
      (auto simp: g upd_entry_def set_stack_def same_tracking_def fun_eq_iff)
qed

section \<open>Properties\<close>

text \<open>C21. A captured stack fits its record: with a configured depth of at most 64 and a
  \<open>backtrace\<close> that stores no more frames than asked for, a capture by any of the unwinders
  leaves between 0 and 64 frames in the 64-element array, every frame with its Thumb bit
  cleared, and changes no other field of the record, no other record and nothing of the
  tracked state.\<close>

theorem capture_stack_bounded:
  assumes "e \<noteq> NULL" "bt_bounded X" "g_max_stack_frames w \<le> int MTT_STACK_DEPTH"
    and "length (e_stack (g_entries w e)) = MTT_STACK_DEPTH"
  shows "frames_ok (e_stack (g_entries (mtt_capture_stack X tid e w) e))
           (e_stack_frames (g_entries (mtt_capture_stack X tid e w) e))
       \<and> only_frames e w (mtt_capture_stack X tid e w)"
proof
  obtain c w1 where g: "mtt_thread_get X tid w = (c, w1)" by (cases "mtt_thread_get X tid w")
  note g1 = thread_get_other_globals [OF g]
  have m: "g_max_stack_frames w1 = g_max_stack_frames w"
    by (rule thread_get_cases [of X tid w]) (use g in \<open>auto simp: upd_slot_def\<close>)
  show "frames_ok (e_stack (g_entries (mtt_capture_stack X tid e w) e))
           (e_stack_frames (g_entries (mtt_capture_stack X tid e w) e))"
    by (rule capture_stack_shape [OF assms(1) g])
      (use assms g1 m in \<open>auto simp: upd_entry_def set_stack_def frames_ok_def\<close>)
  show "only_frames e w (mtt_capture_stack X tid e w)" by (rule capture_stack_frame(1) [OF assms(1)])
qed

theorem capture_stack_bounded_witness:
  "frames_ok (e_stack (g_entries (mtt_capture_stack demo_ext 7 0x9000 demo_world) 0x9000))
     (e_stack_frames (g_entries (mtt_capture_stack demo_ext 7 0x9000 demo_world) 0x9000))"
  using capture_stack_bounded [of "0x9000" demo_ext demo_world 7]
  by (simp add: bt_bounded_def demo_ext_def demo_world_def zero_entry_def MTT_STACK_DEPTH_def)

text \<open>C22. A fault in the unwinder loses only the rest of that stack: when step \<open>k\<close> of the
  stepping unwinder faults, the capture returns the \<open>k\<close> frames read before it (\<open>-1\<close> when there
  are none), restores the mutex and the application's signal actions, disables libunwind for the
  calling thread and for no other.\<close>

theorem capture_survives_fault:
  assumes "prot_idle w" "\<not> g_unw_disabled w tid" "x_unw_context X (g_ext w)"
    and "\<And>j. j < k \<Longrightarrow> x_unw_steps X (g_ext w) j = UNW_FRAME (pc j)"
    and "x_unw_steps X (g_ext w) k = UNW_CRASH sig" "int k < m"
    and "mtt_libunwind_capture X tid st m w = (n, st', w')"
  shows "n = (if k = 0 then - 1 else int k)
       \<and> (\<forall>j < k. st' ! j = MTT_FIX_THUMB_ADDR (pc j))
       \<and> prot_idle w' \<and> g_segv_handler w' = g_segv_handler w \<and> g_bus_handler w' = g_bus_handler w
       \<and> g_unw_disabled w' = (g_unw_disabled w)(tid := True) \<and> g_hung w' = g_hung w"
proof -
  have loop: "mtt_unwind_step_loop ev a d = (map pc [a..<k], Some sig)"
    if "a \<le> k" "k < a + d" "\<And>j. j < k \<Longrightarrow> ev j = UNW_FRAME (pc j)" "ev k = UNW_CRASH sig" for ev a d
    using that(1,2)
  proof (induction d arbitrary: a)
    case (Suc d)
    then show ?case
      using that(3,4) by (cases "a = k") (simp_all add: upt_conv_Cons)
  qed simp
  have l: "mtt_unwind_step_loop (x_unw_steps X (g_ext w)) 0 (nat m) = (map pc [0..<k], Some sig)"
    by (rule loop) (use assms(4-6) in auto)
  have "n = (if k = 0 then - 1 else int k) \<and>
      st' = (if k = 0 then st else write_frames (map MTT_FIX_THUMB_ADDR (map pc [0..<k])) st) \<and>
      g_unw_disabled w' = (g_unw_disabled w)(tid := True)"
    using assms(2,3,6,7) l
    by (auto simp: mtt_libunwind_capture_def mtt_libunwind_thread_disabled_def protect_enter_def
        protect_leave_def mtt_unwind_crash_handler_def mtt_libunwind_disable_this_thread_def Let_def
        split: if_splits)
  then show ?thesis
    using static_unw.cap_idle [OF assms(1,7)] by (auto simp: write_frames_def nth_append)
qed

definition faulting_ext :: "ptr ext" where
  "faulting_ext = demo_ext\<lparr>x_unw_steps := (\<lambda>_ n. if n < 3 then UNW_FRAME 0x1001 else UNW_CRASH 11)\<rparr>"

theorem capture_survives_fault_witness:
  "let (n, st, w) = mtt_libunwind_capture faulting_ext 7 (replicate 64 0) 64 demo_world
   in n = 3 \<and> st ! 2 = 0x1000 \<and> prot_idle w \<and> g_unw_disabled w 7 \<and> \<not> g_unw_disabled w 8"
proof -
  obtain n st w where c: "mtt_libunwind_capture faulting_ext 7 (replicate 64 0) 64 demo_world = (n, st, w)"
    by (metis prod_cases3)
  have "prot_idle demo_world" "\<not> g_unw_disabled demo_world 7" "\<not> g_unw_disabled demo_world 8"
    by (simp_all add: prot_idle_def demo_world_def)
  then show ?thesis
    using capture_survives_fault [of demo_world 7 faulting_ext 3 "\<lambda>_. 0x1001" 11 64, OF _ _ _ _ _ _ c]
    by (simp add: c) (simp add: faulting_ext_def demo_ext_def MTT_FIX_THUMB_ADDR_def)
qed

end
