(* ===== verification/Entry_Table.thy ===== *)
theory Entry_Table
  imports Raw_Alloc Unwind
begin

text \<open>
  The table of tracking records and the record pool of \<^verbatim>\<open>tracker.c\<close>: buckets of
  records linked by their \<open>next\<close> field, 64 free lists through the same field, and the
  operations that find, add, remove, create and discard a record. The invariant says
  which nodes are on which chain; the abstract table maps a pointer to the records
  kept for it, newest first. The locale \<open>tracking_table\<close> is what the allocation
  functions rely on.
\<close>

section \<open>Definitions\<close>

abbreviation bucket_at :: "'l world \<Rightarrow> ptr \<Rightarrow> nat" where
  "bucket_at w p \<equiv> unat (mtt_bucket_of p (s_bucket_count (g_state w)) (s_hash_seed (g_state w)))"

abbreviation stripe_at :: "'l world \<Rightarrow> ptr \<Rightarrow> nat" where
  "stripe_at w p \<equiv> unat (mtt_stripe_of p (s_bucket_count (g_state w)) (s_hash_seed (g_state w)))"

partial_function (option) entry_find_loop ::
  "(ptr \<Rightarrow> mtt_entry) \<Rightarrow> ptr \<Rightarrow> ptr \<Rightarrow> ptr option" where
  "entry_find_loop h p e =
     (if e = NULL then Some NULL
      else if e_ptr (h e) = p then Some e
      else entry_find_loop h p (e_next (h e)))"

definition mtt_entry_find :: "ptr \<Rightarrow> 'l world \<Rightarrow> ptr \<times> 'l world" where
  "mtt_entry_find p w =
     (if p = NULL then (NULL, w)
      else
        case s_buckets (g_state w) of
          None \<Rightarrow> (NULL, w)
        | Some bk \<Rightarrow>
            (case entry_find_loop (g_entries w) p (bk (bucket_at w p)) of
               Some e \<Rightarrow> (e, w)
             | None \<Rightarrow> (NULL, w\<lparr>g_hung := True\<rparr>)))"

text \<open>The place \<open>pp\<close> points to: a bucket head or the \<open>next\<close> field of a record.\<close>

datatype link = L_bucket nat | L_next ptr

definition write_link :: "link \<Rightarrow> ptr \<Rightarrow> 'l world \<Rightarrow> 'l world" where
  "write_link lk v w =
     (case lk of
        L_bucket i \<Rightarrow> upd_state (\<lambda>s. s\<lparr>s_buckets := map_option (\<lambda>bk. bk(i := v)) (s_buckets s)\<rparr>) w
      | L_next a \<Rightarrow> upd_entry a (\<lambda>r. r\<lparr>e_next := v\<rparr>) w)"

partial_function (option) entry_remove_loop ::
  "(ptr \<Rightarrow> mtt_entry) \<Rightarrow> ptr \<Rightarrow> link \<Rightarrow> ptr \<Rightarrow> (link \<times> ptr) option option" where
  "entry_remove_loop h p pp e =
     (if e = NULL then Some None
      else if e_ptr (h e) = p then Some (Some (pp, e))
      else entry_remove_loop h p (L_next e) (e_next (h e)))"

text \<open>Giving a record back to the pool: cleared and pushed on the free list of its own address.\<close>

definition pool_return :: "ptr \<Rightarrow> 'l world \<Rightarrow> 'l world" where
  "pool_return e w =
     (let w = upd_entry e (\<lambda>_. zero_entry) w;
          idx = stripe_at w e;
          w = pool_lock idx w;
          w = upd_entry e (\<lambda>r. r\<lparr>e_next := s_pool_free_lists (g_state w) idx\<rparr>) w;
          w = upd_state (\<lambda>s. s\<lparr>s_pool_free_lists := (s_pool_free_lists s)(idx := e)\<rparr>) w;
          w = pool_unlock idx w
      in upd_state (\<lambda>s. s\<lparr>s_pool_used := s_pool_used s - 1\<rparr>) w)"

definition mtt_entry_remove :: "'l ext \<Rightarrow> ptr \<Rightarrow> 'l world \<Rightarrow> 'l world" where
  "mtt_entry_remove X p w =
     (if p = NULL then w
      else
        case s_buckets (g_state w) of
          None \<Rightarrow> w
        | Some bk \<Rightarrow>
            (case entry_remove_loop (g_entries w) p (L_bucket (bucket_at w p)) (bk (bucket_at w p)) of
               None \<Rightarrow> w\<lparr>g_hung := True\<rparr>
             | Some None \<Rightarrow> w
             | Some (Some (pp, dead)) \<Rightarrow>
                 let w = write_link pp (e_next (g_entries w dead)) w;
                     w = upd_state (\<lambda>s. s\<lparr>s_entry_count := s_entry_count s - 1\<rparr>) w
                 in if s_pool (g_state w) \<noteq> NULL then pool_return dead w
                    else if raw_free w \<noteq> F_NULL then call_free X dead w
                    else w))"

definition mtt_pool_contains :: "ptr \<Rightarrow> 'l world \<Rightarrow> bool" where
  "mtt_pool_contains p w \<longleftrightarrow>
     (let s = g_state w in
      p \<noteq> NULL \<and> s_initialized s \<and> s_pool s \<noteq> NULL \<and>
      s_pool s \<le> p \<and> p < s_pool s + s_pool_raw_size s)"

definition mtt_entry_add :: "ptr \<Rightarrow> 'l world \<Rightarrow> 'l world" where
  "mtt_entry_add e w =
     (if e = NULL then w
      else
        case s_buckets (g_state w) of
          None \<Rightarrow> w
        | Some bk \<Rightarrow>
            let b = bucket_at w (e_ptr (g_entries w e));
                w = upd_entry e (\<lambda>r. r\<lparr>e_next := bk b\<rparr>) w;
                w = write_link (L_bucket b) e w
            in upd_state (\<lambda>s. s\<lparr>s_entry_count := s_entry_count s + 1\<rparr>) w)"

definition mtt_entry_discard :: "'l ext \<Rightarrow> ptr \<Rightarrow> 'l world \<Rightarrow> 'l world" where
  "mtt_entry_discard X e w =
     (if e = NULL then w
      else if s_pool (g_state w) \<noteq> NULL then pool_return e w
      else if raw_free w \<noteq> F_NULL then call_free X e w
      else w)"

text \<open>Taking the head of free list \<open>idx\<close> (its lock is held).\<close>

definition pool_take :: "nat \<Rightarrow> 'l world \<Rightarrow> ptr \<times> 'l world" where
  "pool_take idx w =
     (let e = s_pool_free_lists (g_state w) idx
      in if e \<noteq> NULL
         then (e, upd_state (\<lambda>s. s\<lparr>s_pool_free_lists := (s_pool_free_lists s)(idx := e_next (g_entries w e)),
                                    s_pool_used := s_pool_used s + 1\<rparr>) w)
         else (NULL, w))"

text \<open>The scan of the neighbour lists, skipping those whose lock is busy.\<close>

fun pool_scan :: "nat \<Rightarrow> nat list \<Rightarrow> 'l world \<Rightarrow> ptr \<times> 'l world" where
  "pool_scan idx [] w = (NULL, w)"
| "pool_scan idx (k # ks) w =
     (let try_idx = (idx + k) mod MTT_LOCK_STRIPES
      in if s_pool_locks (g_state w) try_idx then pool_scan idx ks w
         else
           let (e, w) = pool_take try_idx (pool_lock try_idx w);
               w = pool_unlock try_idx w
           in if e \<noteq> NULL then (e, w) else pool_scan idx ks w)"

definition init_entry :: "ptr \<Rightarrow> size_t \<Rightarrow> 'l world \<Rightarrow> mtt_entry" where
  "init_entry p sz w = zero_entry\<lparr>e_ptr := p, e_size := sz, e_alloc_num := 0,
     e_timestamp := mtt_now_sec w, e_next := NULL, e_stack_frames := 0\<rparr>"

definition mtt_entry_new :: "'l ext \<Rightarrow> int \<Rightarrow> ptr \<Rightarrow> size_t \<Rightarrow> 'l world \<Rightarrow> ptr \<times> 'l world" where
  "mtt_entry_new X tid p sz w =
     (if s_pool (g_state w) \<noteq> NULL then
        let idx = stripe_at w p;
            (e, w) = pool_take idx (pool_lock idx w);
            w = pool_unlock idx w;
            (e, w) = (if e = NULL then pool_scan idx [1..<MTT_LOCK_STRIPES] w else (e, w))
        in if e = NULL then (NULL, w)
           else (e, mtt_capture_stack X tid e (upd_entry e (\<lambda>_. init_entry p sz w) w))
      else if raw_malloc w = F_NULL then (NULL, w)
      else
        let (e, w) = call_malloc X sizeof_mtt_entry w
        in if e = NULL then (NULL, w)
           else (e, mtt_capture_stack X tid e (upd_entry e (\<lambda>_. init_entry p sz w) w)))"

section \<open>Invariant and abstract table\<close>

abbreviation nexts :: "'l world \<Rightarrow> ptr \<Rightarrow> ptr" where
  "nexts w \<equiv> \<lambda>a. e_next (g_entries w a)"

text \<open>The addresses of the records of the pool.\<close>

definition pool_slots :: "mtt_state \<Rightarrow> ptr set" where
  "pool_slots s = (\<lambda>i. s_pool s + of_nat i * sizeof_mtt_entry) ` {..<unat (s_pool_capacity s)}"

lemma pool_slots_upd [simp]:
  "pool_slots (s\<lparr>s_entry_count := n\<rparr>) = pool_slots s" "pool_slots (s\<lparr>s_pool_used := u\<rparr>) = pool_slots s"
  "pool_slots (s\<lparr>s_pool_free_lists := f\<rparr>) = pool_slots s" "pool_slots (s\<lparr>s_buckets := b\<rparr>) = pool_slots s"
  "pool_slots (s\<lparr>s_pool_locks := l\<rparr>) = pool_slots s"
  by (simp_all add: pool_slots_def)

definition nodes :: "(nat \<Rightarrow> ptr list) \<Rightarrow> ptr set" where
  "nodes bs = (\<Union>i. set (bs i))"

text \<open>
  \<open>bs i\<close> are the nodes of bucket \<open>i\<close>, \<open>fs i\<close> those of free list \<open>i\<close>, \<open>held\<close> the records
  that were created and not yet added. In pool mode the three partition the pool.
\<close>

definition chains_inv :: "'l world \<Rightarrow> (nat \<Rightarrow> ptr list) \<Rightarrow> (nat \<Rightarrow> ptr list) \<Rightarrow> bool" where
  "chains_inv w bs fs \<longleftrightarrow>
     (\<exists>bk. s_buckets (g_state w) = Some bk \<and>
        (\<forall>i < unat (s_bucket_count (g_state w)). chain (nexts w) (bk i) (bs i))) \<and>
     0 < s_bucket_count (g_state w) \<and>
     (\<forall>i. \<forall>a \<in> set (bs i). bucket_at w (e_ptr (g_entries w a)) = i) \<and>
     (\<forall>i < MTT_LOCK_STRIPES. chain (nexts w) (s_pool_free_lists (g_state w) i) (fs i)) \<and>
     (\<forall>i \<ge> MTT_LOCK_STRIPES. fs i = []) \<and>
     (\<forall>i j. i \<noteq> j \<longrightarrow> set (fs i) \<inter> set (fs j) = {}) \<and>
     nodes bs \<inter> nodes fs = {}"

definition counts_inv :: "'l world \<Rightarrow> (nat \<Rightarrow> ptr list) \<Rightarrow> (nat \<Rightarrow> ptr list) \<Rightarrow> ptr set \<Rightarrow> bool" where
  "counts_inv w bs fs held \<longleftrightarrow>
     finite (nodes bs) \<and> finite held \<and> NULL \<notin> held \<and> held \<inter> nodes bs = {} \<and> held \<inter> nodes fs = {} \<and>
     s_entry_count (g_state w) = of_nat (card (nodes bs)) \<and>
     (if s_pool (g_state w) = NULL then nodes fs = {}
      else s_pool_used (g_state w) = of_nat (card (nodes bs) + card held) \<and>
           nodes bs \<union> held \<union> nodes fs = pool_slots (g_state w))"

definition table_inv :: "'l world \<Rightarrow> (nat \<Rightarrow> ptr list) \<Rightarrow> (nat \<Rightarrow> ptr list) \<Rightarrow> ptr set \<Rightarrow> bool" where
  "table_inv w bs fs held \<longleftrightarrow> chains_inv w bs fs \<and> counts_inv w bs fs held"

definition pool_unlocked :: "'l world \<Rightarrow> bool" where
  "pool_unlocked w \<longleftrightarrow> (\<forall>i. \<not> s_pool_locks (g_state w) i)"

text \<open>The records kept for \<open>p\<close>, newest first.\<close>

definition records :: "'l world \<Rightarrow> (nat \<Rightarrow> ptr list) \<Rightarrow> ptr \<Rightarrow> ptr list" where
  "records w bs p = filter (\<lambda>a. e_ptr (g_entries w a) = p) (bs (bucket_at w p))"

section \<open>Chain walks\<close>

lemma find_loop_chain:
  "chain (\<lambda>a. e_next (h a)) e as \<Longrightarrow>
     entry_find_loop h p e =
       Some (case filter (\<lambda>a. e_ptr (h a) = p) as of [] \<Rightarrow> NULL | a # _ \<Rightarrow> a)"
proof (induction as arbitrary: e)
  case Nil
  then show ?case by (simp add: entry_find_loop.simps)
next
  case (Cons a as)
  then show ?case by (subst entry_find_loop.simps) auto
qed

lemma remove_loop_absent:
  "chain (\<lambda>a. e_next (h a)) e as \<Longrightarrow> \<forall>a \<in> set as. e_ptr (h a) \<noteq> p \<Longrightarrow>
     entry_remove_loop h p pp e = Some None"
proof (induction as arbitrary: e pp)
  case Nil
  then show ?case by (simp add: entry_remove_loop.simps)
next
  case (Cons a as)
  then show ?case by (subst entry_remove_loop.simps) auto
qed

lemma remove_loop_present:
  "chain (\<lambda>a. e_next (h a)) e (us @ a # vs) \<Longrightarrow> \<forall>u \<in> set us. e_ptr (h u) \<noteq> p \<Longrightarrow> e_ptr (h a) = p \<Longrightarrow>
     entry_remove_loop h p pp e = Some (Some (if us = [] then pp else L_next (last us), a))"
proof (induction us arbitrary: e pp)
  case Nil
  then show ?case by (simp add: entry_remove_loop.simps)
next
  case (Cons u us)
  then show ?case by (subst entry_remove_loop.simps) auto
qed

lemma bucket_at_less: "0 < s_bucket_count (g_state w) \<Longrightarrow> bucket_at w p < unat (s_bucket_count (g_state w))"
  by (rule bucket_of_less)

lemma stripe_at_less: "stripe_at w p < MTT_LOCK_STRIPES"
  using stripe_of_less by (simp add: MTT_LOCK_STRIPES_def)

lemma chains_bucket:
  assumes "chains_inv w bs fs" "s_buckets (g_state w) = Some bk"
  shows "chain (nexts w) (bk (bucket_at w p)) (bs (bucket_at w p))"
  using assms bucket_at_less by (auto simp: chains_inv_def)

lemma chains_nodes_nonNULL:
  assumes "chains_inv w bs fs"
  shows "NULL \<notin> nodes bs" "NULL \<notin> nodes fs"
proof -
  obtain bk where bk: "s_buckets (g_state w) = Some bk" using assms by (auto simp: chains_inv_def)
  show "NULL \<notin> nodes bs"
  proof
    assume "NULL \<in> nodes bs"
    then obtain i where i: "NULL \<in> set (bs i)" by (auto simp: nodes_def)
    then have "bucket_at w (e_ptr (g_entries w NULL)) = i" using assms by (auto simp: chains_inv_def)
    then show False
      using chains_bucket [OF assms bk, of "e_ptr (g_entries w NULL)"] i chain_nodes_nonNULL by metis
  qed
  show "NULL \<notin> nodes fs"
  proof
    assume "NULL \<in> nodes fs"
    then obtain i where i: "NULL \<in> set (fs i)" by (auto simp: nodes_def)
    then have "i < MTT_LOCK_STRIPES" using assms by (auto simp: chains_inv_def not_le [symmetric])
    then have "chain (nexts w) (s_pool_free_lists (g_state w) i) (fs i)"
      using assms by (auto simp: chains_inv_def)
    then show False using i chain_nodes_nonNULL by metis
  qed
qed

text \<open>Two buckets share no node: a node's bucket is given by its key.\<close>

lemma buckets_disjoint:
  assumes "chains_inv w bs fs" "i \<noteq> j"
  shows "set (bs i) \<inter> set (bs j) = {}"
proof -
  have k: "bucket_at w (e_ptr (g_entries w a)) = k" if "a \<in> set (bs k)" for a k
    using assms(1) that by (simp add: chains_inv_def)
  show ?thesis
  proof (rule Int_emptyI)
    fix a assume "a \<in> set (bs i)" "a \<in> set (bs j)"
    then show False using k [of a i] k [of a j] assms(2) by simp
  qed
qed

lemma nodes_upd:
  assumes "\<And>j. j \<noteq> i \<Longrightarrow> set (bs i) \<inter> set (bs j) = {}"
  shows "nodes (bs(i := xs)) = (nodes bs - set (bs i)) \<union> set xs"
  using assms by (fastforce simp: nodes_def split: if_splits)

lemma nodes_push: "nodes (bs(i := e # bs i)) = insert e (nodes bs)"
  by (auto simp: nodes_def split: if_splits)

lemma nodes_remove:
  assumes "\<And>j. j \<noteq> i \<Longrightarrow> set (bs i) \<inter> set (bs j) = {}" "bs i = us @ a # vs" "distinct (bs i)"
  shows "nodes (bs(i := us @ vs)) = nodes bs - {a}"
  proof -
  have "set (bs i) \<subseteq> nodes bs" by (auto simp: nodes_def)
  then show ?thesis
    using nodes_upd [where bs = bs and i = i and xs = "us @ vs"] assms by auto
qed

section \<open>Finding\<close>

lemma entry_find_spec:
  assumes "chains_inv w bs fs" "p \<noteq> NULL"
  shows "mtt_entry_find p w = (case records w bs p of [] \<Rightarrow> NULL | a # _ \<Rightarrow> a, w)"
proof -
  obtain bk where bk: "s_buckets (g_state w) = Some bk" using assms by (auto simp: chains_inv_def)
  show ?thesis
    using find_loop_chain [OF chains_bucket [OF assms(1) bk, of p], of p] assms(2) bk
    by (simp add: mtt_entry_find_def records_def)
qed

section \<open>Adding\<close>

lemma entry_add_eq:
  assumes "s_buckets (g_state w) = Some bk" "e \<noteq> NULL"
  shows "mtt_entry_add e w =
    (let b = bucket_at w (e_ptr (g_entries w e)) in
     w\<lparr>g_entries := (g_entries w)(e := (g_entries w e)\<lparr>e_next := bk b\<rparr>),
       g_state := (g_state w)\<lparr>s_buckets := Some (bk(b := e)), s_entry_count := s_entry_count (g_state w) + 1\<rparr>\<rparr>)"
  using assms by (simp add: mtt_entry_add_def upd_entry_def write_link_def Let_def)

lemma entry_add_inv:
  assumes "table_inv w bs fs held" "e \<in> held"
  shows "table_inv (mtt_entry_add e w)
      (bs(bucket_at w (e_ptr (g_entries w e)) := e # bs (bucket_at w (e_ptr (g_entries w e))))) fs (held - {e})"
proof -
  let ?b = "bucket_at w (e_ptr (g_entries w e))" and ?w = "mtt_entry_add e w"
  have ch: "chains_inv w bs fs" and co: "counts_inv w bs fs held" using assms by (auto simp: table_inv_def)
  obtain bk where bk: "s_buckets (g_state w) = Some bk" using ch by (auto simp: chains_inv_def)
  have e: "e \<noteq> NULL" "e \<notin> nodes bs" "e \<notin> nodes fs" using co assms(2) by (auto simp: counts_inv_def)
  note eq = entry_add_eq [OF bk e(1)]
  have nx: "nexts ?w = (nexts w)(e := bk ?b)" by (auto simp: eq Let_def)
  have nx': "e_next (g_entries ?w a) = (if a = e then bk ?b else e_next (g_entries w a))" for a
    by (simp add: eq Let_def)
  have st: "s_bucket_count (g_state ?w) = s_bucket_count (g_state w)"
    "s_hash_seed (g_state ?w) = s_hash_seed (g_state w)" "s_buckets (g_state ?w) = Some (bk(?b := e))"
    "s_pool_free_lists (g_state ?w) = s_pool_free_lists (g_state w)" "s_pool (g_state ?w) = s_pool (g_state w)"
    "s_entry_count (g_state ?w) = s_entry_count (g_state w) + 1"
    "s_pool_used (g_state ?w) = s_pool_used (g_state w)" "pool_slots (g_state ?w) = pool_slots (g_state w)"
    by (simp_all add: eq Let_def pool_slots_def)
  have key: "e_ptr (g_entries ?w a) = e_ptr (g_entries w a)" for a by (simp add: eq Let_def)
  have fr: "chain (nexts ?w) q as" if "chain (nexts w) q as" "e \<notin> set as" for q as
    by (rule chain_frame [OF that(1)]) (use that(2) in \<open>auto simp: nx'\<close>)
  have enb: "e \<notin> set (bs i)" "e \<notin> set (fs i)" for i using e by (auto simp: nodes_def)
  have "chain (nexts ?w) e (e # bs ?b)"
    unfolding nx by (rule chain_push [OF chains_bucket [OF ch bk] enb(1) e(1)])
  then have "chains_inv ?w (bs(?b := e # bs ?b)) fs"
    using ch bk fr enb unfolding chains_inv_def st key nodes_push
    by (auto simp: nodes_def)
  moreover have "card held = Suc (card (held - {e}))"
    using co assms(2) by (intro card.remove) (auto simp: counts_inv_def)
  then have "counts_inv ?w (bs(?b := e # bs ?b)) fs (held - {e})"
    using co e assms(2) unfolding counts_inv_def st nodes_push by auto
  ultimately show ?thesis by (simp add: table_inv_def)
qed

section \<open>Giving records back\<close>

lemma table_inv_cong:
  "g_state w' = g_state w \<Longrightarrow> g_entries w' = g_entries w \<Longrightarrow>
     table_inv w' bs fs held = table_inv w bs fs held"
  by (simp add: table_inv_def chains_inv_def counts_inv_def)

lemma records_cong:
  "g_state w' = g_state w \<Longrightarrow> g_entries w' = g_entries w \<Longrightarrow> records w' bs = records w bs"
  by (simp add: records_def fun_eq_iff)

lemma pool_unlocked_cong: "g_state w' = g_state w \<Longrightarrow> pool_unlocked w' = pool_unlocked w"
  by (simp add: pool_unlocked_def)

lemma call_free_frame:
  "g_state (call_free X p w) = g_state w" "g_entries (call_free X p w) = g_entries w"
  "g_mem (call_free X p w) = g_mem w" "g_threads (call_free X p w) = g_threads w"
  "raw_free w \<noteq> F_NULL \<Longrightarrow> g_hung (call_free X p w) = g_hung w"
  by (auto simp: call_free_def bootstrap_free_def split: fnptr.splits)

lemma pool_return_eq:
  assumes "pool_unlocked w"
  shows "pool_return e w =
    w\<lparr>g_entries := (g_entries w)(e := zero_entry\<lparr>e_next := s_pool_free_lists (g_state w) (stripe_at w e)\<rparr>),
      g_state := (g_state w)\<lparr>s_pool_free_lists := (s_pool_free_lists (g_state w))(stripe_at w e := e),
                             s_pool_used := s_pool_used (g_state w) - 1\<rparr>\<rparr>"
proof -
  have "(s_pool_locks (g_state w))(i := False) = s_pool_locks (g_state w)" for i
    using assms by (auto simp: pool_unlocked_def fun_eq_iff)
  then show ?thesis
    using assms
    by (simp add: pool_return_def upd_entry_def pool_lock_def pool_unlock_def pool_unlocked_def Let_def)
qed

lemma pool_return_chains:
  assumes "chains_inv w bs fs" "pool_unlocked w" "e \<noteq> NULL" "e \<notin> nodes bs" "e \<notin> nodes fs"
  shows "chains_inv (pool_return e w) bs (fs(stripe_at w e := e # fs (stripe_at w e)))"
proof -
  let ?i = "stripe_at w e" and ?w = "pool_return e w"
  note eq = pool_return_eq [OF assms(2)]
  obtain bk where bk: "s_buckets (g_state w) = Some bk" using assms(1) by (auto simp: chains_inv_def)
  have nx: "nexts ?w = (nexts w)(e := s_pool_free_lists (g_state w) ?i)" by (auto simp: eq)
  have nx': "e_next (g_entries ?w a) =
      (if a = e then s_pool_free_lists (g_state w) ?i else e_next (g_entries w a))" for a
    by (simp add: eq)
  have st: "s_bucket_count (g_state ?w) = s_bucket_count (g_state w)"
    "s_hash_seed (g_state ?w) = s_hash_seed (g_state w)" "s_buckets (g_state ?w) = s_buckets (g_state w)"
    "s_pool_free_lists (g_state ?w) = (s_pool_free_lists (g_state w))(?i := e)"
    by (simp_all add: eq)
  have enb: "e \<notin> set (bs i)" "e \<notin> set (fs i)" for i using assms(4,5) by (auto simp: nodes_def)
  have key: "e_ptr (g_entries ?w a) = e_ptr (g_entries w a)" if "a \<in> set (bs i)" for a i
    using that enb by (auto simp: eq)
  have fr: "chain (nexts ?w) q as" if "chain (nexts w) q as" "e \<notin> set as" for q as
    by (rule chain_frame [OF that(1)]) (use that(2) in \<open>auto simp: nx'\<close>)
  have fl: "chain (nexts w) (s_pool_free_lists (g_state w) ?i) (fs ?i)"
    using assms(1) stripe_at_less [where w = w and p = e] by (auto simp: chains_inv_def)
  have "chain (nexts ?w) e (e # fs ?i)"
    unfolding nx by (rule chain_push [OF fl enb(2) assms(3)])
  then show ?thesis
    using assms fr enb stripe_at_less [where w = w and p = e] key unfolding chains_inv_def st nodes_push
    by (auto simp: nodes_def)
qed

lemma pool_return_table:
  assumes "chains_inv w bs fs" "pool_unlocked w" "e \<noteq> NULL" "e \<notin> nodes bs" "e \<notin> nodes fs" "e \<notin> held"
    and "finite (nodes bs)" "finite held" "NULL \<notin> held" "held \<inter> nodes bs = {}" "held \<inter> nodes fs = {}"
    and "s_entry_count (g_state w) = of_nat (card (nodes bs))" "s_pool (g_state w) \<noteq> NULL"
    and "s_pool_used (g_state w) = of_nat (Suc (card (nodes bs) + card held))"
    and "insert e (nodes bs \<union> held \<union> nodes fs) = pool_slots (g_state w)"
  shows "table_inv (pool_return e w) bs (fs(stripe_at w e := e # fs (stripe_at w e))) held"
proof -
  have st: "s_pool (g_state (pool_return e w)) = s_pool (g_state w)"
    "s_entry_count (g_state (pool_return e w)) = s_entry_count (g_state w)"
    "s_pool_used (g_state (pool_return e w)) = s_pool_used (g_state w) - 1"
    "pool_slots (g_state (pool_return e w)) = pool_slots (g_state w)"
    by (simp_all add: pool_return_eq [OF assms(2)] pool_slots_def)
  have "s_pool_used (g_state w) - 1 = of_nat (card (nodes bs) + card held)"
    using assms(14) by simp
  moreover have "nodes bs \<union> held \<union> insert e (nodes fs) = pool_slots (g_state w)"
    using assms(15) by auto
  ultimately have "counts_inv (pool_return e w) bs (fs(stripe_at w e := e # fs (stripe_at w e))) held"
    using assms(6-13) unfolding counts_inv_def nodes_push st by auto
  then show ?thesis using pool_return_chains [OF assms(1-5)] by (simp add: table_inv_def)
qed

lemma pool_return_unlocked [simp]: "pool_unlocked w \<Longrightarrow> pool_unlocked (pool_return e w)"
  by (simp add: pool_return_eq) (simp add: pool_unlocked_def)

lemma entry_discard_inv:
  assumes "table_inv w bs fs held" "pool_unlocked w" "e \<in> held"
  shows "\<exists>fs'. table_inv (mtt_entry_discard X e w) bs fs' (held - {e})
       \<and> pool_unlocked (mtt_entry_discard X e w)"
proof -
  have ch: "chains_inv w bs fs" and co: "counts_inv w bs fs held" using assms by (auto simp: table_inv_def)
  have e: "e \<noteq> NULL" "e \<notin> nodes bs" "e \<notin> nodes fs" using co assms(3) by (auto simp: counts_inv_def)
  have card: "card held = Suc (card (held - {e}))"
    using co assms(3) by (intro card.remove) (auto simp: counts_inv_def)
  show ?thesis
  proof (cases "s_pool (g_state w) = NULL")
    case False
    have used: "s_pool_used (g_state w) = of_nat (Suc (card (nodes bs) + card (held - {e})))"
      using co False unfolding counts_inv_def card by simp
    have "table_inv (pool_return e w) bs (fs(stripe_at w e := e # fs (stripe_at w e))) (held - {e})"
      by (rule pool_return_table [OF ch assms(2) e _ _ _ _ _ _ _ False used])
        (use co False assms(3) in \<open>auto simp: counts_inv_def\<close>)
    then show ?thesis using False e assms(2) by (auto simp: mtt_entry_discard_def)
  next
    case True
    have "table_inv w bs fs (held - {e})"
      using assms(1) True by (auto simp: table_inv_def counts_inv_def)
    moreover have "g_state (mtt_entry_discard X e w) = g_state w"
      "g_entries (mtt_entry_discard X e w) = g_entries w"
      using True by (simp_all add: mtt_entry_discard_def call_free_frame)
    ultimately show ?thesis
      using assms(2) table_inv_cong pool_unlocked_cong by metis
  qed
qed

section \<open>Removing\<close>

text \<open>The predecessor link of node \<open>a\<close> in bucket \<open>b\<close>.\<close>

definition pred_link :: "nat \<Rightarrow> ptr list \<Rightarrow> link" where
  "pred_link b us = (if us = [] then L_bucket b else L_next (last us))"

lemma unlink_chains:
  assumes "chains_inv w bs fs" "bs b = us @ a # vs" "b < unat (s_bucket_count (g_state w))"
  shows "chains_inv (write_link (pred_link b us) (e_next (g_entries w a)) w) (bs(b := us @ vs)) fs"
proof -
  let ?w = "write_link (pred_link b us) (e_next (g_entries w a)) w"
  obtain bk where bk: "s_buckets (g_state w) = Some bk" using assms(1) by (auto simp: chains_inv_def)
  have cb: "chain (nexts w) (bk b) (us @ a # vs)"
    using assms bk by (auto simp: chains_inv_def)
  have dj: "\<And>j. j \<noteq> b \<Longrightarrow> set (bs b) \<inter> set (bs j) = {}" using buckets_disjoint [OF assms(1)] by blast
  have nd: "nodes (bs(b := us @ vs)) = nodes bs - {a}"
    by (rule nodes_remove) (use dj assms(2) chain_distinct [OF cb] in auto)
  have key: "e_ptr (g_entries ?w x) = e_ptr (g_entries w x)" for x
    by (auto simp: write_link_def upd_entry_def split: link.splits)
  have keys: "\<forall>i. \<forall>x \<in> set ((bs(b := us @ vs)) i). bucket_at w (e_ptr (g_entries w x)) = i"
    using assms(1,2) by (auto simp: chains_inv_def)
  show ?thesis
  proof (cases us rule: rev_cases)
    case Nil
    then have st: "s_buckets (g_state ?w) = Some (bk(b := e_next (g_entries w a)))"
      "s_bucket_count (g_state ?w) = s_bucket_count (g_state w)"
      "s_hash_seed (g_state ?w) = s_hash_seed (g_state w)"
      "s_pool_free_lists (g_state ?w) = s_pool_free_lists (g_state w)" "g_entries ?w = g_entries w"
      by (simp_all add: write_link_def pred_link_def bk)
    have "chain (nexts w) (e_next (g_entries w a)) vs" using cb Nil by simp
    then show ?thesis
      using assms(1) bk keys Nil unfolding chains_inv_def nd st by auto
  next
    case (snoc us' u)
    have eq: "?w = upd_entry u (\<lambda>r. r\<lparr>e_next := e_next (g_entries w a)\<rparr>) w"
      using snoc by (simp add: write_link_def pred_link_def)
    have st: "g_state ?w = g_state w" by (simp add: eq upd_entry_def)
    have nx: "nexts ?w = (nexts w)(u := e_next (g_entries w a))" by (auto simp: eq upd_entry_def)
    have nx': "e_next (g_entries ?w x) =
        (if x = u then e_next (g_entries w a) else e_next (g_entries w x))" for x
      by (simp add: eq upd_entry_def)
    have ub: "u \<in> set (bs b)" using assms(2) snoc by simp
    have fr: "chain (nexts ?w) q as" if "chain (nexts w) q as" "u \<notin> set as" for q as
      by (rule chain_frame [OF that(1)]) (use that(2) in \<open>auto simp: nx'\<close>)
    have new: "chain (nexts ?w) (bk b) (us @ vs)"
      unfolding nx using chain_unlink [of "nexts w" "bk b" us' u a vs] cb snoc by simp
    have other: "u \<notin> set (bs j)" if "j \<noteq> b" for j using dj [OF that] ub by blast
    have "u \<in> nodes bs" "nodes bs \<inter> nodes fs = {}"
      using assms(1) ub by (auto simp: chains_inv_def nodes_def)
    then have free: "u \<notin> set (fs j)" for j by (auto simp: nodes_def)
    show ?thesis
      using assms(1) bk keys new fr other free unfolding chains_inv_def key nd st by auto
  qed
qed

lemma filter_split:
  assumes "filter P xs = a # as"
  shows "\<exists>us vs. xs = us @ a # vs \<and> (\<forall>u \<in> set us. \<not> P u) \<and> P a \<and> filter P vs = as"
  using assms by (auto simp: filter_eq_Cons_iff)

text \<open>Removing when there is no record changes nothing.\<close>

lemma entry_remove_absent:
  assumes "chains_inv w bs fs" "records w bs p = []"
  shows "mtt_entry_remove X p w = w"
proof -
  obtain bk where bk: "s_buckets (g_state w) = Some bk" using assms by (auto simp: chains_inv_def)
  have "entry_remove_loop (g_entries w) p pp (bk (bucket_at w p)) = Some None" for pp
    by (rule remove_loop_absent [OF chains_bucket [OF assms(1) bk]])
      (use assms(2) in \<open>auto simp: records_def filter_empty_conv\<close>)
  then show ?thesis using bk by (simp add: mtt_entry_remove_def)
qed

text \<open>Removing the newest record: unlinked, counted off, and given back.\<close>

lemma entry_remove_eq:
  assumes "chains_inv w bs fs" "p \<noteq> NULL" "bs (bucket_at w p) = us @ a # vs"
    and "\<forall>u \<in> set us. e_ptr (g_entries w u) \<noteq> p" "e_ptr (g_entries w a) = p"
  shows "mtt_entry_remove X p w =
    (let w1 = upd_state (\<lambda>s. s\<lparr>s_entry_count := s_entry_count s - 1\<rparr>)
                (write_link (pred_link (bucket_at w p) us) (e_next (g_entries w a)) w)
     in if s_pool (g_state w1) \<noteq> NULL then pool_return a w1
        else if raw_free w1 \<noteq> F_NULL then call_free X a w1 else w1)"
proof -
  obtain bk where bk: "s_buckets (g_state w) = Some bk" using assms by (auto simp: chains_inv_def)
  have "chain (nexts w) (bk (bucket_at w p)) (us @ a # vs)"
    using chains_bucket [OF assms(1) bk, of p] assms(3) by simp
  then have "entry_remove_loop (g_entries w) p (L_bucket (bucket_at w p)) (bk (bucket_at w p)) =
      Some (Some (pred_link (bucket_at w p) us, a))"
    using remove_loop_present assms(4,5) by (simp add: pred_link_def)
  then show ?thesis using bk assms(2) by (simp add: mtt_entry_remove_def Let_def)
qed

lemma entry_remove_inv:
  assumes "table_inv w bs fs held" "pool_unlocked w" "p \<noteq> NULL" "records w bs p = a # as"
  shows "\<exists>us vs fs'. bs (bucket_at w p) = us @ a # vs \<and> (\<forall>u \<in> set us. e_ptr (g_entries w u) \<noteq> p)
       \<and> table_inv (mtt_entry_remove X p w) (bs(bucket_at w p := us @ vs)) fs' held
       \<and> pool_unlocked (mtt_entry_remove X p w)
       \<and> (\<forall>x \<in> nodes bs - {a}. e_ptr (g_entries (mtt_entry_remove X p w) x) = e_ptr (g_entries w x))
       \<and> s_bucket_count (g_state (mtt_entry_remove X p w)) = s_bucket_count (g_state w)
       \<and> s_hash_seed (g_state (mtt_entry_remove X p w)) = s_hash_seed (g_state w)"
proof -
  let ?b = "bucket_at w p"
  have ch: "chains_inv w bs fs" and co: "counts_inv w bs fs held" using assms by (auto simp: table_inv_def)
  obtain us vs where sp: "bs ?b = us @ a # vs" "\<forall>u \<in> set us. e_ptr (g_entries w u) \<noteq> p"
    "e_ptr (g_entries w a) = p"
    using filter_split [OF assms(4) [unfolded records_def]] by auto
  define w0 where "w0 = write_link (pred_link ?b us) (e_next (g_entries w a)) w"
  define w1 where "w1 = upd_state (\<lambda>s. s\<lparr>s_entry_count := s_entry_count s - 1\<rparr>) w0"
  define bs' where "bs' = bs(?b := us @ vs)"
  have bl: "?b < unat (s_bucket_count (g_state w))"
    using ch bucket_at_less by (auto simp: chains_inv_def)
  have c0: "chains_inv w0 bs' fs" unfolding w0_def bs'_def by (rule unlink_chains [OF ch sp(1) bl])
  then have c1: "chains_inv w1 bs' fs" by (auto simp: chains_inv_def w1_def)
  have st0: "s_pool (g_state w0) = s_pool (g_state w)" "s_pool_used (g_state w0) = s_pool_used (g_state w)"
    "s_entry_count (g_state w0) = s_entry_count (g_state w)" "pool_slots (g_state w0) = pool_slots (g_state w)"
    "s_pool_locks (g_state w0) = s_pool_locks (g_state w)"
    "s_bucket_count (g_state w0) = s_bucket_count (g_state w)" "s_hash_seed (g_state w0) = s_hash_seed (g_state w)"
    "\<And>x. e_ptr (g_entries w0 x) = e_ptr (g_entries w x)"
    by (auto simp: w0_def write_link_def upd_entry_def pool_slots_def split: link.splits)
  have an: "a \<in> nodes bs" using sp(1) by (auto simp: nodes_def intro!: exI [of _ ?b])
  have nd: "nodes bs' = nodes bs - {a}"
  proof -
    obtain bk where "s_buckets (g_state w) = Some bk" using ch by (auto simp: chains_inv_def)
    then have "distinct (bs ?b)" using chains_bucket [OF ch] chain_distinct by blast
    moreover have "set (bs ?b) \<inter> set (bs j) = {}" if "j \<noteq> ?b" for j
      using buckets_disjoint [OF ch, of ?b j] that by auto
    ultimately show ?thesis
      unfolding bs'_def using sp(1) by (intro nodes_remove) auto
  qed
  have co': "finite (nodes bs)" "finite held" "NULL \<notin> held" "held \<inter> nodes bs = {}"
    "held \<inter> nodes fs = {}" "s_entry_count (g_state w) = of_nat (card (nodes bs))"
    using co by (simp_all add: counts_inv_def)
  have cnt: "card (nodes bs) = Suc (card (nodes bs'))"
    unfolding nd by (rule card.remove [OF co'(1) an])
  have ec: "s_entry_count (g_state w1) = of_nat (card (nodes bs'))"
    using co'(6) cnt by (simp add: w1_def st0)
  have u1: "pool_unlocked w1" using assms(2) by (simp add: pool_unlocked_def w1_def st0)
  have eq: "mtt_entry_remove X p w =
      (if s_pool (g_state w) \<noteq> NULL then pool_return a w1
       else if raw_free w1 \<noteq> F_NULL then call_free X a w1 else w1)"
    using entry_remove_eq [OF ch assms(3) sp]
    unfolding w0_def [symmetric] w1_def [symmetric] by (simp add: w1_def st0 Let_def)
  have anz: "a \<noteq> NULL" using chains_nodes_nonNULL(1) [OF ch] an by metis
  have nf: "a \<notin> nodes fs" "a \<notin> held" using ch co'(4) an by (auto simp: chains_inv_def)
  show ?thesis
  proof (cases "s_pool (g_state w) = NULL")
    case False
    have used: "s_pool_used (g_state w1) = of_nat (Suc (card (nodes bs') + card held))"
      using co False cnt by (simp add: counts_inv_def w1_def st0)
    have "table_inv (pool_return a w1) bs' (fs(stripe_at w1 a := a # fs (stripe_at w1 a))) held"
    proof (rule pool_return_table [OF c1 u1 anz _ nf _ co'(2,3) _ co'(5) ec _ used])
      show "a \<notin> nodes bs'" "finite (nodes bs')" "held \<inter> nodes bs' = {}"
        unfolding nd using co' by auto
      show "s_pool (g_state w1) \<noteq> NULL" using False by (simp add: w1_def st0)
      have "nodes bs \<union> held \<union> nodes fs = pool_slots (g_state w)"
        using co False by (simp add: counts_inv_def)
      then show "insert a (nodes bs' \<union> held \<union> nodes fs) = pool_slots (g_state w1)"
        unfolding nd using an by (auto simp: w1_def st0)
    qed
    moreover have "pool_unlocked (pool_return a w1)" using u1 by simp
    moreover have "\<forall>x \<in> nodes bs - {a}. e_ptr (g_entries (pool_return a w1) x) = e_ptr (g_entries w x)"
      by (simp add: pool_return_eq [OF u1]) (simp add: w1_def st0)
    moreover have "s_bucket_count (g_state (pool_return a w1)) = s_bucket_count (g_state w)"
      "s_hash_seed (g_state (pool_return a w1)) = s_hash_seed (g_state w)"
      by (simp_all add: pool_return_eq [OF u1]) (simp_all add: w1_def st0)
    moreover have "mtt_entry_remove X p w = pool_return a w1" using False by (simp add: eq)
    ultimately show ?thesis using sp(1,2) unfolding bs'_def by metis
  next
    case True
    have t: "table_inv w1 bs' fs held"
      using c1 co True ec nd by (auto simp: table_inv_def counts_inv_def w1_def st0)
    have g: "g_state (mtt_entry_remove X p w) = g_state w1"
      "g_entries (mtt_entry_remove X p w) = g_entries w1"
      using True by (simp_all add: eq call_free_frame)
    have "table_inv (mtt_entry_remove X p w) bs' fs held" using t table_inv_cong [OF g] by simp
    moreover have "pool_unlocked (mtt_entry_remove X p w)" using u1 pool_unlocked_cong [OF g(1)] by simp
    moreover have "\<forall>x \<in> nodes bs - {a}. e_ptr (g_entries (mtt_entry_remove X p w) x) = e_ptr (g_entries w x)"
      unfolding g by (simp add: w1_def st0)
    moreover have "s_bucket_count (g_state (mtt_entry_remove X p w)) = s_bucket_count (g_state w)"
      "s_hash_seed (g_state (mtt_entry_remove X p w)) = s_hash_seed (g_state w)"
      unfolding g by (simp_all add: w1_def st0)
    ultimately show ?thesis using sp(1,2) unfolding bs'_def by metis
  qed
qed

section \<open>Creating\<close>

lemma take_locked:
  assumes "pool_unlocked w"
  shows "pool_take i (pool_lock i w) = (e, w1) \<Longrightarrow> (e, pool_unlock i w1) = pool_take i w"
proof -
  have "(s_pool_locks (g_state w))(i := False) = s_pool_locks (g_state w)" "\<not> s_pool_locks (g_state w) i"
    using assms by (auto simp: pool_unlocked_def fun_eq_iff)
  then show "pool_take i (pool_lock i w) = (e, w1) \<Longrightarrow> (e, pool_unlock i w1) = pool_take i w"
    by (auto simp: pool_take_def pool_lock_def pool_unlock_def Let_def split: if_splits)
qed

lemma pool_take_unlocked: "pool_take i w = (e, w') \<Longrightarrow> pool_unlocked w' = pool_unlocked w"
  by (auto simp: pool_take_def pool_unlocked_def Let_def split: if_splits)

text \<open>What taking a record from free list \<open>i\<close> does to the invariant.\<close>

lemma pool_take_inv:
  assumes "table_inv w bs fs held" "i < MTT_LOCK_STRIPES" "s_pool (g_state w) \<noteq> NULL"
    and "pool_take i w = (e, w')"
  shows "e = NULL \<and> w' = w \<and> fs i = [] \<or>
    e \<noteq> NULL \<and> e \<notin> held \<and> e \<notin> nodes bs \<and> (\<exists>es. fs i = e # es \<and>
      table_inv w' bs (fs(i := es)) (insert e held)) \<and> g_entries w' = g_entries w"
proof -
  have ch: "chains_inv w bs fs" and co: "counts_inv w bs fs held" using assms by (auto simp: table_inv_def)
  have fl: "chain (nexts w) (s_pool_free_lists (g_state w) i) (fs i)"
    using ch assms(2) by (auto simp: chains_inv_def)
  show ?thesis
  proof (cases "fs i")
    case Nil
    then show ?thesis using fl assms(4) by (simp add: pool_take_def)
  next
    case (Cons a es)
    have a: "s_pool_free_lists (g_state w) i = a" "a \<noteq> NULL" "chain (nexts w) (e_next (g_entries w a)) es"
      using fl Cons by auto
    have w': "e = a" "w' = upd_state (\<lambda>s. s\<lparr>s_pool_free_lists := (s_pool_free_lists s)(i := e_next (g_entries w a)),
        s_pool_used := s_pool_used s + 1\<rparr>) w"
      using assms(4) a by (auto simp: pool_take_def Let_def)
    have an: "a \<in> nodes fs" using Cons by (auto simp: nodes_def intro!: exI [of _ i])
    then have out: "a \<notin> nodes bs" "a \<notin> held"
      using ch co by (auto simp: chains_inv_def counts_inv_def)
    have dj: "set (fs i) \<inter> set (fs j) = {}" if "j \<noteq> i" for j
      using ch that by (auto simp: chains_inv_def)
    have nd: "nodes (fs(i := es)) = nodes fs - {a}"
      using nodes_remove [of i fs "[]" a es] dj Cons chain_distinct [OF fl] by auto
    have "chains_inv w' bs (fs(i := es))"
      using ch a(3) assms(2) unfolding chains_inv_def nd
      by (auto simp: w' Cons) (use dj Cons in \<open>fastforce\<close>)+
    moreover have "counts_inv w' bs (fs(i := es)) (insert a held)"
      using co out an a(2) assms(3) unfolding counts_inv_def nd
      by (auto simp: w')
    ultimately show ?thesis using a out Cons w' by (auto simp: table_inv_def)
  qed
qed

lemma pool_scan_inv:
  assumes "table_inv w bs fs held" "pool_unlocked w" "s_pool (g_state w) \<noteq> NULL"
    and "pool_scan idx ks w = (e, w')"
  shows "e = NULL \<and> w' = w \<and> (\<forall>k \<in> set ks. fs ((idx + k) mod MTT_LOCK_STRIPES) = []) \<or>
    e \<noteq> NULL \<and> e \<notin> held \<and> e \<notin> nodes bs \<and> (\<exists>fs'. table_inv w' bs fs' (insert e held)) \<and>
      pool_unlocked w' \<and> g_entries w' = g_entries w"
  using assms(4)
proof (induction ks)
  case Nil
  then show ?case by simp
next
  case (Cons k ks)
  let ?i = "(idx + k) mod MTT_LOCK_STRIPES"
  have i: "?i < MTT_LOCK_STRIPES" by (simp add: MTT_LOCK_STRIPES_def)
  obtain a w1 where t: "pool_take ?i (pool_lock ?i w) = (a, w1)"
    by (cases "pool_take ?i (pool_lock ?i w)")
  have t': "pool_take ?i w = (a, pool_unlock ?i w1)" using take_locked [OF assms(2) t] by simp
  note inv = pool_take_inv [OF assms(1) i assms(3) t']
  have nl: "\<not> s_pool_locks (g_state w) ?i" using assms(2) by (simp add: pool_unlocked_def)
  show ?case
  proof (cases "a = NULL")
    case True
    then have "pool_unlock ?i w1 = w" "fs ?i = []" using inv by auto
    then show ?thesis using Cons.IH Cons.prems True t nl by (auto simp: Let_def)
  next
    case False
    then have "e = a" "w' = pool_unlock ?i w1" using Cons.prems t nl by (auto simp: Let_def)
    then show ?thesis using inv False pool_take_unlocked [OF t'] assms(2) by auto
  qed
qed

text \<open>Changing the contents of a record that is on no chain.\<close>

lemma table_inv_held:
  assumes "table_inv w bs fs held" "e \<in> held" "g_state w' = g_state w"
    and "\<And>a. a \<noteq> e \<Longrightarrow> g_entries w' a = g_entries w a"
  shows "table_inv w' bs fs held"
proof -
  have ch: "chains_inv w bs fs" and co: "counts_inv w bs fs held" using assms by (auto simp: table_inv_def)
  have "e \<notin> nodes bs" "e \<notin> nodes fs" using co assms(2) by (auto simp: counts_inv_def)
  then have e: "e \<notin> set (bs i)" "e \<notin> set (fs i)" for i by (auto simp: nodes_def)
  have fr: "chain (nexts w') q as" if "chain (nexts w) q as" "e \<notin> set as" for q as
    by (rule chain_frame [OF that(1)]) (metis that(2) assms(4))
  have key: "e_ptr (g_entries w' a) = e_ptr (g_entries w a)" if "a \<in> set (bs i)" for a i
    using that e assms(4) by metis
  have "chains_inv w' bs fs"
    using ch fr e key unfolding chains_inv_def assms(3) by auto
  moreover have "counts_inv w' bs fs held" using co unfolding counts_inv_def assms(3) .
  ultimately show ?thesis by (simp add: table_inv_def)
qed

lemma call_malloc_frame:
  assumes "call_malloc X n w = (p, w')"
  shows "g_state w' = g_state w" "g_entries w' = g_entries w" "g_mem w' = g_mem w"
    "g_threads w' = g_threads w" "g_tls_ctx w' = g_tls_ctx w" "g_tls_cached_tid w' = g_tls_cached_tid w"
    "raw_malloc w \<noteq> F_NULL \<Longrightarrow> g_hung w' = g_hung w"
    "raw_malloc w' = raw_malloc w" "raw_free w' = raw_free w"
  using assms
  by (auto simp: call_malloc_def bootstrap_malloc_def Let_def split: fnptr.splits prod.splits if_splits)

text \<open>
  A new record is filled in and belongs to the caller. Where there is no pool, the
  allocator must not hand out memory that is in use as a record.
\<close>

definition fresh_records :: "'l ext \<Rightarrow> 'l world \<Rightarrow> (nat \<Rightarrow> ptr list) \<Rightarrow> ptr set \<Rightarrow> bool" where
  "fresh_records X w bs held \<longleftrightarrow>
     s_pool (g_state w) = NULL \<longrightarrow> fst (call_malloc X sizeof_mtt_entry w) \<notin> nodes bs \<union> held"

definition new_record :: "ptr \<Rightarrow> size_t \<Rightarrow> mtt_entry \<Rightarrow> bool" where
  "new_record p sz r \<longleftrightarrow> e_ptr r = p \<and> e_size r = sz \<and> e_alloc_num r = 0 \<and> e_next r = NULL"

lemma capture_new:
  assumes "table_inv w bs fs held" "e \<in> held" "pool_unlocked w"
  shows "let w' = mtt_capture_stack X tid e (upd_entry e (\<lambda>_. init_entry p sz v) w)
         in table_inv w' bs fs held \<and> pool_unlocked w' \<and> new_record p sz (g_entries w' e) \<and>
            g_state w' = g_state w \<and> (\<forall>a. a \<noteq> e \<longrightarrow> g_entries w' a = g_entries w a)"
proof -
  define w0 where "w0 = upd_entry e (\<lambda>_. init_entry p sz v) w"
  define w' where "w' = mtt_capture_stack X tid e w0"
  have "e \<noteq> NULL" using assms(1,2) by (auto simp: table_inv_def counts_inv_def)
  then obtain st n where f: "g_state w' = g_state w0"
    "g_entries w' = (g_entries w0)(e := (g_entries w0 e)\<lparr>e_stack := st, e_stack_frames := n\<rparr>)"
    using capture_stack_frame(1) [of e w0 X tid] by (auto simp: only_frames_def w'_def)
  have w0: "g_state w0 = g_state w" "g_entries w0 = (g_entries w)(e := init_entry p sz v)"
    by (simp_all add: w0_def upd_entry_def)
  have "table_inv w' bs fs held"
    by (rule table_inv_held [OF assms(1,2)]) (simp_all add: f w0)
  then show ?thesis
    using assms(3) unfolding w0_def [symmetric] w'_def [symmetric]
    by (simp add: f w0 pool_unlocked_def new_record_def init_entry_def)
qed

lemma entry_new_inv:
  assumes "table_inv w bs fs held" "pool_unlocked w" "fresh_records X w bs held"
    and "mtt_entry_new X tid p sz w = (e, w')"
  shows "e = NULL \<and> table_inv w' bs fs held \<and> pool_unlocked w' \<and> g_state w' = g_state w \<and> g_entries w' = g_entries w
    \<or> e \<noteq> NULL \<and> e \<notin> held \<and> e \<notin> nodes bs \<and> (\<exists>fs'. table_inv w' bs fs' (insert e held)) \<and> pool_unlocked w' \<and>
      new_record p sz (g_entries w' e) \<and> (\<forall>a. a \<noteq> e \<longrightarrow> g_entries w' a = g_entries w a)"
proof (cases "s_pool (g_state w) = NULL")
  case False
  let ?i = "stripe_at w p"
  obtain a w1 where t: "pool_take ?i (pool_lock ?i w) = (a, w1)" by (cases "pool_take ?i (pool_lock ?i w)")
  have t': "pool_take ?i w = (a, pool_unlock ?i w1)" using take_locked [OF assms(2) t] by simp
  note inv = pool_take_inv [OF assms(1) stripe_at_less False t']
  obtain b w2 where sc: "(if a = NULL then pool_scan ?i [1..<MTT_LOCK_STRIPES] (pool_unlock ?i w1)
      else (a, pool_unlock ?i w1)) = (b, w2)"
    by fastforce
  have "b = NULL \<and> w2 = w \<or> b \<noteq> NULL \<and> b \<notin> held \<and> b \<notin> nodes bs \<and>
      (\<exists>fs'. table_inv w2 bs fs' (insert b held)) \<and> pool_unlocked w2 \<and> g_entries w2 = g_entries w"
  proof (cases "a = NULL")
    case True
    then have "pool_scan ?i [1..<MTT_LOCK_STRIPES] w = (b, w2)" using sc inv by auto
    from pool_scan_inv [OF assms(1,2) False this] show ?thesis by blast
  next
    case a: False
    then have "b = a" "w2 = pool_unlock ?i w1" using sc by auto
    then show ?thesis using inv a pool_take_unlocked [OF t'] assms(2) by auto
  qed
  moreover have ew: "mtt_entry_new X tid p sz w =
      (if b = NULL then (NULL, w2)
       else (b, mtt_capture_stack X tid b (upd_entry b (\<lambda>_. init_entry p sz w2) w2)))"
    using False t sc by (simp add: mtt_entry_new_def Let_def)
  ultimately show ?thesis
    using assms(1,2,4) capture_new [of w2 bs _ "insert b held" b X tid p sz w2]
    by (auto simp: Let_def split: if_splits)
next
  case True
  obtain a w1 where m: "call_malloc X sizeof_mtt_entry w = (a, w1)" by (cases "call_malloc X sizeof_mtt_entry w")
  note fr = call_malloc_frame [OF m]
  have ew: "mtt_entry_new X tid p sz w =
      (if raw_malloc w = F_NULL then (NULL, w)
       else if a = NULL then (NULL, w1)
       else (a, mtt_capture_stack X tid a (upd_entry a (\<lambda>_. init_entry p sz w1) w1)))"
    using True m by (simp add: mtt_entry_new_def)
  have t1: "table_inv w1 bs fs held" "pool_unlocked w1"
    using assms(1,2) table_inv_cong [OF fr(1,2)] pool_unlocked_cong [OF fr(1)] by auto
  show ?thesis
  proof (cases "raw_malloc w = F_NULL \<or> a = NULL")
    case True
    then show ?thesis using ew assms(1,2,4) t1 fr by (auto split: if_splits)
  next
    case False
    have "a \<notin> nodes bs" "a \<notin> held" using assms(3) True m by (auto simp: fresh_records_def)
    moreover have "nodes fs = {}" "s_pool (g_state w1) = NULL"
      using t1 True fr by (auto simp: table_inv_def counts_inv_def)
    ultimately have "table_inv w1 bs fs (insert a held)"
      using t1(1) False by (auto simp: table_inv_def counts_inv_def)
    from capture_new [OF this _ t1(2), of a X tid p sz w1] show ?thesis
      using ew False assms(4) \<open>a \<notin> nodes bs\<close> \<open>a \<notin> held\<close> fr(2) by (auto simp: Let_def)
  qed
qed

text \<open>The search visits all 64 lists.\<close>

lemma stripes_covered:
  assumes "i < MTT_LOCK_STRIPES" "j < MTT_LOCK_STRIPES" "j \<noteq> i"
  shows "\<exists>k \<in> set [1..<MTT_LOCK_STRIPES]. j = (i + k) mod MTT_LOCK_STRIPES"
proof (rule bexI [of _ "(j + MTT_LOCK_STRIPES - i) mod MTT_LOCK_STRIPES"])
  show "j = (i + (j + MTT_LOCK_STRIPES - i) mod MTT_LOCK_STRIPES) mod MTT_LOCK_STRIPES"
    using assms by (simp add: mod_add_right_eq)
  have "(j + MTT_LOCK_STRIPES - i) mod MTT_LOCK_STRIPES \<noteq> 0"
    using assms by (cases "i < j") (auto simp: mod_if)
  then show "(j + MTT_LOCK_STRIPES - i) mod MTT_LOCK_STRIPES \<in> set [1..<MTT_LOCK_STRIPES]"
    by (simp add: MTT_LOCK_STRIPES_def)
qed

lemma entry_new_NULL_iff:
  assumes "table_inv w bs fs held" "pool_unlocked w" "s_pool (g_state w) \<noteq> NULL"
    and "mtt_entry_new X tid p sz w = (e, w')"
  shows "e = NULL \<longleftrightarrow> nodes fs = {}"
proof -
  let ?i = "stripe_at w p"
  obtain a w1 where t: "pool_take ?i (pool_lock ?i w) = (a, w1)" by (cases "pool_take ?i (pool_lock ?i w)")
  have t': "pool_take ?i w = (a, pool_unlock ?i w1)" using take_locked [OF assms(2) t] by simp
  note inv = pool_take_inv [OF assms(1) stripe_at_less assms(3) t']
  obtain b w2 where sc: "(if a = NULL then pool_scan ?i [1..<MTT_LOCK_STRIPES] (pool_unlock ?i w1)
      else (a, pool_unlock ?i w1)) = (b, w2)"
    by fastforce
  have e: "e = b"
    using assms(3,4) t sc by (simp add: mtt_entry_new_def Let_def split: if_splits)
  have empty: "fs j = []" if "j \<ge> MTT_LOCK_STRIPES" for j
    using assms(1) that by (simp add: table_inv_def chains_inv_def)
  show ?thesis
  proof
    assume "e = NULL"
    then have a: "a = NULL" "pool_scan ?i [1..<MTT_LOCK_STRIPES] w = (NULL, w2)"
      using e sc inv by (auto split: if_splits)
    have "fs ?i = []" using inv a(1) by simp
    moreover have "\<forall>k \<in> set [1..<MTT_LOCK_STRIPES]. fs ((?i + k) mod MTT_LOCK_STRIPES) = []"
      using pool_scan_inv [OF assms(1,2,3) a(2)] by blast
    ultimately have "fs j = []" for j
      using stripes_covered [OF stripe_at_less [where w = w and p = p], of j] empty [of j] by (metis not_le)
    then show "nodes fs = {}" by (simp add: nodes_def)
  next
    assume n: "nodes fs = {}"
    then have fs: "fs j = []" for j by (auto simp: nodes_def)
    then have "a = NULL" "pool_unlock ?i w1 = w" using inv by auto
    then have sc': "pool_scan ?i [1..<MTT_LOCK_STRIPES] w = (b, w2)" using sc by simp
    have "pool_scan ?i ks w = (NULL, w)" for ks
    proof (induction ks)
      case (Cons k ks)
      let ?j = "(?i + k) mod MTT_LOCK_STRIPES"
      obtain c w3 where u: "pool_take ?j (pool_lock ?j w) = (c, w3)" by (cases "pool_take ?j (pool_lock ?j w)")
      have u': "pool_take ?j w = (c, pool_unlock ?j w3)" using take_locked [OF assms(2) u] by simp
      have "?j < MTT_LOCK_STRIPES" by (simp add: MTT_LOCK_STRIPES_def)
      from pool_take_inv [OF assms(1) this assms(3) u'] fs have "c = NULL" "pool_unlock ?j w3 = w" by auto
      then show ?case using Cons u by (simp add: Let_def)
    qed simp
    then show "e = NULL" using e sc' by simp
  qed
qed

section \<open>The interface of the table\<close>

text \<open>World \<open>w\<close> stores the records \<open>R\<close> (per pointer, newest first) while \<open>H\<close> are held by callers.\<close>

definition recs :: "'l world \<Rightarrow> (ptr \<Rightarrow> ptr list) \<Rightarrow> ptr set \<Rightarrow> bool" where
  "recs w R H \<longleftrightarrow> pool_unlocked w \<and> (\<exists>bs fs. table_inv w bs fs H \<and> records w bs = R)"

text \<open>
  What the allocation functions rely on: a lookup yields the newest record, adding
  pushes a record the caller holds under its key, removing pops the newest one, and
  nothing happens to other keys.
\<close>

locale tracking_table =
  fixes lookup :: "ptr \<Rightarrow> 'l world \<Rightarrow> ptr \<times> 'l world"
    and add :: "ptr \<Rightarrow> 'l world \<Rightarrow> 'l world"
    and remove :: "ptr \<Rightarrow> 'l world \<Rightarrow> 'l world"
    and holds :: "'l world \<Rightarrow> (ptr \<Rightarrow> ptr list) \<Rightarrow> ptr set \<Rightarrow> bool"
  assumes lookup_law: "holds w R H \<Longrightarrow> p \<noteq> NULL \<Longrightarrow>
      lookup p w = (case R p of [] \<Rightarrow> NULL | a # _ \<Rightarrow> a, w)"
    and add_law: "holds w R H \<Longrightarrow> e \<in> H \<Longrightarrow> e_ptr (g_entries w e) = p \<Longrightarrow>
      holds (add e w) (R(p := e # R p)) (H - {e})"
    and remove_law: "holds w R H \<Longrightarrow> p \<noteq> NULL \<Longrightarrow> holds (remove p w) (R(p := tl (R p))) H"
    and remove_absent: "holds w R H \<Longrightarrow> R p = [] \<Longrightarrow> remove p w = w"
    and key_law: "holds w R H \<Longrightarrow> a \<in> set (R p) \<Longrightarrow> a \<noteq> NULL \<and> e_ptr (g_entries w a) = p"
begin

lemma lookup_added:
  assumes "holds w R H" "e \<in> H" "e_ptr (g_entries w e) = p" "p \<noteq> NULL" "q \<noteq> NULL"
  shows "fst (lookup q (add e w)) = (if q = p then e else fst (lookup q w))"
  using lookup_law [OF add_law [OF assms(1-3)] assms(5)] lookup_law [OF assms(1,5)] by simp

lemma add_then_remove:
  assumes "holds w R H" "e \<in> H" "e_ptr (g_entries w e) = p" "p \<noteq> NULL"
  shows "holds (remove p (add e w)) R (H - {e})"
  using remove_law [OF add_law [OF assms(1-3)] assms(4)] by simp

lemma lookup_removed:
  assumes "holds w R H" "p \<noteq> NULL" "q \<noteq> NULL" "length (R p) \<le> 1"
  shows "fst (lookup q (remove p w)) = (if q = p then NULL else fst (lookup q w))"
proof -
  have "tl (R p) = []" using assms(4) by (cases "R p") auto
  then show ?thesis
    using lookup_law [OF remove_law [OF assms(1,2)] assms(3)] lookup_law [OF assms(1,3)] by auto
qed

text \<open>A lookup that returns a record returns one stored under that key.\<close>

lemma lookup_key:
  assumes "holds w R H" "p \<noteq> NULL" "lookup p w = (e, w')" "e \<noteq> NULL"
  shows "w' = w \<and> e_ptr (g_entries w e) = p \<and> e \<in> set (R p)"
  using lookup_law [OF assms(1,2)] key_law [OF assms(1), of e p] assms(3,4)
  by (auto split: list.splits)

end

lemma records_add:
  assumes "table_inv w bs fs held" "e \<in> held" "e_ptr (g_entries w e) = p"
  shows "records (mtt_entry_add e w) (bs(bucket_at w p := e # bs (bucket_at w p))) =
    (records w bs)(p := e # records w bs p)"
proof -
  obtain bk where bk: "s_buckets (g_state w) = Some bk"
    using assms(1) by (auto simp: table_inv_def chains_inv_def)
  have e: "e \<noteq> NULL" using assms(1,2) by (auto simp: table_inv_def counts_inv_def)
  have k: "e_ptr (g_entries (mtt_entry_add e w) a) = e_ptr (g_entries w a)" for a
    by (simp add: entry_add_eq [OF bk e] Let_def)
  have b: "bucket_at (mtt_entry_add e w) q = bucket_at w q" for q
    by (simp add: entry_add_eq [OF bk e] Let_def)
  show ?thesis
    unfolding records_def k b using assms(3) by (auto simp: fun_eq_iff)
qed

lemma records_remove:
  assumes "records w bs p = a # as" "bs (bucket_at w p) = us @ a # vs"
    and "\<forall>u \<in> set us. e_ptr (g_entries w u) \<noteq> p"
    and keys: "\<forall>x \<in> nodes bs - {a}. e_ptr (g_entries w' x) = e_ptr (g_entries w x)"
    and "s_bucket_count (g_state w') = s_bucket_count (g_state w)"
    and "s_hash_seed (g_state w') = s_hash_seed (g_state w)"
    and "chains_inv w bs fs"
  shows "records w' (bs(bucket_at w p := us @ vs)) = (records w bs)(p := as)"
proof
  fix q
  let ?bs = "bs(bucket_at w p := us @ vs)"
  have "a \<in> set (records w bs p)" by (simp add: assms(1))
  then have ap: "e_ptr (g_entries w a) = p" by (simp add: records_def)
  obtain bk where bk: "s_buckets (g_state w) = Some bk" using assms(7) by (auto simp: chains_inv_def)
  have d: "distinct (us @ a # vs)"
    using chain_distinct [OF chains_bucket [OF assms(7) bk, of p]] assms(2) by simp
  have an: "a \<in> set (bs (bucket_at w p))" using assms(2) by simp
  have na: "a \<notin> set (bs i)" if "i \<noteq> bucket_at w p" for i
    using buckets_disjoint [OF assms(7), of i "bucket_at w p"] that an by auto
  have k: "e_ptr (g_entries w' x) = e_ptr (g_entries w x)" if x: "x \<in> set (?bs i)" for x i
  proof -
    have "x \<in> set (bs i)" "x \<noteq> a" using x assms(2) d na [of i] by (auto split: if_splits)
    then have "x \<in> nodes bs - {a}" by (auto simp: nodes_def)
    then show ?thesis using keys by simp
  qed
  have "records w' ?bs q = filter (\<lambda>x. e_ptr (g_entries w x) = q) (?bs (bucket_at w q))"
    unfolding records_def assms(5,6) by (rule filter_cong [OF refl]) (simp only: k)
  also have "\<dots> = ((records w bs)(p := as)) q"
  proof (cases "q = p")
    case True
    have "filter (\<lambda>x. e_ptr (g_entries w x) = p) us = []" using assms(3) by (simp add: filter_empty_conv)
    then show ?thesis using assms(1,2) ap True by (simp add: records_def)
  next
    case False
    then show ?thesis using assms(2) ap by (simp add: records_def)
  qed
  finally show "records w' ?bs q = ((records w bs)(p := as)) q" .
qed

interpretation entry_table: tracking_table mtt_entry_find mtt_entry_add "mtt_entry_remove X" recs
  for X :: "'l ext"
proof unfold_locales
  fix w :: "'l world" and R H e p a
  assume r: "recs w R H"
  then obtain bs fs where u: "pool_unlocked w" and t: "table_inv w bs fs H" and R: "R = records w bs"
    by (auto simp: recs_def)
  have ch: "chains_inv w bs fs" using t by (simp add: table_inv_def)
  show "mtt_entry_find p w = (case R p of [] \<Rightarrow> NULL | a # _ \<Rightarrow> a, w)" if "p \<noteq> NULL"
    unfolding R by (rule entry_find_spec [OF ch that])
  show "recs (mtt_entry_add e w) (R(p := e # R p)) (H - {e})"
    if "e \<in> H" "e_ptr (g_entries w e) = p"
  proof -
    obtain bk where bk: "s_buckets (g_state w) = Some bk" using ch by (auto simp: chains_inv_def)
    have "e \<noteq> NULL" using t that(1) by (auto simp: table_inv_def counts_inv_def)
    then have "pool_unlocked (mtt_entry_add e w)"
      using u by (simp add: entry_add_eq [OF bk] pool_unlocked_def Let_def)
    then show ?thesis
      using entry_add_inv [OF t that(1)] records_add [OF t that] that(2)
      unfolding recs_def R by auto
  qed
  show "mtt_entry_remove X p w = w" if "R p = []"
    using entry_remove_absent [OF ch] that R by simp
  show "recs (mtt_entry_remove X p w) (R(p := tl (R p))) H" if pn: "p \<noteq> NULL"
  proof (cases "R p")
    case Nil
    then show ?thesis using r entry_remove_absent [OF ch, of p X] R by (simp add: fun_upd_idem)
  next
    case (Cons a as)
    then obtain us vs fs' where rm: "bs (bucket_at w p) = us @ a # vs"
      "\<forall>u \<in> set us. e_ptr (g_entries w u) \<noteq> p"
      "table_inv (mtt_entry_remove X p w) (bs(bucket_at w p := us @ vs)) fs' H"
      "pool_unlocked (mtt_entry_remove X p w)"
      "\<forall>x \<in> nodes bs - {a}. e_ptr (g_entries (mtt_entry_remove X p w) x) = e_ptr (g_entries w x)"
      "s_bucket_count (g_state (mtt_entry_remove X p w)) = s_bucket_count (g_state w)"
      "s_hash_seed (g_state (mtt_entry_remove X p w)) = s_hash_seed (g_state w)"
      using entry_remove_inv [OF t u pn, of a as X] R by auto
    have "records (mtt_entry_remove X p w) (bs(bucket_at w p := us @ vs)) = R(p := as)"
      using records_remove [OF _ rm(1,2,5,6,7) ch] Cons R by simp
    then show ?thesis using rm(3,4) Cons unfolding recs_def by auto
  qed
  show "a \<noteq> NULL \<and> e_ptr (g_entries w a) = p" if "a \<in> set (R p)"
    using that chains_nodes_nonNULL(1) [OF ch] by (auto simp: R records_def nodes_def)
qed

section \<open>Counting the pool\<close>

lemma pool_slots_card:
  assumes "unat (s_pool_capacity s) * 560 \<le> 2 ^ 64"
  shows "card (pool_slots s) = unat (s_pool_capacity s)"
proof -
  have small: "unat (of_nat i * sizeof_mtt_entry) = i * 560" if "i < unat (s_pool_capacity s)" for i
  proof -
    have "i * 560 < 2 ^ LENGTH(64)" using that assms by simp
    then have "unat (of_nat (i * 560) :: u64) = i * 560" by (simp only: unat_of_nat mod_less)
    moreover have "of_nat i * sizeof_mtt_entry = (of_nat (i * 560) :: u64)" by (simp add: sizeof_mtt_entry_def)
    ultimately show ?thesis by metis
  qed
  have "inj_on (\<lambda>i. s_pool s + of_nat i * sizeof_mtt_entry) {..<unat (s_pool_capacity s)}"
  proof (rule inj_onI)
    fix i j
    assume ij: "i \<in> {..<unat (s_pool_capacity s)}" "j \<in> {..<unat (s_pool_capacity s)}"
      and "s_pool s + of_nat i * sizeof_mtt_entry = s_pool s + of_nat j * sizeof_mtt_entry"
    then have "of_nat i * sizeof_mtt_entry = of_nat j * sizeof_mtt_entry" by (simp only: add_left_cancel)
    then have "i * 560 = j * 560" using small [of i] small [of j] ij by (metis lessThan_iff)
    then show "i = j" by simp
  qed
  then show ?thesis by (simp add: pool_slots_def card_image)
qed

lemma chains_finite: "chains_inv w bs fs \<Longrightarrow> finite (nodes fs)"
proof -
  assume "chains_inv w bs fs"
  then have "fs i = []" if "\<not> i < MTT_LOCK_STRIPES" for i using that by (simp add: chains_inv_def)
  then have "nodes fs \<subseteq> (\<Union>i < MTT_LOCK_STRIPES. set (fs i))" by (fastforce simp: nodes_def)
  then show ?thesis by (rule finite_subset) simp
qed

lemma pool_partition:
  assumes "table_inv w bs fs held" "s_pool (g_state w) \<noteq> NULL"
    and "unat (s_pool_capacity (g_state w)) * 560 \<le> 2 ^ 64"
  shows "card (nodes bs) + card held + card (nodes fs) = unat (s_pool_capacity (g_state w))"
    and "unat (s_pool_used (g_state w)) = card (nodes bs) + card held"
proof -
  have ch: "chains_inv w bs fs" and co: "counts_inv w bs fs held" using assms by (auto simp: table_inv_def)
  have p: "finite (nodes bs)" "finite held" "held \<inter> nodes bs = {}" "held \<inter> nodes fs = {}"
    "nodes bs \<union> held \<union> nodes fs = pool_slots (g_state w)"
    "s_pool_used (g_state w) = of_nat (card (nodes bs) + card held)"
    using co assms(2) by (simp_all add: counts_inv_def)
  have "nodes bs \<inter> nodes fs = {}" using ch by (simp add: chains_inv_def)
  then have "card (nodes bs \<union> held \<union> nodes fs) = card (nodes bs) + card held + card (nodes fs)"
    using p(1-4) chains_finite [OF ch] card_Un_disjoint [of "nodes bs" held]
      card_Un_disjoint [of "nodes bs \<union> held" "nodes fs"]
    by (simp add: Int_Un_distrib2) (metis Int_commute)
  then show sum: "card (nodes bs) + card held + card (nodes fs) = unat (s_pool_capacity (g_state w))"
    using p(5) pool_slots_card [OF assms(3)] by simp
  have "unat (s_pool_capacity (g_state w)) < 2 ^ LENGTH(64)" by (rule unsigned_less)
  then have "card (nodes bs) + card held < 2 ^ 64" using sum by simp
  then show "unat (s_pool_used (g_state w)) = card (nodes bs) + card held"
    using p(6) by (simp only: unat_of_nat) simp
qed

section \<open>Properties\<close>

text \<open>Where a removed record goes: to the free list of its own stripe, or to the C library.\<close>

definition given_back :: "'l ext \<Rightarrow> ptr \<Rightarrow> 'l world \<Rightarrow> 'l world \<Rightarrow> bool" where
  "given_back X a w w' \<longleftrightarrow>
     (if s_pool (g_state w) \<noteq> NULL then
        s_pool_free_lists (g_state w') = (s_pool_free_lists (g_state w))(stripe_at w a := a) \<and>
        e_next (g_entries w' a) = s_pool_free_lists (g_state w) (stripe_at w a) \<and>
        s_pool_used (g_state w') = s_pool_used (g_state w) - 1 \<and> g_ext w' = g_ext w
      else g_ext w' = (case raw_free w of F_LIBC \<Rightarrow> x_free X (g_ext w) a | _ \<Rightarrow> g_ext w))"

lemma remove_given_back:
  assumes "recs w R H" "p \<noteq> NULL" "R p = a # as"
  shows "given_back X a w (mtt_entry_remove X p w)"
proof -
  obtain bs fs where t: "table_inv w bs fs H" and R: "R = records w bs" using assms(1) by (auto simp: recs_def)
  then have ch: "chains_inv w bs fs" by (simp add: table_inv_def)
  have f: "filter (\<lambda>a. e_ptr (g_entries w a) = p) (bs (bucket_at w p)) = a # as"
    using assms(3) by (simp add: R records_def)
  obtain us vs where sp: "bs (bucket_at w p) = us @ a # vs"
    "\<forall>u \<in> set us. e_ptr (g_entries w u) \<noteq> p" "e_ptr (g_entries w a) = p"
    using filter_split [OF f] by blast
  define w1 where "w1 = upd_state (\<lambda>s. s\<lparr>s_entry_count := s_entry_count s - 1\<rparr>)
      (write_link (pred_link (bucket_at w p) us) (e_next (g_entries w a)) w)"
  have k: "s_pool (g_state w1) = s_pool (g_state w)" "s_pool_free_lists (g_state w1) = s_pool_free_lists (g_state w)"
    "s_pool_used (g_state w1) = s_pool_used (g_state w)" "s_bucket_count (g_state w1) = s_bucket_count (g_state w)"
    "s_hash_seed (g_state w1) = s_hash_seed (g_state w)" "raw_free w1 = raw_free w" "g_ext w1 = g_ext w"
    by (cases "pred_link (bucket_at w p) us"; simp add: w1_def write_link_def upd_entry_def)+
  have "mtt_entry_remove X p w = (if s_pool (g_state w1) \<noteq> NULL then pool_return a w1
      else if raw_free w1 \<noteq> F_NULL then call_free X a w1 else w1)"
    using entry_remove_eq [OF ch assms(2) sp] by (simp add: w1_def Let_def)
  then show ?thesis
    by (auto simp: given_back_def k pool_return_def upd_entry_def pool_lock_def pool_unlock_def call_free_def
        bootstrap_free_def Let_def split: fnptr.splits)
qed

text \<open>C9. The hash table implements the abstract table: for a world that stores the records \<open>R\<close>,
  a lookup returns the newest record of the pointer or NULL and changes nothing, adding a record
  the caller holds pushes it on the list of its pointer, removing pops that list and gives the
  record back (in front of the free list of its stripe, or to the C library's \<open>free\<close> when there is no
  pool), removing a pointer without a record does nothing, and no other pointer's records change.\<close>

theorem entry_table_refines:
  assumes "recs w R H" "p \<noteq> NULL"
  shows "mtt_entry_find p w = (case R p of [] \<Rightarrow> NULL | a # _ \<Rightarrow> a, w)
       \<and> recs (mtt_entry_remove X p w) (R(p := tl (R p))) H
       \<and> (case R p of [] \<Rightarrow> mtt_entry_remove X p w = w | a # _ \<Rightarrow> given_back X a w (mtt_entry_remove X p w))
       \<and> (\<forall>e \<in> H. e_ptr (g_entries w e) = p \<longrightarrow> recs (mtt_entry_add e w) (R(p := e # R p)) (H - {e}))"
  using entry_table.lookup_law [OF assms] entry_table.remove_law [OF assms]
    entry_table.add_law [OF assms(1)] entry_table.remove_absent [OF assms(1)] remove_given_back [OF assms]
  by (simp split: list.split)

text \<open>A table without a pool, empty, with the record at \<open>0x9000\<close> held for pointer \<open>0x20\<close>.\<close>

definition held_world :: "ptr world" where
  "held_world = demo_world\<lparr>
     g_entries := (\<lambda>_. zero_entry)(0x9000 := zero_entry\<lparr>e_ptr := 0x20, e_size := 24\<rparr>),
     g_state := zero_state\<lparr>s_buckets := Some (\<lambda>_. NULL), s_bucket_count := 4096\<rparr>,
     raw_free := F_LIBC\<rparr>"

lemma held_world_recs: "recs held_world (\<lambda>_. []) {0x9000}"
proof -
  have "table_inv held_world (\<lambda>_. []) (\<lambda>_. []) {0x9000}"
    by (simp add: table_inv_def chains_inv_def counts_inv_def nodes_def held_world_def zero_state_def)
  moreover have "records held_world (\<lambda>_. []) = (\<lambda>_. [])" by (simp add: records_def fun_eq_iff)
  moreover have "pool_unlocked held_world" by (simp add: pool_unlocked_def held_world_def zero_state_def)
  ultimately show ?thesis unfolding recs_def by blast
qed

theorem entry_table_refines_witness:
  "recs (mtt_entry_add 0x9000 held_world) ((\<lambda>_. [])(0x20 := [0x9000])) {}
   \<and> given_back demo_ext 0x9000 (mtt_entry_add 0x9000 held_world) (mtt_entry_remove demo_ext 0x20 (mtt_entry_add 0x9000 held_world))"
proof -
  have a: "recs (mtt_entry_add 0x9000 held_world) ((\<lambda>_. [])(0x20 := [0x9000])) {}"
    using entry_table_refines [OF held_world_recs, of "0x20"] by (simp add: held_world_def)
  then show ?thesis using entry_table_refines [OF a, of "0x20" demo_ext] by simp
qed

text \<open>Tracking and untracking an allocation leaves no trace: after adding a held record, its
  pointer is found at that record and every other pointer at what it was before; removing the
  pointer then restores the records that were stored before.\<close>

theorem add_remove_roundtrip:
  assumes "recs w R H" "e \<in> H" "e_ptr (g_entries w e) = p" "p \<noteq> NULL" "q \<noteq> NULL"
  shows "fst (mtt_entry_find q (mtt_entry_add e w)) = (if q = p then e else fst (mtt_entry_find q w))
       \<and> recs (mtt_entry_remove X p (mtt_entry_add e w)) R (H - {e})"
  using entry_table.lookup_added [OF assms] entry_table.add_then_remove [OF assms(1-4)] by blast

theorem add_remove_roundtrip_witness:
  "fst (mtt_entry_find 0x20 (mtt_entry_add 0x9000 held_world)) = 0x9000
   \<and> recs (mtt_entry_remove demo_ext 0x20 (mtt_entry_add 0x9000 held_world)) (\<lambda>_. []) {}"
  using add_remove_roundtrip [OF held_world_recs, of "0x9000" "0x20" "0x20" demo_ext]
  by (simp add: held_world_def)

text \<open>A pool of two records, both on free list 0.\<close>

definition pool_world :: "ptr world" where
  "pool_world = demo_world\<lparr>
     g_entries := (\<lambda>_. zero_entry)(0x1000 := zero_entry\<lparr>e_next := 0x1230\<rparr>),
     g_state := zero_state\<lparr>s_buckets := Some (\<lambda>_. NULL), s_bucket_count := 4096, s_pool := 0x1000,
       s_pool_free_lists := (\<lambda>_. NULL)(0 := 0x1000), s_pool_capacity := 2, s_pool_mode := POOL_ACTIVE\<rparr>\<rparr>"

lemma pool_world_inv: "table_inv pool_world (\<lambda>_. []) ((\<lambda>_. [])(0 := [0x1000, 0x1230])) {}"
proof -
  have u2: "{..<2 :: nat} = {0, 1}" by auto
  have n: "nodes ((\<lambda>_. [])(0 := [0x1000, 0x1230])) = {0x1000, 0x1230 :: ptr}" by (auto simp: nodes_def)
  have "pool_slots (g_state pool_world) = {0x1000, 0x1230}"
    by (simp add: pool_slots_def pool_world_def zero_state_def u2 sizeof_mtt_entry_def)
  moreover have "nodes (\<lambda>_. [] :: ptr list) = {}" by (simp add: nodes_def)
  ultimately have "counts_inv pool_world (\<lambda>_. []) ((\<lambda>_. [])(0 := [0x1000, 0x1230])) {}"
    unfolding counts_inv_def n by (simp add: pool_world_def zero_state_def)
  moreover have "chains_inv pool_world (\<lambda>_. []) ((\<lambda>_. [])(0 := [0x1000, 0x1230]))"
    by (auto simp: chains_inv_def pool_world_def zero_state_def zero_entry_def nodes_def
        MTT_LOCK_STRIPES_def)
  ultimately show ?thesis by (simp add: table_inv_def)
qed

text \<open>C14. Creating a record fails only when the pool is exhausted: in pool mode with no pool lock
  held elsewhere, \<open>mtt_entry_new\<close> returns NULL if and only if all 64 free lists are empty; otherwise
  it returns a record that was on no chain, filled in for the pointer and size.\<close>

theorem entry_new_complete:
  assumes "table_inv w bs fs held" "pool_unlocked w" "s_pool (g_state w) \<noteq> NULL"
    and "mtt_entry_new X tid p sz w = (e, w')"
  shows "(e = NULL \<longleftrightarrow> nodes fs = {})
       \<and> (e \<noteq> NULL \<longrightarrow> e \<notin> nodes bs \<union> held \<and> new_record p sz (g_entries w' e))"
proof -
  have inv: "e = NULL \<or> e \<notin> held \<and> e \<notin> nodes bs \<and> new_record p sz (g_entries w' e)"
    using entry_new_inv [OF assms(1,2) _ assms(4)] assms(3) by (auto simp: fresh_records_def)
  have "e = NULL \<longleftrightarrow> nodes fs = {}"
    by (rule entry_new_NULL_iff [OF assms])
  then show ?thesis using inv by auto
qed

theorem entry_new_complete_witness:
  "fst (mtt_entry_new demo_ext 7 0x20 24 pool_world) \<noteq> NULL"
proof -
  obtain e w' where e: "mtt_entry_new demo_ext 7 0x20 24 pool_world = (e, w')"
    by (cases "mtt_entry_new demo_ext 7 0x20 24 pool_world")
  have "nodes ((\<lambda>_. [])(0 := [0x1000, 0x1230])) \<noteq> ({} :: ptr set)" by (auto simp: nodes_def)
  then show ?thesis
    using entry_new_complete [OF pool_world_inv _ _ e] e
    by (simp add: pool_unlocked_def pool_world_def zero_state_def)
qed

end
