(* ===== verification/Time_Series.thy ===== *)
theory Time_Series
  imports Mtt_World
begin

text \<open>
  The ring buffer of sample points of \<^verbatim>\<open>time_series.c\<close>. It refines the history of
  all points recorded: reading yields the requested part of the last 3600 of them.
  The locale \<open>history_buffer\<close> states that contract.
\<close>

section \<open>Definitions\<close>

definition mtt_ts_is_ready :: "'l world \<Rightarrow> bool" where
  "mtt_ts_is_ready w = g_ts_initialized w"

definition mtt_ts_init :: "'l world \<Rightarrow> 'l world" where
  "mtt_ts_init w =
     (if g_ts_initialized w then w
      else w\<lparr>g_time_series := \<lparr>ts_points = (\<lambda>_. zero_point), ts_head = 0, ts_count = 0, ts_lock = False\<rparr>,
             g_ts_initialized := True\<rparr>)"

definition ts_sample :: "'l ext \<Rightarrow> 'l world \<Rightarrow> ts_point" where
  "ts_sample X w =
     (let s = g_state w in
      zero_point\<lparr>p_timestamp := g_time w, p_current_bytes := s_current_bytes s,
        p_peak_bytes := s_peak_bytes s, p_alloc_count := s_alloc_count s,
        p_free_count := s_free_count s, p_entry_count := s_entry_count s,
        p_leak_bytes := s_leak_bytes_total s, p_total_alloc_bytes := s_total_bytes s,
        p_rss_bytes := (case x_rss_pages X (g_ext w) of
            Some pages \<Rightarrow> if pages > 0 then word_of_int pages * x_page_size X else 0
          | None \<Rightarrow> 0)\<rparr>)"

text \<open>The critical section of \<open>mtt_ts_record_point\<close>.\<close>

definition ts_write :: "ts_point \<Rightarrow> time_series \<Rightarrow> time_series" where
  "ts_write pt ts =
     (let head = ts_head ts;
          ts = ts\<lparr>ts_points := (ts_points ts)(unat head := pt)\<rparr>;
          head = head + 1;
          head = (if head \<ge> MTT_TS_MAX_POINTS then 0 else head)
      in ts\<lparr>ts_head := head, ts_count := ts_count ts + 1\<rparr>)"

definition mtt_ts_record_point :: "'l ext \<Rightarrow> 'l world \<Rightarrow> 'l world" where
  "mtt_ts_record_point X w =
     (if \<not> mtt_ts_is_ready w then w
      else
        let pt = ts_sample X w;
            w = w\<lparr>g_hung := (g_hung w \<or> ts_lock (g_time_series w))\<rparr>
        in w\<lparr>g_time_series := ts_write pt (g_time_series w)\<rparr>)"

text \<open>The copying loop: from index \<open>i\<close>, at most \<open>k\<close> more points.\<close>

fun ts_read_loop :: "time_series \<Rightarrow> u32 \<Rightarrow> u32 \<Rightarrow> u32 \<Rightarrow> nat \<Rightarrow> nat \<Rightarrow> ts_point list" where
  "ts_read_loop ts n_total valid_count oldest i 0 = []"
| "ts_read_loop ts n_total valid_count oldest i (Suc k) =
     (if i < unat valid_count then
        let idx = (if n_total \<le> MTT_TS_MAX_POINTS then i
                   else (unat oldest + i) mod unat MTT_TS_MAX_POINTS)
        in ts_points ts idx # ts_read_loop ts n_total valid_count oldest (Suc i) k
      else [])"

definition mtt_ts_get_range :: "u32 \<Rightarrow> u32 \<Rightarrow> 'l world \<Rightarrow> int \<times> ts_point list \<times> 'l world" where
  "mtt_ts_get_range start_idx max_out w =
     (if max_out = 0 then (- 1, [], w)
      else
        let ts = g_time_series w;
            w = w\<lparr>g_hung := (g_hung w \<or> ts_lock ts)\<rparr>;
            n_total = ts_count ts
        in if n_total = 0 then (0, [], w)
           else
             let (valid_count, oldest) =
                   (if n_total \<le> MTT_TS_MAX_POINTS then (n_total, 0) else (MTT_TS_MAX_POINTS, ts_head ts))
             in (0, ts_read_loop ts n_total valid_count oldest (unat start_idx) (unat max_out), w))"

section \<open>The contract of a bounded history\<close>

definition last_n :: "nat \<Rightarrow> 'a list \<Rightarrow> 'a list" where
  "last_n n xs = drop (length xs - n) xs"

lemma length_last_n [simp]: "length (last_n n xs) = min n (length xs)"
  by (simp add: last_n_def)

lemma last_n_short: "length xs \<le> n \<Longrightarrow> last_n n xs = xs"
  by (simp add: last_n_def)

locale history_buffer =
  fixes push :: "'p \<Rightarrow> 'b \<Rightarrow> 'b"
    and read :: "nat \<Rightarrow> nat \<Rightarrow> 'b \<Rightarrow> 'p list"
    and cap :: nat
    and bound :: nat
    and hist :: "'b \<Rightarrow> 'p list \<Rightarrow> bool"
  assumes push_law: "hist b ps \<Longrightarrow> Suc (length ps) < bound \<Longrightarrow> hist (push p b) (ps @ [p])"
    and read_law: "hist b ps \<Longrightarrow> length ps < bound \<Longrightarrow> read i k b = take k (drop i (last_n cap ps))"
begin

primrec pushes :: "'p list \<Rightarrow> 'b \<Rightarrow> 'b" where
  "pushes [] b = b"
| "pushes (p # ps) b = pushes ps (push p b)"

lemma pushes_hist:
  "hist b ps \<Longrightarrow> length ps + length qs < bound \<Longrightarrow> hist (pushes qs b) (ps @ qs)"
proof (induction qs arbitrary: b ps)
  case (Cons q qs)
  have "hist (push q b) (ps @ [q])" by (rule push_law) (use Cons.prems in auto)
  then show ?case using Cons.IH [of "push q b" "ps @ [q]"] Cons.prems(2) by simp
qed simp

text \<open>From an empty buffer, reading returns the requested part of the last \<open>cap\<close> points pushed.\<close>

lemma read_pushes:
  assumes "hist b []" "length qs < bound"
  shows "read i k (pushes qs b) = take k (drop i (last_n cap qs))"
  using read_law [OF pushes_hist [OF assms(1), of qs]] assms(2) by simp

end

section \<open>The ring buffer keeps the contract\<close>

text \<open>Point number \<open>j\<close> of the history, if it is among the last 3600, is at index \<open>j mod 3600\<close>.\<close>

definition ts_hist :: "time_series \<Rightarrow> ts_point list \<Rightarrow> bool" where
  "ts_hist ts ps \<longleftrightarrow>
     unat (ts_count ts) = length ps \<and> unat (ts_head ts) = length ps mod 3600 \<and>
     (\<forall>j < length ps. length ps \<le> j + 3600 \<longrightarrow> ts_points ts (j mod 3600) = ps ! j)"

definition ts_read :: "nat \<Rightarrow> nat \<Rightarrow> time_series \<Rightarrow> ts_point list" where
  "ts_read i k ts =
     (let n_total = ts_count ts;
          (valid_count, oldest) =
            (if n_total \<le> MTT_TS_MAX_POINTS then (n_total, 0) else (MTT_TS_MAX_POINTS, ts_head ts))
      in ts_read_loop ts n_total valid_count oldest i k)"

lemma ts_write_head:
  assumes "unat (ts_head ts) < 3600"
  shows "unat (ts_head (ts_write pt ts)) = Suc (unat (ts_head ts)) mod 3600"
proof -
  have "unat (ts_head ts + 1) = Suc (unat (ts_head ts))" using assms by (simp add: unat_word_ariths)
  then show ?thesis
    using assms
    by (cases "unat (ts_head ts) = 3599")
      (auto simp: ts_write_def Let_def MTT_TS_MAX_POINTS_def word_le_nat_alt)
qed

lemma ts_write_hist:
  assumes "ts_hist ts ps" "Suc (length ps) < 2 ^ 32"
  shows "ts_hist (ts_write pt ts) (ps @ [pt])"
proof -
  have h: "unat (ts_head ts) = length ps mod 3600" "unat (ts_count ts) = length ps"
    using assms(1) by (auto simp: ts_hist_def)
  have "unat (ts_head (ts_write pt ts)) = Suc (length ps) mod 3600"
    using ts_write_head [of ts pt] h(1) by (simp add: mod_Suc_eq)
  moreover have "unat (ts_count (ts_write pt ts)) = Suc (length ps)"
    using h(2) assms(2) by (simp add: ts_write_def Let_def unat_word_ariths)
  moreover have "ts_points (ts_write pt ts) (j mod 3600) = (ps @ [pt]) ! j"
    if j: "j < Suc (length ps)" "Suc (length ps) \<le> j + 3600" for j
  proof (cases "j = length ps")
    case True
    then show ?thesis using h(1) by (simp add: ts_write_def Let_def)
  next
    case False
    have "j mod 3600 \<noteq> length ps mod 3600"
    proof
      assume "j mod 3600 = length ps mod 3600"
      then have "3600 dvd length ps - j"
        using j False mod_eq_dvd_iff_nat [of j "length ps" 3600] by auto
      moreover have "0 < length ps - j" "length ps - j < 3600" using j False by auto
      ultimately show False by (simp add: nat_dvd_not_less)
    qed
    then show ?thesis
      using assms(1) j False h(1) by (simp add: ts_write_def Let_def ts_hist_def nth_append)
  qed
  ultimately show ?thesis by (simp add: ts_hist_def)
qed

lemma ts_read_loop_eq:
  assumes "\<And>j. i \<le> j \<Longrightarrow> j < unat valid_count \<Longrightarrow>
      ts_points ts (if n_total \<le> MTT_TS_MAX_POINTS then j else (unat oldest + j) mod unat MTT_TS_MAX_POINTS) = xs ! j"
    and "length xs = unat valid_count"
  shows "ts_read_loop ts n_total valid_count oldest i k = take k (drop i xs)"
  using assms(1)
proof (induction k arbitrary: i)
  case (Suc k)
  show ?case
  proof (cases "i < unat valid_count")
    case True
    have "drop i xs = xs ! i # drop (Suc i) xs" using True assms(2) by (simp add: Cons_nth_drop_Suc)
    then show ?thesis using Suc.IH [of "Suc i"] Suc.prems [of i] Suc.prems True by (simp add: Let_def)
  next
    case False
    then show ?thesis using assms(2) by simp
  qed
qed simp

lemma ts_read_hist:
  assumes "ts_hist ts ps" "length ps < 2 ^ 32"
  shows "ts_read i k ts = take k (drop i (last_n 3600 ps))"
proof -
  have h: "unat (ts_head ts) = length ps mod 3600" "unat (ts_count ts) = length ps"
    and p: "\<And>j. j < length ps \<Longrightarrow> length ps \<le> j + 3600 \<Longrightarrow> ts_points ts (j mod 3600) = ps ! j"
    using assms(1) by (auto simp: ts_hist_def)
  have le: "ts_count ts \<le> MTT_TS_MAX_POINTS \<longleftrightarrow> length ps \<le> 3600"
    using h(2) by (simp add: MTT_TS_MAX_POINTS_def word_le_nat_alt)
  show ?thesis
  proof (cases "length ps \<le> 3600")
    case True
    have "ts_read i k ts = ts_read_loop ts (ts_count ts) (ts_count ts) 0 i k"
      using True le by (simp only: ts_read_def Let_def if_True prod.case simp_thms)
    also have "\<dots> = take k (drop i ps)"
    proof (rule ts_read_loop_eq)
      fix j assume "j < unat (ts_count ts)"
      then have "ts_points ts (j mod 3600) = ps ! j" "j mod 3600 = j" using p [of j] True h(2) by auto
      then show "ts_points ts (if ts_count ts \<le> MTT_TS_MAX_POINTS then j
          else (unat 0 + j) mod unat MTT_TS_MAX_POINTS) = ps ! j"
        using True le by simp
    qed (simp add: h(2))
    finally show ?thesis using True by (simp add: last_n_short)
  next
    case False
    define d where "d = length ps - 3600"
    have u: "unat MTT_TS_MAX_POINTS = 3600" by (simp add: MTT_TS_MAX_POINTS_def)
    have len: "length ps = d + 3600" using False by (simp add: d_def)
    then have hd: "unat (ts_head ts) = d mod 3600" by (simp add: h(1))
    have "ts_read i k ts = ts_read_loop ts (ts_count ts) MTT_TS_MAX_POINTS (ts_head ts) i k"
      using False le by (simp only: ts_read_def Let_def if_False prod.case simp_thms)
    also have "\<dots> = take k (drop i (last_n 3600 ps))"
    proof (rule ts_read_loop_eq)
      fix j assume "j < unat MTT_TS_MAX_POINTS"
      then have j: "j < 3600" by (simp add: u)
      have "(unat (ts_head ts) + j) mod 3600 = (d + j) mod 3600" by (simp add: hd mod_add_left_eq)
      moreover have "last_n 3600 ps ! j = ps ! (d + j)" using len j by (simp add: last_n_def)
      moreover have "ts_points ts ((d + j) mod 3600) = ps ! (d + j)"
        by (rule p) (use len j in simp_all)
      ultimately show "ts_points ts (if ts_count ts \<le> MTT_TS_MAX_POINTS then j
          else (unat (ts_head ts) + j) mod unat MTT_TS_MAX_POINTS) = last_n 3600 ps ! j"
        using False le by (simp only: u if_False)
    qed (simp add: u len)
    finally show ?thesis .
  qed
qed

interpretation ts_ring: history_buffer ts_write ts_read 3600 "2 ^ 32" ts_hist
  by unfold_locales (auto intro: ts_write_hist simp: ts_read_hist)

lemma ts_init_hist: "\<not> g_ts_initialized w \<Longrightarrow> ts_hist (g_time_series (mtt_ts_init w)) []"
  by (simp add: mtt_ts_init_def ts_hist_def)

lemma get_range_read:
  assumes "max_out \<noteq> 0" "ts_hist (g_time_series w) ps"
  shows "fst (snd (mtt_ts_get_range i max_out w)) = ts_read (unat i) (unat max_out) (g_time_series w)"
proof (cases "ts_count (g_time_series w) = 0")
  case True
  then have "ts_read_loop (g_time_series w) 0 0 q n k = []" for q n k by (cases k) simp_all
  then show ?thesis using assms(1) True by (simp add: mtt_ts_get_range_def ts_read_def Let_def)
next
  case False
  then show ?thesis using assms(1) by (simp add: mtt_ts_get_range_def ts_read_def Let_def)
qed

section \<open>Properties\<close>

text \<open>The samples \<open>mtt_ts_record_point\<close> takes at the given states, one after the other.\<close>

fun ts_record_all :: "'l ext \<Rightarrow> ('l world \<Rightarrow> 'l world) list \<Rightarrow> 'l world \<Rightarrow> 'l world" where
  "ts_record_all X [] w = w"
| "ts_record_all X (f # fs) w = ts_record_all X fs (mtt_ts_record_point X (f w))"

text \<open>C23. The ring buffer is a window on the history: if \<open>ps\<close> are the points recorded since the
  start, recording appends the new sample to the history, and \<open>mtt_ts_get_range\<close> returns exactly
  the requested slice of the last 3600 points, oldest first, before and after the buffer wraps.\<close>

theorem ts_window:
  assumes "g_ts_initialized w" "ts_hist (g_time_series w) ps" "Suc (length ps) < 2 ^ 32" "max_out \<noteq> 0"
  shows "ts_hist (g_time_series (mtt_ts_record_point X w)) (ps @ [ts_sample X w])
       \<and> fst (snd (mtt_ts_get_range i max_out w)) = take (unat max_out) (drop (unat i) (last_n 3600 ps))"
  using assms ts_write_hist [OF assms(2,3)] ts_ring.read_law [OF assms(2)]
    get_range_read [OF assms(4,2)]
  by (simp add: mtt_ts_record_point_def mtt_ts_is_ready_def Let_def)

theorem ts_window_witness:
  "let w = mtt_ts_init demo_world
   in ts_hist (g_time_series (mtt_ts_record_point demo_ext w)) [ts_sample demo_ext w]"
  using ts_window [of "mtt_ts_init demo_world" "[]" 1 demo_ext 0] ts_init_hist [of demo_world]
  by (simp add: mtt_ts_init_def demo_world_def Let_def)

text \<open>Asking for 360 points from index 0, as the reporter and the dashboard do, returns the
  oldest retained points: once more than 360 points are retained, the newest point is not among
  the positions returned.\<close>

theorem ts_first_360_are_oldest:
  assumes "ts_hist (g_time_series w) ps" "length ps < 2 ^ 32" "360 < length ps"
  shows "fst (snd (mtt_ts_get_range 0 360 w)) = take 360 (last_n 3600 ps)
       \<and> length (take 360 (last_n 3600 ps)) < length (last_n 3600 ps)"
  using get_range_read [OF _ assms(1), of 360 0] ts_ring.read_law [OF assms(1,2)] assms(3) by simp

text \<open>A buffer after 400 identical samples, for the instance below.\<close>

lemma pushes_400:
  "ts_hist (ts_ring.pushes (replicate 400 zero_point) (g_time_series (mtt_ts_init demo_world)))
     (replicate 400 zero_point)"
  using ts_ring.pushes_hist [of "g_time_series (mtt_ts_init demo_world)" "[]" "replicate 400 zero_point"]
    ts_init_hist [of demo_world]
  by (simp add: demo_world_def)

theorem ts_first_360_are_oldest_witness:
  "length (fst (snd (mtt_ts_get_range 0 360
     ((mtt_ts_init demo_world)\<lparr>g_time_series :=
        ts_ring.pushes (replicate 400 zero_point) (g_time_series (mtt_ts_init demo_world))\<rparr>)))) < 400"
  using ts_first_360_are_oldest [of "(mtt_ts_init demo_world)\<lparr>g_time_series :=
        ts_ring.pushes (replicate 400 zero_point) (g_time_series (mtt_ts_init demo_world))\<rparr>"
      "replicate 400 zero_point"] pushes_400
  by simp

end
