(* ===== verification/Tracker_Init.thy ===== *)
theory Tracker_Init
  imports Services Entry_Table Proc_Maps Time_Series
begin

text \<open>
  Lazy initialisation of \<^verbatim>\<open>tracker.c\<close>: the configuration from the environment, the bucket
  array, the record pool spread over 64 free lists, the counters, and the start of the
  background threads. The invariant of the tracking table is established here.
\<close>

section \<open>Configuration\<close>

record mtt_config =
  want_disabled :: bool
  want_sample :: u32
  want_srate :: size_t
  want_leak_threshold :: int
  want_skip_startup :: int
  want_pool_entries :: size_t
  want_debug :: int

definition env_debug_level :: "'l ext \<Rightarrow> int" where
  "env_debug_level X =
     (case x_getenv X ''MTT_DEBUG'' of
        None \<Rightarrow> MTT_DEBUG_DEFAULT
      | Some v \<Rightarrow>
          let lv = atoi v; lv = (if lv < 0 then 0 else lv) in if lv > 2 then 2 else lv)"

definition default_pool_entries :: size_t where
  "default_pool_entries =
     (let n = MTT_POOL_TARGET_BYTES div sizeof_mtt_entry;
          n = (if n < MTT_POOL_ENTRIES_MIN then MTT_POOL_ENTRIES_MIN else n)
      in if n > MTT_POOL_ENTRIES_MAX then MTT_POOL_ENTRIES_MAX else n)"

definition env_sampling :: "'l ext \<Rightarrow> mtt_config \<Rightarrow> mtt_config" where
  "env_sampling X c =
     (let c = (case x_getenv X ''MTT_SAMPLE'' of
                 None \<Rightarrow> c
               | Some v \<Rightarrow>
                   let sp = atoi v
                   in if sp \<ge> 0 \<and> sp \<le> MTT_SAMPLE_MAX_PERIOD
                      then c\<lparr>want_sample := of_int sp, want_srate := 0\<rparr> else c)
      in case x_getenv X ''MTT_SAMPLE_RATE'' of
           None \<Rightarrow> c
         | Some v \<Rightarrow>
             let sr = atoi v
             in if sr \<ge> 0 \<and> sr \<le> MTT_SAMPLE_RATE_MAX then c\<lparr>want_srate := of_int sr\<rparr> else c)"

definition env_limits :: "'l ext \<Rightarrow> mtt_config \<Rightarrow> mtt_config" where
  "env_limits X c =
     (let c = (case x_getenv X ''MTT_POOL_ENTRIES'' of
                 None \<Rightarrow> c
               | Some v \<Rightarrow>
                   let pe = atol v
                   in if pe \<ge> uint MTT_POOL_ENTRIES_MIN \<and> pe \<le> uint MTT_POOL_ENTRIES_MAX
                      then c\<lparr>want_pool_entries := of_int pe\<rparr> else c);
          c = (case x_getenv X ''MTT_LEAK_THRESHOLD_SEC'' of
                 None \<Rightarrow> c
               | Some v \<Rightarrow> let lt = atoi v in if lt \<ge> 0 then c\<lparr>want_leak_threshold := lt\<rparr> else c)
      in case x_getenv X ''MTT_SKIP_STARTUP_SEC'' of
           None \<Rightarrow> c
         | Some v \<Rightarrow> let ss = atoi v in if ss \<ge> 0 then c\<lparr>want_skip_startup := ss\<rparr> else c)"

definition read_config :: "'l ext \<Rightarrow> mtt_config" where
  "read_config X =
     env_limits X (env_sampling X
       \<lparr>want_disabled = (x_getenv X ''MTT_DISABLE'' = Some ''1''),
        want_sample = MTT_SAMPLE_DEFAULT, want_srate = MTT_SAMPLE_RATE_DEFAULT,
        want_leak_threshold = MTT_LEAK_THRESHOLD_DEFAULT,
        want_skip_startup = MTT_SKIP_STARTUP_DEFAULT,
        want_pool_entries = default_pool_entries,
        want_debug = env_debug_level X\<rparr>)"

text \<open>The settings that are stored at once: blacklist, unwinder and stack depth.\<close>

definition env_globals :: "'l ext \<Rightarrow> 'l world \<Rightarrow> 'l world" where
  "env_globals X w =
     (let w = (case x_getenv X ''MTT_LIB_BLACKLIST'' of
                 None \<Rightarrow> upd_state (\<lambda>s. s\<lparr>s_lib_blacklist := [], s_lib_blacklist_ready := False\<rparr>) w
               | Some v \<Rightarrow>
                   if v = [] then upd_state (\<lambda>s. s\<lparr>s_lib_blacklist := [], s_lib_blacklist_ready := False\<rparr>) w
                   else upd_state (\<lambda>s. s\<lparr>s_lib_blacklist := copy_trunc 512 v,
                                         s_lib_blacklist_ready := True\<rparr>) w);
          w = (case x_getenv X ''MTT_UNWINDER'' of
                 None \<Rightarrow> w
               | Some v \<Rightarrow> w\<lparr>g_unwinder_mode :=
                   (if v = ''libunwind'' then 1 else if v = ''backtrace'' then 2 else 0)\<rparr>)
      in case x_getenv X ''MTT_MAX_STACK_FRAMES'' of
           None \<Rightarrow> w
         | Some v \<Rightarrow>
             let f = atoi v
             in if f \<ge> 1 \<and> f \<le> int MTT_STACK_DEPTH then w\<lparr>g_max_stack_frames := f\<rparr> else w)"

definition get_process_name :: "'l ext \<Rightarrow> nat \<Rightarrow> 'l world \<Rightarrow> string" where
  "get_process_name X n w =
     (case x_readlink_exe X (g_ext w) of
        Some (c # cs) \<Rightarrow>
          let exe_path = take 255 (c # cs);
              base = (case strrchr exe_path (CHR ''/'') of Some i \<Rightarrow> drop (Suc i) exe_path | None \<Rightarrow> exe_path)
          in copy_trunc n base
      | _ \<Rightarrow>
          (case x_comm X (g_ext w) of
             Some (c # cs) \<Rightarrow> copy_trunc n (take 15 (c # cs))
           | _ \<Rightarrow> copy_trunc n ''unknown''))"

section \<open>Data structures\<close>

definition init_buckets :: "'l ext \<Rightarrow> 'l world \<Rightarrow> 'l world" where
  "init_buckets X w =
     (let w = upd_state (\<lambda>s. s\<lparr>s_bucket_count := MTT_BUCKETS\<rparr>) w;
          w = (if raw_calloc w \<noteq> F_NULL
               then let (p, w) = call_calloc X (ucast MTT_BUCKETS) 8 w
                    in upd_state (\<lambda>s. s\<lparr>s_buckets := (if p = NULL then None else Some (\<lambda>_. NULL))\<rparr>) w
               else w)
      in if s_buckets (g_state w) = None
         then let (p, w) = bootstrap_calloc X (ucast MTT_BUCKETS) 8 w
              in upd_state (\<lambda>s. s\<lparr>s_buckets := (if p = NULL then None else Some (\<lambda>_. NULL))\<rparr>) w
         else w)"

definition hash_seed_of :: "int \<Rightarrow> int \<Rightarrow> u64" where
  "hash_seed_of now pid =
     of_int now XOR push_bit 16 (of_int pid) XOR 0x9e3779b97f4a7c15"

text \<open>Initialising the 64 mutexes of an array leaves all of them free.\<close>

definition free_locks :: "nat \<Rightarrow> bool" where
  "free_locks = (\<lambda>_. False)"

definition pool_slot :: "ptr \<Rightarrow> nat \<Rightarrow> ptr" where
  "pool_slot pool i = pool + of_nat i * sizeof_mtt_entry"

text \<open>The loop that pushes \<open>pool[i]\<close> on free list \<open>i % 64\<close>, for the first \<open>n\<close> records.\<close>

primrec pool_link :: "nat \<Rightarrow> 'l world \<Rightarrow> 'l world" where
  "pool_link 0 w = w"
| "pool_link (Suc n) w =
     (let w = pool_link n w;
          idx = n mod MTT_LOCK_STRIPES;
          e = pool_slot (s_pool (g_state w)) n;
          w = upd_entry e (\<lambda>r. r\<lparr>e_next := s_pool_free_lists (g_state w) idx\<rparr>) w
      in upd_state (\<lambda>s. s\<lparr>s_pool_free_lists := (s_pool_free_lists s)(idx := e)\<rparr>) w)"

text \<open>One block for all records: \<open>raw_malloc\<close>, or \<open>raw_calloc\<close> where that fails.\<close>

definition pool_alloc :: "'l ext \<Rightarrow> 'l world \<Rightarrow> 'l world" where
  "pool_alloc X w =
     (let w = (if raw_malloc w \<noteq> F_NULL
               then let (p, w) = call_malloc X (s_pool_raw_size (g_state w)) w
                    in upd_state (\<lambda>s. s\<lparr>s_pool := p\<rparr>) w
               else w)
      in if s_pool (g_state w) = NULL \<and> raw_calloc w \<noteq> F_NULL
         then let (p, w) = call_calloc X (s_pool_capacity (g_state w)) sizeof_mtt_entry w
              in upd_state (\<lambda>s. s\<lparr>s_pool := p\<rparr>) w
         else w)"

definition init_pool :: "'l ext \<Rightarrow> size_t \<Rightarrow> 'l world \<Rightarrow> 'l world" where
  "init_pool X n w =
     (let w = upd_state (\<lambda>s. s\<lparr>s_pool_capacity := n, s_pool_raw_size := n * sizeof_mtt_entry,
                s_pool := NULL, s_pool_used := 0, s_pool_mode := POOL_NONE,
                s_pool_locks := free_locks, s_pool_free_lists := (\<lambda>_. NULL)\<rparr>) w;
          w = pool_alloc X w
      in if s_pool (g_state w) \<noteq> NULL
         then upd_state (\<lambda>s. s\<lparr>s_pool_mode := POOL_ACTIVE\<rparr>)
                (pool_link (unat (s_pool_capacity (g_state w))) w)
         else upd_state (\<lambda>s. s\<lparr>s_pool_capacity := 0, s_pool_raw_size := 0, s_pool_mode := POOL_FALLBACK\<rparr>) w)"

definition init_counters :: "mtt_config \<Rightarrow> 'l world \<Rightarrow> 'l world" where
  "init_counters c w =
     (upd_state (\<lambda>s. s\<lparr>
         s_alloc_seq := 0, s_alloc_count := 0, s_free_count := 0, s_current_bytes := 0,
         s_peak_bytes := 0, s_total_bytes := 0, s_skipped_sampled := 0, s_skipped_overcap := 0,
         s_sample_period := want_sample c, s_sample_counter := 0, s_sample_rate := want_srate c,
         s_sample_bytes_accum := 0, s_entry_count := 0, s_disabled := want_disabled c,
         s_peak_updated := False, s_leak_threshold_sec := want_leak_threshold c,
         s_temp_alloc_count := 0, s_expired_alloc_count := 0, s_free_expired_count := 0,
         s_startup_until := (if want_skip_startup c > 0 then g_time w + want_skip_startup c else 0)\<rparr>) w)
       \<lparr>g_debug_level := want_debug c\<rparr>"

text \<open>The critical section of the initialisation, between the second check and the unlock.\<close>

definition init_locked :: "'l ext \<Rightarrow> mtt_config \<Rightarrow> 'l world \<Rightarrow> 'l world" where
  "init_locked X c w =
     (let w = init_buckets X w
      in if s_buckets (g_state w) = None
         then upd_state (\<lambda>s. s\<lparr>s_disabled := True, s_initialized := True\<rparr>) w
         else
           let w = upd_state (\<lambda>s. s\<lparr>s_hash_seed := hash_seed_of (g_time w) (x_getpid X (g_ext w)),
                                    s_bucket_locks := free_locks\<rparr>) w;
               w = init_pool X (want_pool_entries c) w;
               w = init_counters c w;
               w = upd_state (\<lambda>s. s\<lparr>s_proc_name := get_process_name X 256 w, s_proc_name_ready := True\<rparr>) w;
               w = mtt_parse_blacklist_fast X w
           in upd_state (\<lambda>s. s\<lparr>s_initialized := True\<rparr>) w)"

definition env_http_port :: "'l ext \<Rightarrow> u16" where
  "env_http_port X =
     (case x_getenv X ''MTT_HTTP_PORT'' of
        None \<Rightarrow> MTT_HTTP_DEFAULT_PORT
      | Some v \<Rightarrow>
          let p = atoi v
          in if p > 0 \<and> p \<le> 65535 then of_int p
             else if p = 0 then 0 else MTT_HTTP_DEFAULT_PORT)"

definition set_flags :: "nat option \<Rightarrow> int \<times> int \<Rightarrow> 'l world \<Rightarrow> 'l world" where
  "set_flags ctx hv w =
     (case ctx of
        None \<Rightarrow> w
      | Some i \<Rightarrow> upd_slot i (\<lambda>t. t\<lparr>t_in_hook := fst hv, t_tool_internal := snd hv\<rparr>) w)"

text \<open>What follows the critical section: the sample ring and the background threads.\<close>

definition init_services :: "'l ext \<Rightarrow> int \<Rightarrow> 'l world \<Rightarrow> 'l world" where
  "init_services X tid w =
     (let w = mtt_ts_init w;
          (ctx, w) = mtt_thread_get X tid w;
          saved = (case ctx of None \<Rightarrow> (0, 0)
                   | Some i \<Rightarrow> (t_in_hook (g_threads w i), t_tool_internal (g_threads w i)));
          w = set_flags ctx (1, 1) w
      in if s_disabled (g_state w) then set_flags ctx saved w
         else
           let w = mtt_reporter_start X w;
               w = snd (mtt_http_server_start X (env_http_port X) w);
               w = mtt_signal_thread_start X w
           in set_flags ctx saved w)"

definition mtt_ensure_init :: "'l ext \<Rightarrow> int \<Rightarrow> 'l world \<Rightarrow> 'l world" where
  "mtt_ensure_init X tid w =
     (let w = w\<lparr>g_debug_level := env_debug_level X, g_sigpipe_ignored := True\<rparr>
      in if s_initialized (g_state w) then w
         else
           let w = mtt_resolve_raw_allocators X tid w;
               c = read_config X;
               w = env_globals X w;
               w = w\<lparr>g_hung := (g_hung w \<or> g_init_lock w), g_init_lock := True\<rparr>
           in if s_initialized (g_state w) then w\<lparr>g_init_lock := False\<rparr>
              else
                let w = init_locked X c w;
                    failed = (s_buckets (g_state w) = None);
                    w = w\<lparr>g_init_lock := False\<rparr>
                in if failed then w else init_services X tid w)"

section \<open>The pool after initialisation\<close>

text \<open>The records on free list \<open>i\<close> once the first \<open>n\<close> records are linked, the last one first.\<close>

definition link_list :: "ptr \<Rightarrow> nat \<Rightarrow> nat \<Rightarrow> ptr list" where
  "link_list pool n i = map (pool_slot pool) (rev (filter (\<lambda>k. k mod MTT_LOCK_STRIPES = i) [0..<n]))"

text \<open>A block of \<open>n\<close> records that does not wrap around the address space.\<close>

definition pool_block :: "ptr \<Rightarrow> nat \<Rightarrow> bool" where
  "pool_block pool n \<longleftrightarrow> pool \<noteq> NULL \<and> unat pool + n * unat sizeof_mtt_entry \<le> 2 ^ 64"

lemma link_list_0 [simp]: "link_list pool 0 i = []"
  by (simp add: link_list_def)

lemma link_list_Suc:
  "link_list pool (Suc n) i =
     (if i = n mod MTT_LOCK_STRIPES then pool_slot pool n # link_list pool n i else link_list pool n i)"
  by (auto simp: link_list_def)

lemma link_list_set: "set (link_list pool n i) = pool_slot pool ` {k. k < n \<and> k mod MTT_LOCK_STRIPES = i}"
  by (auto simp: link_list_def)

lemma unat_pool_slot:
  assumes "pool_block pool n" "k < n"
  shows "unat (pool_slot pool k) = unat pool + k * 560"
proof -
  have b: "unat pool + n * 560 \<le> 2 ^ 64" using assms(1) by (simp add: pool_block_def sizeof_mtt_entry_def)
  have "pool_slot pool k = pool + of_nat (k * 560)" by (simp add: pool_slot_def sizeof_mtt_entry_def)
  moreover have "unat (of_nat (k * 560) :: u64) = k * 560"
    using b assms(2) by (simp only: unat_of_nat) simp
  moreover have "unat pool + k * 560 < 2 ^ 64" using b assms(2) by linarith
  ultimately show ?thesis by (simp add: unat_word_ariths)
qed

lemma pool_slot_nonNULL: "pool_block pool n \<Longrightarrow> k < n \<Longrightarrow> pool_slot pool k \<noteq> NULL"
  using unat_pool_slot [of pool n k] unat_0_iff [of pool] by (auto simp: pool_block_def)

lemma pool_slot_inj: "pool_block pool n \<Longrightarrow> j < n \<Longrightarrow> k < n \<Longrightarrow> pool_slot pool j = pool_slot pool k \<Longrightarrow> j = k"
proof -
  assume b: "pool_block pool n" "j < n" "k < n" "pool_slot pool j = pool_slot pool k"
  have "unat pool + j * 560 = unat pool + k * 560"
    using unat_pool_slot [OF b(1,2)] unat_pool_slot [OF b(1,3)] b(4) by metis
  then show "j = k" by simp
qed

lemma pool_link_spec:
  assumes "pool_block (s_pool (g_state w)) cap" "n \<le> cap"
    and "\<forall>i < MTT_LOCK_STRIPES. s_pool_free_lists (g_state w) i = NULL"
  shows "\<exists>fl. g_state (pool_link n w) = (g_state w)\<lparr>s_pool_free_lists := fl\<rparr> \<and>
      (\<forall>i < MTT_LOCK_STRIPES. chain (nexts (pool_link n w)) (fl i) (link_list (s_pool (g_state w)) n i))"
  using assms(2)
proof (induction n)
  case 0
  have "g_state w = (g_state w)\<lparr>s_pool_free_lists := s_pool_free_lists (g_state w)\<rparr>" by simp
  then show ?case using assms(3) by (metis chain.simps(1) link_list_0 pool_link.simps(1))
next
  case (Suc n)
  let ?p = "s_pool (g_state w)" and ?w = "pool_link n w" and ?x = "n mod MTT_LOCK_STRIPES"
  define e where "e = pool_slot ?p n"
  from Suc obtain fl where fl: "g_state ?w = (g_state w)\<lparr>s_pool_free_lists := fl\<rparr>"
    "\<And>i. i < MTT_LOCK_STRIPES \<Longrightarrow> chain (nexts ?w) (fl i) (link_list ?p n i)"
    by auto
  have e: "e \<noteq> NULL" using pool_slot_nonNULL [OF assms(1)] Suc.prems by (simp add: e_def)
  have new: "e \<notin> set (link_list ?p n i)" for i
  proof
    assume "e \<in> set (link_list ?p n i)"
    then obtain k where "k < n" "pool_slot ?p k = pool_slot ?p n" by (auto simp: link_list_set e_def)
    then show False using pool_slot_inj [OF assms(1), of k n] Suc.prems by simp
  qed
  have x: "?x < MTT_LOCK_STRIPES" by (simp add: MTT_LOCK_STRIPES_def)
  have w': "pool_link (Suc n) w = upd_state (\<lambda>s. s\<lparr>s_pool_free_lists := (s_pool_free_lists s)(?x := e)\<rparr>)
      (upd_entry e (\<lambda>r. r\<lparr>e_next := fl ?x\<rparr>) ?w)"
    by (simp add: Let_def fl(1) e_def)
  have nx: "nexts (pool_link (Suc n) w) = (nexts ?w)(e := fl ?x)"
    unfolding w' by (auto simp: upd_entry_def)
  have "g_state (pool_link (Suc n) w) = (g_state w)\<lparr>s_pool_free_lists := fl(?x := e)\<rparr>"
    unfolding w' by (simp add: upd_entry_def fl(1))
  moreover have "chain (nexts (pool_link (Suc n) w)) ((fl(?x := e)) i) (link_list ?p (Suc n) i)"
    if i: "i < MTT_LOCK_STRIPES" for i
  proof (cases "i = ?x")
    case True
    then show ?thesis
      using chain_push [OF fl(2) [OF x] new e] unfolding nx by (simp add: link_list_Suc e_def)
  next
    case False
    have "chain ((nexts ?w)(e := fl ?x)) (fl i) (link_list ?p n i)"
      by (rule chain_frame [OF fl(2) [OF i]]) (use new [of i] in auto)
    then show ?thesis using False unfolding nx by (simp add: link_list_Suc)
  qed
  ultimately show ?case by blast
qed

lemma link_lists_nodes:
  "nodes (\<lambda>i. if i < MTT_LOCK_STRIPES then link_list pool n i else []) = pool_slot pool ` {..<n}"
  by (force simp: nodes_def link_list_set MTT_LOCK_STRIPES_def)

text \<open>What the calls into the allocator leave alone.\<close>

definition same_table :: "'l world \<Rightarrow> 'l world \<Rightarrow> bool" where
  "same_table w w' \<longleftrightarrow> g_state w' = g_state w \<and> g_entries w' = g_entries w"

lemma same_table_inv:
  assumes "same_table w w'"
  shows "table_inv w' bs fs held = table_inv w bs fs held" "pool_unlocked w' = pool_unlocked w"
    "records w' bs = records w bs" "recs w' R H = recs w R H"
  using assms table_inv_cong [of w' w] records_cong [of w' w] pool_unlocked_cong [of w' w]
  by (auto simp: same_table_def recs_def)

lemma bootstrap_malloc_frame:
  assumes "bootstrap_malloc X n w = (p, w')"
  shows "w' = w\<lparr>g_bootstrap_offset := g_bootstrap_offset w + bootstrap_align n\<rparr>"
  using assms by (auto simp: bootstrap_malloc_def Let_def split: if_splits)

lemma bootstrap_calloc_frame:
  assumes "bootstrap_calloc X n s w = (p, w')"
  shows "\<exists>m q. w' = w\<lparr>g_bootstrap_offset := q, g_mem := m\<rparr>"
proof (intro exI)
  show "w' = w\<lparr>g_bootstrap_offset := g_bootstrap_offset w', g_mem := g_mem w'\<rparr>"
    using assms by (auto simp: bootstrap_calloc_def bootstrap_malloc_def Let_def split: if_splits)
qed

lemma call_calloc_frame:
  assumes "call_calloc X n s w = (p, w')"
  shows "g_state w' = g_state w" "g_entries w' = g_entries w" "g_threads w' = g_threads w"
    "raw_malloc w' = raw_malloc w" "raw_calloc w' = raw_calloc w"
    "raw_calloc w \<noteq> F_NULL \<Longrightarrow> g_hung w' = g_hung w"
  using assms bootstrap_calloc_frame [of X n s w p w']
  by (auto simp: call_calloc_def Let_def split: fnptr.splits prod.splits)

text \<open>What resolving the allocator leaves alone: everything but the raw pointers and the thread slots.\<close>

definition same_globals :: "'l world \<Rightarrow> 'l world \<Rightarrow> bool" where
  "same_globals w w' \<longleftrightarrow>
     same_table w w' \<and> g_mem w' = g_mem w \<and> g_ext w' = g_ext w \<and> g_hung w' = g_hung w \<and>
     g_tls_ctx w' = g_tls_ctx w \<and> g_tls_cached_tid w' = g_tls_cached_tid w \<and>
     g_init_lock w' = g_init_lock w \<and> g_time w' = g_time w"

lemma same_globals_refl [simp]: "same_globals w w"
  by (simp add: same_globals_def same_table_def)

lemma same_globals_trans: "same_globals u v \<Longrightarrow> same_globals v w \<Longrightarrow> same_globals u w"
  by (simp add: same_globals_def same_table_def)

lemma resolve_from_frame: "same_globals w (resolve_from has w)"
  by (simp add: same_globals_def same_table_def resolve_from_def Let_def)

lemma resolve_candidates_frame: "same_globals w (resolve_candidates X cs w)"
  by (induction cs arbitrary: w)
    (auto simp: Let_def resolve_from_frame intro: same_globals_trans [OF resolve_from_frame] split: option.split)

lemma upd_slot_globals: "same_globals w (upd_slot i f w)"
  by (simp add: same_globals_def same_table_def upd_slot_def)

lemma resolve_next_frame: "same_globals w (resolve_next X w)"
  by (simp add: same_globals_def same_table_def resolve_next_def Let_def)

lemma thread_get_globals:
  assumes "mtt_thread_get X tid w = (r, w')"
  shows "same_globals w w'"
  by (rule thread_get_cases [of X tid w]) (use assms upd_slot_globals in auto)

lemma resolve_winner_frame: "same_globals w (resolve_winner X i w)"
proof -
  define a where "a = upd_slot i (\<lambda>t. t\<lparr>t_in_hook := 1\<rparr>) (upd_slot i (\<lambda>t. t\<lparr>t_raw_resolving := 1\<rparr>) w)"
  define b where "b = (if any_bootstrap (resolve_next X a)
    then resolve_candidates X libc_candidates (resolve_next X a) else resolve_next X a)"
  have "same_globals w a" unfolding a_def by (rule same_globals_trans [OF upd_slot_globals upd_slot_globals])
  moreover have "same_globals a b"
    unfolding b_def
    using same_globals_trans [OF resolve_next_frame resolve_candidates_frame] resolve_next_frame by auto
  moreover have "\<exists>h. resolve_winner X i w = (upd_slot i (\<lambda>t. t\<lparr>t_raw_resolving := 0\<rparr>)
      (upd_slot i (\<lambda>t. t\<lparr>t_in_hook := h\<rparr>) b))\<lparr>g_raw_ready := True\<rparr>"
    by (auto simp: resolve_winner_def Let_def a_def b_def)
  ultimately show ?thesis
    by (auto simp: same_globals_def same_table_def upd_slot_def)
qed

lemma resolve_frame: "same_globals w (mtt_resolve_raw_allocators X tid w)"
proof -
  obtain r w1 where g: "mtt_thread_get X tid w = (r, w1)" by (cases "mtt_thread_get X tid w")
  have p: "same_globals v (preset_bootstrap v)" "same_globals v ((preset_bootstrap v)\<lparr>g_raw_resolved := True\<rparr>)"
    for v :: "'a world"
    by (simp_all add: same_globals_def same_table_def preset_bootstrap_def)
  show ?thesis
    using thread_get_globals [OF g] same_globals_trans [OF p(2) resolve_winner_frame] p(1)
    by (auto simp: mtt_resolve_raw_allocators_def g Let_def split: option.split intro: same_globals_trans)
qed

section \<open>The invariant after initialisation\<close>

text \<open>
  What is assumed of the C library's allocator: a block lies inside the address space.
\<close>

definition valid_heap :: "'l ext \<Rightarrow> bool" where
  "valid_heap X \<longleftrightarrow>
     (\<forall>l n. let p = fst (x_malloc X l n) in p \<noteq> NULL \<longrightarrow> unat p + unat n \<le> 2 ^ 64) \<and>
     (\<forall>l n s. let p = fst (x_calloc X l n s) in p \<noteq> NULL \<longrightarrow> unat p + unat n * unat s \<le> 2 ^ 64)"

lemma default_pool_entries_eq: "default_pool_entries = 37449"
  by (simp add: default_pool_entries_def sizeof_mtt_entry_def mtt_limits)

lemma config_pool_entries:
  "1024 \<le> want_pool_entries (read_config X) \<and> want_pool_entries (read_config X) \<le> 131072"
proof -
  have d: "want_pool_entries (env_sampling X c) = want_pool_entries c" for c
    by (auto simp: env_sampling_def Let_def split: option.split)
  have b: "1024 \<le> (of_int v :: size_t) \<and> (of_int v :: size_t) \<le> 131072" if "1024 \<le> v" "v \<le> 131072" for v
  proof -
    have "uint (of_int v :: size_t) = v" using that by (simp add: uint_word_of_int_eq take_bit_int_eq_self)
    then show ?thesis using that by (simp add: word_le_def)
  qed
  show ?thesis
    using b by (auto simp: read_config_def env_limits_def d default_pool_entries_eq mtt_limits Let_def
        split: option.split)
qed

lemma pool_alloc_spec:
  assumes "raw_malloc w = F_LIBC" "raw_calloc w = F_LIBC" "valid_heap X" "n \<le> 131072"
    and "s_pool (g_state w) = NULL" "s_pool_capacity (g_state w) = n"
      "s_pool_raw_size (g_state w) = n * sizeof_mtt_entry"
  shows "\<exists>p l m. pool_alloc X w = w\<lparr>g_state := (g_state w)\<lparr>s_pool := p\<rparr>, g_ext := l, g_mem := m\<rparr> \<and>
      (p \<noteq> NULL \<longrightarrow> pool_block p (unat n))"
proof -
  obtain p l where m: "x_malloc X (g_ext w) (n * sizeof_mtt_entry) = (p, l)" by fastforce
  obtain q k where c: "x_calloc X l n sizeof_mtt_entry = (q, k)" by fastforce
  have "unat n \<le> 131072" using assms(4) by (simp add: word_le_nat_alt)
  then have sz: "unat (n * sizeof_mtt_entry) = unat n * 560"
    by (simp add: unat_word_ariths sizeof_mtt_entry_def)
  have e: "unat sizeof_mtt_entry = 560" by (simp add: sizeof_mtt_entry_def)
  have vm: "\<And>l n. fst (x_malloc X l n) \<noteq> NULL \<Longrightarrow> unat (fst (x_malloc X l n)) + unat n \<le> 2 ^ 64"
    and vc: "\<And>l n s. fst (x_calloc X l n s) \<noteq> NULL \<Longrightarrow>
      unat (fst (x_calloc X l n s)) + unat n * unat s \<le> 2 ^ 64"
    using assms(3) unfolding valid_heap_def Let_def by blast+
  have pb: "pool_block p (unat n)" if "p \<noteq> NULL"
    using vm [of "g_ext w" "n * sizeof_mtt_entry"] m that unfolding pool_block_def sz e by simp
  have qb: "pool_block q (unat n)" if "q \<noteq> NULL"
    using vc [of l n sizeof_mtt_entry] c that unfolding pool_block_def e by simp
  show ?thesis
  proof (cases "p = NULL")
    case True
    then have "pool_alloc X w = w\<lparr>g_state := (g_state w)\<lparr>s_pool := q\<rparr>, g_ext := k,
        g_mem := (if q = NULL then g_mem w else memset q 0 (n * sizeof_mtt_entry) (g_mem w))\<rparr>"
      using assms m c by (simp add: pool_alloc_def call_malloc_def call_calloc_def)
    then show ?thesis using qb by blast
  next
    case False
    then have "pool_alloc X w = w\<lparr>g_state := (g_state w)\<lparr>s_pool := p\<rparr>, g_ext := l, g_mem := g_mem w\<rparr>"
      using assms m by (simp add: pool_alloc_def call_malloc_def)
    then show ?thesis using pb by blast
  qed
qed

text \<open>Free lists that together hold every record of the pool.\<close>

definition fresh_pool :: "'l world \<Rightarrow> (nat \<Rightarrow> ptr list) \<Rightarrow> bool" where
  "fresh_pool w fs \<longleftrightarrow>
     (\<forall>i < MTT_LOCK_STRIPES. chain (nexts w) (s_pool_free_lists (g_state w) i) (fs i)) \<and>
     (\<forall>i \<ge> MTT_LOCK_STRIPES. fs i = []) \<and>
     (\<forall>i j. i \<noteq> j \<longrightarrow> set (fs i) \<inter> set (fs j) = {}) \<and>
     nodes fs = (if s_pool (g_state w) = NULL then {} else pool_slots (g_state w)) \<and>
     pool_unlocked w \<and> s_pool_used (g_state w) = 0"

lemma pool_link_frame [simp]:
  "g_hung (pool_link n w) = g_hung w" "g_threads (pool_link n w) = g_threads w"
  by (induction n) (simp_all add: Let_def upd_entry_def)

lemma pool_slots_eq: "pool_slots s = pool_slot (s_pool s) ` {..<unat (s_pool_capacity s)}"
  by (simp add: pool_slots_def pool_slot_def)

lemma link_lists_disjoint:
  assumes "pool_block pool n" "i \<noteq> j"
  shows "set (link_list pool n i) \<inter> set (link_list pool n j) = {}"
  using pool_slot_inj [OF assms(1)] assms(2) by (auto simp: link_list_set)

lemma init_pool_spec:
  assumes "raw_malloc w = F_LIBC" "raw_calloc w = F_LIBC" "valid_heap X" "n \<le> 131072"
  defines "w' \<equiv> init_pool X n w"
  shows "(\<exists>fs. fresh_pool w' fs) \<and> g_hung w' = g_hung w \<and> g_threads w' = g_threads w \<and>
     s_bucket_locks (g_state w') = s_bucket_locks (g_state w) \<and>
     s_buckets (g_state w') = s_buckets (g_state w) \<and>
     s_bucket_count (g_state w') = s_bucket_count (g_state w) \<and>
     s_pool_mode (g_state w') = (if s_pool (g_state w') = NULL then POOL_FALLBACK else POOL_ACTIVE) \<and>
     (s_pool (g_state w') \<noteq> NULL \<longrightarrow>
        pool_block (s_pool (g_state w')) (unat n) \<and> s_pool_capacity (g_state w') = n)"
proof -
  define w0 where "w0 = upd_state (\<lambda>s. s\<lparr>s_pool_capacity := n, s_pool_raw_size := n * sizeof_mtt_entry,
      s_pool := NULL, s_pool_used := 0, s_pool_mode := POOL_NONE,
      s_pool_locks := free_locks, s_pool_free_lists := (\<lambda>_. NULL)\<rparr>) w"
  obtain p l m where v: "pool_alloc X w0 = w0\<lparr>g_state := (g_state w0)\<lparr>s_pool := p\<rparr>, g_ext := l, g_mem := m\<rparr>"
      and pb: "p \<noteq> NULL \<Longrightarrow> pool_block p (unat n)"
    using pool_alloc_spec [of w0 X n] assms(1-4) by (auto simp: w0_def)
  define v where "v = w0\<lparr>g_state := (g_state w0)\<lparr>s_pool := p\<rparr>, g_ext := l, g_mem := m\<rparr>"
  show ?thesis
  proof (cases "p = NULL")
    case True
    then have "w' = upd_state (\<lambda>s. s\<lparr>s_pool_capacity := 0, s_pool_raw_size := 0, s_pool_mode := POOL_FALLBACK\<rparr>) v"
      unfolding w'_def init_pool_def w0_def [symmetric] by (simp add: v v_def)
    then show ?thesis
      using True by (auto simp: v_def w0_def fresh_pool_def nodes_def pool_unlocked_def free_locks_def
          intro!: exI [of _ "\<lambda>_. []"])
  next
    case False
    have vs: "s_pool (g_state v) = p" "s_pool_capacity (g_state v) = n" by (simp_all add: v_def w0_def)
    have w': "w' = upd_state (\<lambda>s. s\<lparr>s_pool_mode := POOL_ACTIVE\<rparr>) (pool_link (unat n) v)"
      unfolding w'_def init_pool_def w0_def [symmetric] Let_def v v_def [symmetric] vs
      using False by simp
    obtain fl where fl: "g_state (pool_link (unat n) v) = (g_state v)\<lparr>s_pool_free_lists := fl\<rparr>"
      "\<forall>i < MTT_LOCK_STRIPES. chain (nexts (pool_link (unat n) v)) (fl i) (link_list p (unat n) i)"
      using pool_link_spec [of v "unat n" "unat n"] pb [OF False] vs by (auto simp: v_def w0_def)
    let ?fs = "\<lambda>i. if i < MTT_LOCK_STRIPES then link_list p (unat n) i else []"
    have "\<forall>i j. i \<noteq> j \<longrightarrow> set (?fs i) \<inter> set (?fs j) = {}"
      using link_lists_disjoint [OF pb [OF False]] by auto
    then have "fresh_pool w' ?fs"
      using fl False link_lists_nodes [of p "unat n"]
      unfolding fresh_pool_def w'
      by (simp add: pool_slots_eq v_def w0_def pool_unlocked_def free_locks_def)
    then show ?thesis
      using False pb [OF False] fl(1) unfolding w' by (auto simp: v_def w0_def)
  qed
qed

lemma init_buckets_frame:
  fixes X :: "'l ext"
  assumes "raw_calloc w \<noteq> F_NULL"
  defines "w' \<equiv> init_buckets X w"
  shows "g_hung w' = g_hung w \<and> raw_malloc w' = raw_malloc w \<and> raw_calloc w' = raw_calloc w \<and>
     g_threads w' = g_threads w \<and> s_bucket_count (g_state w') = MTT_BUCKETS \<and>
     (s_buckets (g_state w') = None \<or> s_buckets (g_state w') = Some (\<lambda>_. NULL))"
proof -
  define w0 where "w0 = upd_state (\<lambda>s. s\<lparr>s_bucket_count := MTT_BUCKETS\<rparr>) w"
  have r: "raw_calloc w0 \<noteq> F_NULL" using assms(1) by (simp add: w0_def)
  obtain p w1 where c: "call_calloc X (ucast MTT_BUCKETS) 8 w0 = (p, w1)"
    by (cases "call_calloc X (ucast MTT_BUCKETS) 8 w0")
  define w2 where "w2 = upd_state (\<lambda>s. s\<lparr>s_buckets := (if p = NULL then None else Some (\<lambda>_. NULL))\<rparr>) w1"
  obtain q w3 where b: "bootstrap_calloc X (ucast MTT_BUCKETS) 8 w2 = (q, w3)"
    by (cases "bootstrap_calloc X (ucast MTT_BUCKETS) 8 w2")
  obtain m k where w3: "w3 = w2\<lparr>g_bootstrap_offset := k, g_mem := m\<rparr>" using bootstrap_calloc_frame [OF b] by blast
  have "w' = (if s_buckets (g_state w2) = None
      then upd_state (\<lambda>s. s\<lparr>s_buckets := (if q = NULL then None else Some (\<lambda>_. NULL))\<rparr>) w3 else w2)"
    unfolding w'_def init_buckets_def w0_def [symmetric] Let_def using r c b by (cases "p = NULL") (simp_all add: w2_def)
  then show ?thesis
    using call_calloc_frame [OF c] r by (auto simp: w3 w2_def w0_def)
qed

lemma blacklist_fast_frame:
  fixes X :: "'l ext" and w :: "'l world"
  defines "w' \<equiv> mtt_parse_blacklist_fast X w"
  shows "(\<exists>d. g_state w' = (g_state w)\<lparr>s_disabled := d\<rparr>) \<and> g_entries w' = g_entries w \<and>
     g_hung w' = g_hung w \<and> g_threads w' = g_threads w"
proof -
  have d: "\<exists>d. g_state w = (g_state w)\<lparr>s_disabled := d\<rparr>" by (rule exI [of _ "s_disabled (g_state w)"]) simp
  show ?thesis
    using d by (auto simp: w'_def mtt_parse_blacklist_fast_def Let_def split: option.split)
qed

text \<open>An empty table over a fresh pool.\<close>

lemma fresh_table:
  assumes "fresh_pool w fs" "s_buckets (g_state w) = Some (\<lambda>_. NULL)" "0 < s_bucket_count (g_state w)"
    and "s_entry_count (g_state w) = 0"
  shows "recs w (\<lambda>_. []) {}"
proof -
  have "table_inv w (\<lambda>_. []) fs {}"
    using assms by (auto simp: table_inv_def chains_inv_def counts_inv_def fresh_pool_def nodes_def
        split: if_splits)
  moreover have "records w (\<lambda>_. []) = (\<lambda>_. [])" by (simp add: records_def fun_eq_iff)
  ultimately show ?thesis using assms(1) unfolding recs_def fresh_pool_def by blast
qed

lemma fresh_pool_cong:
  assumes "fresh_pool w fs" "g_entries w' = g_entries w"
    and "s_pool_free_lists (g_state w') = s_pool_free_lists (g_state w)"
    and "s_pool (g_state w') = s_pool (g_state w)" "s_pool_capacity (g_state w') = s_pool_capacity (g_state w)"
    and "s_pool_locks (g_state w') = s_pool_locks (g_state w)" "s_pool_used (g_state w') = s_pool_used (g_state w)"
  shows "fresh_pool w' fs"
  using assms by (simp add: fresh_pool_def pool_slots_eq pool_unlocked_def)

text \<open>The counters and settings the critical section leaves.\<close>

definition fresh_counters :: "mtt_config \<Rightarrow> mtt_state \<Rightarrow> bool" where
  "fresh_counters c s \<longleftrightarrow>
     s_initialized s \<and> s_entry_count s = 0 \<and> s_alloc_count s = 0 \<and> s_free_count s = 0 \<and>
     s_current_bytes s = 0 \<and> s_peak_bytes s = 0 \<and> s_total_bytes s = 0 \<and> s_alloc_seq s = 0 \<and>
     s_sample_period s = want_sample c \<and> s_sample_rate s = want_srate c \<and> s_sample_counter s = 0 \<and>
     s_sample_bytes_accum s = 0 \<and> s_skipped_sampled s = 0 \<and> s_skipped_overcap s = 0 \<and>
     s_temp_alloc_count s = 0 \<and> s_expired_alloc_count s = 0 \<and> s_free_expired_count s = 0 \<and>
     s_leak_threshold_sec s = want_leak_threshold c \<and> s_bucket_locks s = free_locks"

lemma init_locked_spec:
  assumes "raw_malloc w = F_LIBC" "raw_calloc w = F_LIBC" "valid_heap X"
  defines "w' \<equiv> init_locked X (read_config X) w"
  shows "g_hung w' = g_hung w \<and> s_initialized (g_state w') \<and> g_threads w' = g_threads w \<and>
     (if s_buckets (g_state w') = None then s_disabled (g_state w')
      else recs w' (\<lambda>_. []) {} \<and> fresh_counters (read_config X) (g_state w') \<and>
           s_bucket_count (g_state w') = MTT_BUCKETS)"
proof -
  define c where "c = read_config X"
  define w1 where "w1 = init_buckets X w"
  define w2 where "w2 = upd_state (\<lambda>s. s\<lparr>s_hash_seed := hash_seed_of (g_time w1) (x_getpid X (g_ext w1)),
      s_bucket_locks := free_locks\<rparr>) w1"
  define w3 where "w3 = init_pool X (want_pool_entries c) w2"
  define w4 where "w4 = init_counters c w3"
  define w5 where "w5 = upd_state (\<lambda>s. s\<lparr>s_proc_name := get_process_name X 256 w4, s_proc_name_ready := True\<rparr>) w4"
  define w6 where "w6 = mtt_parse_blacklist_fast X w5"
  have r: "raw_calloc w \<noteq> F_NULL" using assms(2) by simp
  note f1 = init_buckets_frame [OF r, of X, folded w1_def]
  have w': "w' = (if s_buckets (g_state w1) = None
      then upd_state (\<lambda>s. s\<lparr>s_disabled := True, s_initialized := True\<rparr>) w1
      else upd_state (\<lambda>s. s\<lparr>s_initialized := True\<rparr>) w6)"
    unfolding w'_def init_locked_def w6_def w5_def w4_def w3_def w2_def w1_def c_def Let_def by simp
  show ?thesis
  proof (cases "s_buckets (g_state w1) = None")
    case True
    then show ?thesis using f1 by (simp add: w')
  next
    case False
    then have bk: "s_buckets (g_state w1) = Some (\<lambda>_. NULL)" using f1 by auto
    have n: "want_pool_entries c \<le> 131072" using config_pool_entries [of X] by (simp add: c_def)
    have "raw_malloc w2 = F_LIBC" "raw_calloc w2 = F_LIBC" using f1 assms(1,2) by (simp_all add: w2_def)
    note f3 = init_pool_spec [OF this assms(3) n, folded w3_def]
    then obtain fs where fs: "fresh_pool w3 fs" by blast
    note f6 = blacklist_fast_frame [of X w5, folded w6_def]
    obtain d where d: "g_state w6 = (g_state w5)\<lparr>s_disabled := d\<rparr>" "g_entries w6 = g_entries w5"
        "g_hung w6 = g_hung w5" "g_threads w6 = g_threads w5"
      using f6 by blast
    have w'6: "w' = upd_state (\<lambda>s. s\<lparr>s_initialized := True\<rparr>) w6" using w' bk by simp
    have e: "g_entries w' = g_entries w3"
      by (simp add: w'6 d(2) w5_def w4_def init_counters_def)
    have st: "g_state w' = (g_state w5)\<lparr>s_disabled := d, s_initialized := True\<rparr>"
      by (simp add: w'6 d(1))
    have b: "s_buckets (g_state w') = Some (\<lambda>_. NULL)" "s_bucket_count (g_state w') = MTT_BUCKETS"
      "s_entry_count (g_state w') = 0"
      using f3 f1 bk unfolding st by (simp_all add: w5_def w4_def init_counters_def w2_def)
    have "fresh_pool w' fs"
      by (rule fresh_pool_cong [OF fs e]) (simp_all add: st w5_def w4_def init_counters_def)
    then have "recs w' (\<lambda>_. []) {}"
      using fresh_table [of w' fs] b by (simp add: MTT_BUCKETS_def)
    moreover have "fresh_counters c (g_state w')"
      using f3 unfolding st fresh_counters_def by (simp add: w5_def w4_def init_counters_def w2_def)
    moreover have "g_hung w' = g_hung w" "g_threads w' = g_threads w"
      using f1 f3 by (simp_all add: w'6 d(3,4) w5_def w4_def init_counters_def w2_def)
    moreover have "s_initialized (g_state w')" by (simp add: st)
    ultimately show ?thesis using b by (simp add: c_def)
  qed
qed

lemma set_flags_frame: "same_table w (set_flags ctx hv w) \<and> g_hung (set_flags ctx hv w) = g_hung w"
  by (auto simp: set_flags_def same_table_def split: option.split)

lemma services_frame:
  "same_table w (mtt_reporter_start X w)" "g_hung (mtt_reporter_start X w) = g_hung w"
  "same_table w (snd (mtt_http_server_start X port w))"
  "g_hung (snd (mtt_http_server_start X port w)) = g_hung w"
  "same_table w (mtt_signal_thread_start X w)" "g_hung (mtt_signal_thread_start X w) = g_hung w"
  by (auto simp: same_table_def mtt_reporter_start_def mtt_http_server_start_def
      mtt_signal_thread_start_def close_fd_def Let_def split: option.split)

lemma same_table_trans: "same_table u v \<Longrightarrow> same_table v w \<Longrightarrow> same_table u w"
  by (simp add: same_table_def)

lemma init_services_frame: "same_table w (init_services X tid w) \<and> g_hung (init_services X tid w) = g_hung w"
proof -
  define w1 where "w1 = mtt_ts_init w"
  obtain ctx w2 where g: "mtt_thread_get X tid w1 = (ctx, w2)" by (cases "mtt_thread_get X tid w1")
  define saved where "saved = (case ctx of None \<Rightarrow> (0, 0)
                   | Some i \<Rightarrow> (t_in_hook (g_threads w2 i), t_tool_internal (g_threads w2 i)))"
  define w3 where "w3 = set_flags ctx (1, 1) w2"
  define w4 where "w4 = mtt_signal_thread_start X
      (snd (mtt_http_server_start X (env_http_port X) (mtt_reporter_start X w3)))"
  have i: "init_services X tid w =
      (if s_disabled (g_state w3) then set_flags ctx saved w3 else set_flags ctx saved w4)"
    unfolding init_services_def w1_def [symmetric] Let_def g
    by (simp add: w4_def w3_def saved_def)
  have "same_table w w1 \<and> g_hung w1 = g_hung w" by (simp add: w1_def mtt_ts_init_def same_table_def)
  moreover have "same_table w1 w2 \<and> g_hung w2 = g_hung w1"
    using thread_get_globals [OF g] by (simp add: same_globals_def)
  moreover have "same_table w2 w3 \<and> g_hung w3 = g_hung w2" by (simp add: w3_def set_flags_frame)
  moreover have "same_table w3 w4 \<and> g_hung w4 = g_hung w3"
    unfolding w4_def
    using same_table_trans [OF services_frame(1) same_table_trans [OF services_frame(3) services_frame(5)]]
    by (simp add: services_frame)
  ultimately show ?thesis
    unfolding i using set_flags_frame [of w3 ctx saved] set_flags_frame [of w4 ctx saved]
    by (auto simp: same_table_def)
qed

lemma env_globals_frame:
  "g_entries (env_globals X w) = g_entries w" "g_hung (env_globals X w) = g_hung w"
  "raw_malloc (env_globals X w) = raw_malloc w" "raw_calloc (env_globals X w) = raw_calloc w"
  "g_init_lock (env_globals X w) = g_init_lock w"
  "s_initialized (g_state (env_globals X w)) = s_initialized (g_state w)"
  by (auto simp: env_globals_def Let_def split: option.split)

text \<open>The whole of \<open>mtt_ensure_init\<close> once the allocator is resolved and the lock is free.\<close>

lemma ensure_init_spec:
  fixes tid :: int
  assumes "g_raw_ready w" "raw_malloc w = F_LIBC" "raw_calloc w = F_LIBC" "valid_heap X"
    and "\<not> s_initialized (g_state w)" "\<not> g_init_lock w"
  defines "w' \<equiv> mtt_ensure_init X tid w"
  shows "g_hung w' = g_hung w \<and> s_initialized (g_state w') \<and>
     (if s_buckets (g_state w') = None then s_disabled (g_state w')
      else recs w' (\<lambda>_. []) {} \<and> fresh_counters (read_config X) (g_state w') \<and>
           s_bucket_count (g_state w') = MTT_BUCKETS)"
proof -
  define w1 where "w1 = (env_globals X (w\<lparr>g_debug_level := env_debug_level X, g_sigpipe_ignored := True\<rparr>))
    \<lparr>g_hung := g_hung w, g_init_lock := True\<rparr>"
  define w2 where "w2 = (init_locked X (read_config X) w1)\<lparr>g_init_lock := False\<rparr>"
  have w': "w' = (if s_buckets (g_state w2) = None then w2 else init_services X tid w2)"
    using assms(1,5,6) unfolding w'_def mtt_ensure_init_def w2_def w1_def
    by (simp add: Let_def env_globals_frame)
  have "raw_malloc w1 = F_LIBC" "raw_calloc w1 = F_LIBC" "g_hung w1 = g_hung w"
    using assms(2,3) by (simp_all add: w1_def env_globals_frame)
  then have l: "g_hung w2 = g_hung w \<and> s_initialized (g_state w2) \<and>
     (if s_buckets (g_state w2) = None then s_disabled (g_state w2)
      else recs w2 (\<lambda>_. []) {} \<and> fresh_counters (read_config X) (g_state w2) \<and>
           s_bucket_count (g_state w2) = MTT_BUCKETS)"
    using init_locked_spec [of w1 X] assms(4) same_table_inv(4) [of "init_locked X (read_config X) w1" w2]
    by (simp add: w2_def same_table_def)
  show ?thesis
  proof (cases "s_buckets (g_state w2) = None")
    case True
    then show ?thesis using l w' by simp
  next
    case False
    note f = init_services_frame [of w2 X tid]
    then have "recs w' (\<lambda>_. []) {} = recs w2 (\<lambda>_. []) {}" "g_state w' = g_state w2" "g_hung w' = g_hung w2"
      using False w' same_table_inv(4) [of w2 w'] by (simp_all add: same_table_def)
    then show ?thesis using l False by auto
  qed
qed

section \<open>The settings in force\<close>

text \<open>The number that a variable of the environment holds, if it is an acceptable one.\<close>

definition env_number :: "'l ext \<Rightarrow> (string \<Rightarrow> int) \<Rightarrow> string \<Rightarrow> int \<Rightarrow> int \<Rightarrow> int option" where
  "env_number X num name lo hi =
     (case x_getenv X name of None \<Rightarrow> None | Some v \<Rightarrow> if lo \<le> num v \<and> num v \<le> hi then Some (num v) else None)"

text \<open>The executable itself is in a library that the environment excludes from tracing.\<close>

definition excludes_self :: "'l ext \<Rightarrow> bool" where
  "excludes_self X \<longleftrightarrow> (\<exists>env exe t l. x_getenv X ''MTT_LIB_BLACKLIST_FAST'' = Some env \<and> t \<in> set (blacklist_tokens env) \<and>
     x_readlink_exe X l = Some exe \<and> strstr (take 255 exe) t \<noteq> None)"

text \<open>
  The settings after initialisation, from the environment and the world before it: an acceptable value
  is taken, any other leaves the default; a sampling period turns byte sampling off unless a rate is given.
\<close>

definition config_of_env :: "'l ext \<Rightarrow> mtt_config \<Rightarrow> bool" where
  "config_of_env X c \<longleftrightarrow>
     (want_disabled c \<longleftrightarrow> x_getenv X ''MTT_DISABLE'' = Some ''1'') \<and>
     want_sample c = (case env_number X atoi ''MTT_SAMPLE'' 0 1024 of Some v \<Rightarrow> of_int v | None \<Rightarrow> MTT_SAMPLE_DEFAULT) \<and>
     want_srate c = (case env_number X atoi ''MTT_SAMPLE_RATE'' 0 30 of Some v \<Rightarrow> of_int v
        | None \<Rightarrow> if env_number X atoi ''MTT_SAMPLE'' 0 1024 = None then MTT_SAMPLE_RATE_DEFAULT else 0) \<and>
     want_leak_threshold c = (case x_getenv X ''MTT_LEAK_THRESHOLD_SEC'' of
        Some v \<Rightarrow> if atoi v \<ge> 0 then atoi v else MTT_LEAK_THRESHOLD_DEFAULT | None \<Rightarrow> MTT_LEAK_THRESHOLD_DEFAULT) \<and>
     want_skip_startup c = (case x_getenv X ''MTT_SKIP_STARTUP_SEC'' of
        Some v \<Rightarrow> if atoi v \<ge> 0 then atoi v else MTT_SKIP_STARTUP_DEFAULT | None \<Rightarrow> MTT_SKIP_STARTUP_DEFAULT) \<and>
     want_pool_entries c = (case env_number X atol ''MTT_POOL_ENTRIES'' 1024 131072 of
        Some v \<Rightarrow> of_int v | None \<Rightarrow> default_pool_entries) \<and>
     want_debug c = (case x_getenv X ''MTT_DEBUG'' of Some v \<Rightarrow> max 0 (min 2 (atoi v)) | None \<Rightarrow> MTT_DEBUG_DEFAULT)"

definition settings_in_force :: "'l ext \<Rightarrow> mtt_config \<Rightarrow> 'l world \<Rightarrow> 'l world \<Rightarrow> bool" where
  "settings_in_force X c w w' \<longleftrightarrow>
     s_sample_period (g_state w') = want_sample c \<and> s_sample_rate (g_state w') = want_srate c \<and>
     s_leak_threshold_sec (g_state w') = want_leak_threshold c \<and>
     s_startup_until (g_state w') = (if want_skip_startup c > 0 then g_time w + want_skip_startup c else 0) \<and>
     (s_pool (g_state w') \<noteq> NULL \<longrightarrow> s_pool_capacity (g_state w') = want_pool_entries c) \<and>
     g_debug_level w' = want_debug c \<and>
     g_max_stack_frames w' = (case env_number X atoi ''MTT_MAX_STACK_FRAMES'' 1 64 of Some v \<Rightarrow> v | None \<Rightarrow> g_max_stack_frames w) \<and>
     (want_disabled c \<longrightarrow> s_disabled (g_state w')) \<and>
     (s_disabled (g_state w') \<longrightarrow> want_disabled c \<or> excludes_self X) \<and>
     s_leak_bytes_total (g_state w') = s_leak_bytes_total (g_state w)"

lemma limits_fields:
  "want_disabled (env_limits X c) = want_disabled c" "want_sample (env_limits X c) = want_sample c"
  "want_srate (env_limits X c) = want_srate c" "want_debug (env_limits X c) = want_debug c"
  "want_pool_entries (env_limits X c) = (case env_number X atol ''MTT_POOL_ENTRIES'' 1024 131072 of
     Some v \<Rightarrow> of_int v | None \<Rightarrow> want_pool_entries c)"
  "want_leak_threshold (env_limits X c) = (case x_getenv X ''MTT_LEAK_THRESHOLD_SEC'' of
     Some v \<Rightarrow> if atoi v \<ge> 0 then atoi v else want_leak_threshold c | None \<Rightarrow> want_leak_threshold c)"
  "want_skip_startup (env_limits X c) = (case x_getenv X ''MTT_SKIP_STARTUP_SEC'' of
     Some v \<Rightarrow> if atoi v \<ge> 0 then atoi v else want_skip_startup c | None \<Rightarrow> want_skip_startup c)"
  by (simp_all add: env_limits_def env_number_def MTT_POOL_ENTRIES_MIN_def MTT_POOL_ENTRIES_MAX_def Let_def split: option.split)

lemma sampling_fields:
  "want_disabled (env_sampling X c) = want_disabled c" "want_debug (env_sampling X c) = want_debug c"
  "want_pool_entries (env_sampling X c) = want_pool_entries c"
  "want_leak_threshold (env_sampling X c) = want_leak_threshold c"
  "want_skip_startup (env_sampling X c) = want_skip_startup c"
  "want_sample (env_sampling X c) = (case env_number X atoi ''MTT_SAMPLE'' 0 1024 of Some v \<Rightarrow> of_int v | None \<Rightarrow> want_sample c)"
  "want_srate (env_sampling X c) = (case env_number X atoi ''MTT_SAMPLE_RATE'' 0 30 of Some v \<Rightarrow> of_int v
     | None \<Rightarrow> if env_number X atoi ''MTT_SAMPLE'' 0 1024 = None then want_srate c else 0)"
  by (simp_all add: env_sampling_def env_number_def MTT_SAMPLE_MAX_PERIOD_def MTT_SAMPLE_RATE_MAX_def Let_def split: option.split)

lemma read_config_env: "config_of_env X (read_config X)"
proof -
  have "env_debug_level X = (case x_getenv X ''MTT_DEBUG'' of Some v \<Rightarrow> max 0 (min 2 (atoi v)) | None \<Rightarrow> MTT_DEBUG_DEFAULT)"
    by (simp add: env_debug_level_def Let_def split: option.split)
  then show ?thesis by (simp add: config_of_env_def read_config_def limits_fields sampling_fields cong: option.case_cong if_cong)
qed

text \<open>What the stages of the initialisation leave alone.\<close>

definition knobs :: "'l world \<Rightarrow> int \<times> int" where
  "knobs w = (g_time w, g_max_stack_frames w)"

lemma call_knobs:
  "knobs (snd (call_malloc X n w)) = knobs w" "knobs (snd (bootstrap_calloc X n m w)) = knobs w"
  "knobs (snd (call_calloc X n m w)) = knobs w"
proof -
  show "knobs (snd (call_malloc X n w)) = knobs w"
    by (simp add: knobs_def call_malloc_def bootstrap_malloc_def Let_def case_prod_beta split: fnptr.split)
  show b: "knobs (snd (bootstrap_calloc X n m w)) = knobs w"
    using bootstrap_calloc_frame [of X n m w] by (cases "bootstrap_calloc X n m w") (auto simp: knobs_def)
  show "knobs (snd (call_calloc X n m w)) = knobs w"
    using b by (simp add: knobs_def call_calloc_def Let_def case_prod_beta split: fnptr.split)
qed

lemma knobs_upd [simp]:
  "knobs (upd_state f w) = knobs w" "knobs (upd_entry a g w) = knobs w" "knobs (upd_slot i h w) = knobs w"
  "knobs (pool_link n w) = knobs w"
proof -
  show e: "knobs (upd_state f w) = knobs w" "knobs (upd_entry a g w) = knobs w" "knobs (upd_slot i h w) = knobs w"
    for f a g i h and w :: "'a world"
    by (simp_all add: knobs_def upd_entry_def upd_slot_def)
  show "knobs (pool_link n w) = knobs w" by (induction n) (simp_all add: Let_def e)
qed

lemma init_knobs: "knobs (init_buckets X w) = knobs w" "knobs (init_pool X n w) = knobs w"
  by (simp_all add: init_buckets_def init_pool_def pool_alloc_def Let_def case_prod_beta call_knobs)

lemma init_leak_total:
  "s_leak_bytes_total (g_state (init_buckets X w)) = s_leak_bytes_total (g_state w)"
  "s_leak_bytes_total (g_state (init_pool X n w)) = s_leak_bytes_total (g_state w)"
proof -
  have c: "g_state (snd (call_malloc X n u)) = g_state u" "g_state (snd (bootstrap_calloc X n m u)) = g_state u"
    "g_state (snd (call_calloc X n m u)) = g_state u" for n m and u :: "'a world"
  proof -
    show "g_state (snd (call_malloc X n u)) = g_state u"
      by (simp add: call_malloc_def bootstrap_malloc_def Let_def case_prod_beta split: fnptr.split)
    show "g_state (snd (bootstrap_calloc X n m u)) = g_state u"
      using bootstrap_calloc_frame [of X n m u] by (cases "bootstrap_calloc X n m u") auto
    show "g_state (snd (call_calloc X n m u)) = g_state u"
      using call_calloc_frame(1) [of X n m u] by (cases "call_calloc X n m u") auto
  qed
  have l: "s_leak_bytes_total (g_state (pool_link n u)) = s_leak_bytes_total (g_state u)" for n and u :: "'a world"
    by (induction n) (simp_all add: Let_def upd_entry_def)
  show "s_leak_bytes_total (g_state (init_buckets X w)) = s_leak_bytes_total (g_state w)"
    by (simp add: init_buckets_def Let_def case_prod_beta c)
  show "s_leak_bytes_total (g_state (init_pool X n w)) = s_leak_bytes_total (g_state w)"
    by (simp add: init_pool_def pool_alloc_def Let_def case_prod_beta c l)
qed

lemma blacklist_fast_settings:
  fixes X :: "'l ext" and w :: "'l world"
  defines "w' \<equiv> mtt_parse_blacklist_fast X w"
  shows "knobs w' = knobs w \<and> g_debug_level w' = g_debug_level w \<and> (s_disabled (g_state w) \<longrightarrow> s_disabled (g_state w')) \<and>
    (s_disabled (g_state w') \<longrightarrow> s_disabled (g_state w) \<or> excludes_self X)"
proof -
  have e: "excludes_self X" if "x_getenv X ''MTT_LIB_BLACKLIST_FAST'' = Some env" "x_readlink_exe X l = Some exe"
    "list_ex (\<lambda>t. strstr (take 255 exe) t \<noteq> None) (blacklist_tokens env)" for env exe l
    using that unfolding excludes_self_def list_ex_iff by blast
  show ?thesis
    unfolding w'_def mtt_parse_blacklist_fast_def Let_def
    by (auto simp: knobs_def split: option.splits if_splits intro: e)
qed

lemma init_locked_settings:
  fixes X :: "'l ext" and w :: "'l world"
  assumes "raw_malloc w = F_LIBC" "raw_calloc w = F_LIBC" "valid_heap X"
  defines "w' \<equiv> init_locked X (read_config X) w"
  assumes "s_buckets (g_state w') \<noteq> None"
  shows "s_startup_until (g_state w') =
      (if want_skip_startup (read_config X) > 0 then g_time w + want_skip_startup (read_config X) else 0) \<and>
    (s_pool (g_state w') \<noteq> NULL \<longrightarrow> s_pool_capacity (g_state w') = want_pool_entries (read_config X)) \<and>
    g_debug_level w' = want_debug (read_config X) \<and> g_max_stack_frames w' = g_max_stack_frames w \<and>
    (want_disabled (read_config X) \<longrightarrow> s_disabled (g_state w')) \<and>
    (s_disabled (g_state w') \<longrightarrow> want_disabled (read_config X) \<or> excludes_self X) \<and>
    s_leak_bytes_total (g_state w') = s_leak_bytes_total (g_state w)"
proof -
  define c where "c = read_config X"
  define w1 where "w1 = init_buckets X w"
  define w2 where "w2 = upd_state (\<lambda>s. s\<lparr>s_hash_seed := hash_seed_of (g_time w1) (x_getpid X (g_ext w1)),
      s_bucket_locks := free_locks\<rparr>) w1"
  define w3 where "w3 = init_pool X (want_pool_entries c) w2"
  define w4 where "w4 = init_counters c w3"
  define w5 where "w5 = upd_state (\<lambda>s. s\<lparr>s_proc_name := get_process_name X 256 w4, s_proc_name_ready := True\<rparr>) w4"
  define w6 where "w6 = mtt_parse_blacklist_fast X w5"
  have r: "raw_calloc w \<noteq> F_NULL" using assms(2) by simp
  note f1 = init_buckets_frame [OF r, of X, folded w1_def]
  have wd: "w' = (if s_buckets (g_state w1) = None
      then upd_state (\<lambda>s. s\<lparr>s_disabled := True, s_initialized := True\<rparr>) w1
      else upd_state (\<lambda>s. s\<lparr>s_initialized := True\<rparr>) w6)"
    unfolding w'_def init_locked_def w6_def w5_def w4_def w3_def w2_def w1_def c_def Let_def by simp
  then have w': "w' = upd_state (\<lambda>s. s\<lparr>s_initialized := True\<rparr>) w6" using assms(5) by (auto split: if_splits)
  have k3: "knobs w3 = knobs w" by (simp add: w3_def init_knobs w2_def w1_def)
  have n: "want_pool_entries c \<le> 131072" using config_pool_entries [of X] by (simp add: c_def)
  have "raw_malloc w2 = F_LIBC" "raw_calloc w2 = F_LIBC" using f1 assms(1,2) by (simp_all add: w2_def)
  note f3 = init_pool_spec [OF this assms(3) n, folded w3_def]
  obtain d where d: "g_state w6 = (g_state w5)\<lparr>s_disabled := d\<rparr>" using blacklist_fast_frame [of X w5, folded w6_def] by blast
  note s6 = blacklist_fast_settings [of X w5, folded w6_def]
  have k5: "knobs w5 = knobs w" "s_disabled (g_state w5) = want_disabled c" "g_debug_level w5 = want_debug c"
    using k3 by (simp_all add: w5_def w4_def init_counters_def) (simp add: knobs_def)
  have t: "g_time w3 = g_time w" "g_max_stack_frames w6 = g_max_stack_frames w" using k3 k5(1) s6 by (simp_all add: knobs_def)
  have l: "s_leak_bytes_total (g_state w3) = s_leak_bytes_total (g_state w)"
    by (simp add: w3_def init_leak_total w2_def w1_def)
  show ?thesis
    using s6 k5 t l f3 by (simp add: w' d c_def [symmetric]) (simp add: w5_def w4_def init_counters_def)
qed

lemma init_services_settings:
  "knobs (init_services X tid w) = knobs w" "g_debug_level (init_services X tid w) = g_debug_level w"
proof -
  have f: "knobs (set_flags c h u) = knobs u \<and> g_debug_level (set_flags c h u) = g_debug_level u" for c h and u :: "'a world"
    by (auto simp: set_flags_def upd_slot_def knobs_def split: option.split)
  have s: "knobs (mtt_reporter_start X u) = knobs u \<and> g_debug_level (mtt_reporter_start X u) = g_debug_level u"
    "knobs (snd (mtt_http_server_start X port u)) = knobs u \<and> g_debug_level (snd (mtt_http_server_start X port u)) = g_debug_level u"
    "knobs (mtt_signal_thread_start X u) = knobs u \<and> g_debug_level (mtt_signal_thread_start X u) = g_debug_level u"
    for port and u :: "'a world"
    by (auto simp: knobs_def mtt_reporter_start_def mtt_http_server_start_def
        mtt_signal_thread_start_def close_fd_def Let_def split: option.split)
  obtain c v where g: "mtt_thread_get X tid (mtt_ts_init w) = (c, v)" by fastforce
  have "knobs v = knobs (mtt_ts_init w) \<and> g_debug_level v = g_debug_level (mtt_ts_init w)"
    by (rule thread_get_cases [of X tid "mtt_ts_init w"]) (use g in \<open>auto simp: upd_slot_def knobs_def\<close>)
  then have "knobs v = knobs w \<and> g_debug_level v = g_debug_level w" by (simp add: mtt_ts_init_def knobs_def)
  then show "knobs (init_services X tid w) = knobs w" "g_debug_level (init_services X tid w) = g_debug_level w"
    by (simp_all add: init_services_def g Let_def f s)
qed

lemma ensure_init_settings:
  fixes tid :: int
  assumes "g_raw_ready w" "raw_malloc w = F_LIBC" "raw_calloc w = F_LIBC" "valid_heap X"
    and "\<not> s_initialized (g_state w)" "\<not> g_init_lock w"
  defines "w' \<equiv> mtt_ensure_init X tid w"
  assumes "s_buckets (g_state w') \<noteq> None"
  shows "settings_in_force X (read_config X) w w'"
proof -
  define w1 where "w1 = (env_globals X (w\<lparr>g_debug_level := env_debug_level X, g_sigpipe_ignored := True\<rparr>))
    \<lparr>g_hung := g_hung w, g_init_lock := True\<rparr>"
  define w2 where "w2 = (init_locked X (read_config X) w1)\<lparr>g_init_lock := False\<rparr>"
  have wd: "w' = (if s_buckets (g_state w2) = None then w2 else init_services X tid w2)"
    using assms(1,5,6) unfolding w'_def mtt_ensure_init_def w2_def w1_def
    by (simp add: Let_def env_globals_frame)
  then have b: "s_buckets (g_state w2) \<noteq> None" and w': "w' = init_services X tid w2" using assms(8) by (auto split: if_splits)
  have w1: "raw_malloc w1 = F_LIBC" "raw_calloc w1 = F_LIBC" using assms(2,3) by (simp_all add: w1_def env_globals_frame)
  have e: "g_time w1 = g_time w" "s_leak_bytes_total (g_state w1) = s_leak_bytes_total (g_state w)"
    "g_max_stack_frames w1 =
       (case env_number X atoi ''MTT_MAX_STACK_FRAMES'' 1 64 of Some v \<Rightarrow> v | None \<Rightarrow> g_max_stack_frames w)"
    by (auto simp: w1_def env_globals_def env_number_def MTT_STACK_DEPTH_def Let_def split: option.split)
  have "s_buckets (g_state (init_locked X (read_config X) w1)) \<noteq> None" using b by (simp add: w2_def)
  note l = init_locked_settings [OF w1 assms(4) this]
  have st: "g_state w' = g_state (init_locked X (read_config X) w1)"
    using init_services_frame [of w2 X tid] by (simp add: w' same_table_def w2_def)
  have kn: "g_debug_level w' = g_debug_level (init_locked X (read_config X) w1)"
    "g_max_stack_frames w' = g_max_stack_frames (init_locked X (read_config X) w1)"
    using init_services_settings [of X tid w2] by (simp_all add: w' knobs_def w2_def)
  have "fresh_counters (read_config X) (g_state w')"
    using ensure_init_spec [OF assms(1-6), of tid] assms(8) by (simp add: w'_def)
  then show ?thesis
    unfolding settings_in_force_def using l by (simp only: st kn e fresh_counters_def) simp
qed

lemma ensure_init_again:
  "s_initialized (g_state w) \<Longrightarrow>
     mtt_ensure_init X tid w = w\<lparr>g_debug_level := env_debug_level X, g_sigpipe_ignored := True\<rparr>"
  by (simp add: mtt_ensure_init_def)

section \<open>Bounds of the configuration\<close>

lemma config_bounds:
  fixes X :: "'l ext"
  defines "c \<equiv> read_config X"
  shows "uint (want_sample c) \<le> MTT_SAMPLE_MAX_PERIOD" "uint (want_srate c) \<le> MTT_SAMPLE_RATE_MAX"
    "0 \<le> want_leak_threshold c" "0 \<le> want_skip_startup c" "want_debug c \<in> {0, 1, 2}"
proof -
  have u32: "uint (of_int v :: u32) = v" if "0 \<le> v" "v \<le> 1024" for v
    using that by (simp add: uint_word_of_int_eq take_bit_int_eq_self)
  have u64: "uint (of_int v :: size_t) = v" if "0 \<le> v" "v \<le> 30" for v
    using that by (simp add: uint_word_of_int_eq take_bit_int_eq_self)
  show "uint (want_sample c) \<le> MTT_SAMPLE_MAX_PERIOD" "uint (want_srate c) \<le> MTT_SAMPLE_RATE_MAX"
    using u32 u64 by (auto simp: c_def read_config_def env_limits_def env_sampling_def mtt_limits Let_def
        split: option.split)
  show "0 \<le> want_leak_threshold c" "0 \<le> want_skip_startup c"
    by (auto simp: c_def read_config_def env_limits_def env_sampling_def mtt_limits Let_def
        split: option.split)
  have "env_debug_level X \<in> {0, 1, 2}"
    by (auto simp: env_debug_level_def mtt_limits Let_def split: option.split)
  then show "want_debug c \<in> {0, 1, 2}"
    by (auto simp: c_def read_config_def env_limits_def env_sampling_def Let_def split: option.split)
qed

section \<open>Properties\<close>

text \<open>C29. Initialisation establishes the invariant of the tracking table: with the allocator resolved
  and the lock free, \<open>mtt_ensure_init\<close> returns with the tracker marked as initialised; if the bucket
  array could not be allocated tracking is disabled for good, otherwise the table stores no record,
  the free lists hold every record of the pool, and the counters of allocations, releases, bytes, peak, skipped,
  temporary and expired blocks are 0 (the byte total of the leak sites is left as it was). The settings in force are
  those of the environment: sampling, leak threshold, end of the startup phase, pool size, debug level
  and stack depth take the value of their variable if it is acceptable and the default otherwise, and
  tracking is disabled if \<^verbatim>\<open>MTT_DISABLE\<close> is \<^verbatim>\<open>1\<close>, and otherwise at most if the fast blacklist names
  the executable itself. A second call changes nothing of the table and the state.\<close>

theorem init_establishes:
  assumes "g_raw_ready w" "raw_malloc w = F_LIBC" "raw_calloc w = F_LIBC" "valid_heap X"
    and "\<not> s_initialized (g_state w)" "\<not> g_init_lock w"
  shows "let w' = mtt_ensure_init X tid w
         in g_hung w' = g_hung w \<and> s_initialized (g_state w') \<and>
            (if s_buckets (g_state w') = None then s_disabled (g_state w')
             else recs w' (\<lambda>_. []) {} \<and> fresh_counters (read_config X) (g_state w') \<and>
                  s_bucket_count (g_state w') = MTT_BUCKETS \<and>
                  config_of_env X (read_config X) \<and> settings_in_force X (read_config X) w w') \<and>
            same_table w' (mtt_ensure_init X tid' w')"
  using ensure_init_spec [OF assms, of tid] ensure_init_settings [OF assms, of tid] read_config_env [of X] unfolding Let_def
  by (simp add: ensure_init_again same_table_def)

lemma demo_valid_heap: "valid_heap demo_ext"
proof -
  have m: "unat (fst (demo_malloc l n)) + unat n \<le> 2 ^ 64" if "fst (demo_malloc l n) \<noteq> NULL" for l n
  proof -
    have "n \<le> 0x40000000" "l \<le> 0x7fffffffffffffff" "fst (demo_malloc l n) = l"
      using that by (auto simp: demo_malloc_def split: if_splits)
    then have "unat n \<le> 0x40000000" "unat l \<le> 0x7fffffffffffffff" by (simp_all add: word_le_nat_alt)
    then show ?thesis using \<open>fst (demo_malloc l n) = l\<close> by simp
  qed
  have c: "unat (fst (demo_malloc l (n * s))) + unat n * unat s \<le> 2 ^ 64"
    if "unat n * unat s \<le> 0x40000000" "fst (demo_malloc l (n * s)) \<noteq> NULL" for l n s
  proof -
    have "unat (n * s) = unat n * unat s" using that(1) by (simp add: unat_word_ariths)
    then show ?thesis using m [OF that(2)] by simp
  qed
  show ?thesis
    using m c unfolding valid_heap_def Let_def by (simp add: demo_ext_def)
qed

text \<open>A fresh process whose allocator is resolved.\<close>

definition libc_world :: "ptr world" where
  "libc_world = demo_world\<lparr>raw_malloc := F_LIBC, raw_free := F_LIBC, raw_calloc := F_LIBC,
     raw_realloc := F_LIBC, raw_posix_memalign := F_LIBC, g_raw_resolved := True, g_raw_ready := True\<rparr>"

lemma libc_world_simps [simp]:
  "g_raw_ready libc_world" "raw_malloc libc_world = F_LIBC" "raw_free libc_world = F_LIBC"
  "raw_calloc libc_world = F_LIBC" "raw_realloc libc_world = F_LIBC"
  "\<not> s_initialized (g_state libc_world)" "\<not> g_init_lock libc_world" "\<not> g_hung libc_world"
  by (simp_all add: libc_world_def demo_world_def zero_state_def)

theorem init_establishes_witness:
  "s_initialized (g_state (mtt_ensure_init demo_ext 7 libc_world))
   \<and> \<not> g_hung (mtt_ensure_init demo_ext 7 libc_world)"
  using init_establishes [of libc_world demo_ext 7] demo_valid_heap by (simp add: Let_def)

text \<open>C30. Every setting read from the environment stays in its range whatever the variables hold: the
  sampling period is at most 1024, the byte sampling rate at most 30, the pool has between 1024 and
  131072 records, the two times are not negative, the debug level is 0, 1 or 2, and a stack depth between 1
  and 64 stays between 1 and 64.\<close>

theorem config_in_range:
  fixes X :: "'l ext"
  defines "c \<equiv> read_config X"
  assumes "1 \<le> g_max_stack_frames w" "g_max_stack_frames w \<le> int MTT_STACK_DEPTH"
  shows "uint (want_sample c) \<le> MTT_SAMPLE_MAX_PERIOD \<and> uint (want_srate c) \<le> MTT_SAMPLE_RATE_MAX
       \<and> MTT_POOL_ENTRIES_MIN \<le> want_pool_entries c \<and> want_pool_entries c \<le> MTT_POOL_ENTRIES_MAX
       \<and> 0 \<le> want_leak_threshold c \<and> 0 \<le> want_skip_startup c \<and> want_debug c \<in> {0, 1, 2}
       \<and> 1 \<le> g_max_stack_frames (env_globals X w)
       \<and> g_max_stack_frames (env_globals X w) \<le> int MTT_STACK_DEPTH"
proof -
  have "1 \<le> g_max_stack_frames (env_globals X w) \<and>
      g_max_stack_frames (env_globals X w) \<le> int MTT_STACK_DEPTH"
    using assms(2,3) by (auto simp: env_globals_def Let_def split: option.split)
  then show ?thesis
    using config_bounds [of X] config_pool_entries [of X]
    by (simp add: c_def MTT_POOL_ENTRIES_MIN_def MTT_POOL_ENTRIES_MAX_def)
qed

text \<open>An environment with values out of range.\<close>

definition odd_ext :: "ptr ext" where
  "odd_ext = demo_ext\<lparr>x_getenv := (\<lambda>v. if v = ''MTT_SAMPLE'' then Some ''4096''
     else if v = ''MTT_MAX_STACK_FRAMES'' then Some ''900'' else None)\<rparr>"

theorem config_in_range_witness:
  "uint (want_sample (read_config odd_ext)) \<le> 1024
   \<and> g_max_stack_frames (env_globals odd_ext demo_world) \<le> 64"
proof -
  have "g_max_stack_frames demo_world = 64" by (simp add: demo_world_def)
  then show ?thesis
    using config_in_range [of demo_world odd_ext] by (simp add: MTT_STACK_DEPTH_def MTT_SAMPLE_MAX_PERIOD_def)
qed

end
