(* ===== verification/Sampling.thy ===== *)
theory Sampling
  imports Mtt_World
begin

text \<open>
  The decisions of \<^verbatim>\<open>tracker.c\<close> whether an allocation is recorded: byte sampling,
  count sampling, the startup phase and the capacity of the table. Byte and count
  sampling are related to what they promise over whole histories of requests.
\<close>

section \<open>Definitions\<close>

definition mtt_should_track :: "size_t \<Rightarrow> mtt_state \<Rightarrow> bool \<times> mtt_state" where
  "mtt_should_track sz s =
     (if sz \<ge> MTT_BIG_ALLOC_THRESHOLD then (True, s)
      else if sz \<ge> MTT_SAMPLE_EXEMPT_THRESHOLD then (True, s)
      else if s_sample_rate s > 0 then
        let step = push_bit (unat (s_sample_rate s)) 1;
            old_accum = s_sample_bytes_accum s;
            s = s\<lparr>s_sample_bytes_accum := s_sample_bytes_accum s + sz\<rparr>
        in if old_accum + sz \<ge> step
           then (True, s\<lparr>s_sample_bytes_accum := s_sample_bytes_accum s - step\<rparr>)
           else (False, s\<lparr>s_skipped_sampled := s_skipped_sampled s + 1\<rparr>)
      else if s_sample_period s = 0 then (True, s)
      else
        let c = s_sample_counter s;
            s = s\<lparr>s_sample_counter := s_sample_counter s + 1\<rparr>
        in if c mod ucast (s_sample_period s) = 0 then (True, s)
           else (False, s\<lparr>s_skipped_sampled := s_skipped_sampled s + 1\<rparr>))"

definition mtt_is_startup_phase :: "'l world \<Rightarrow> bool" where
  "mtt_is_startup_phase w \<longleftrightarrow>
     s_startup_until (g_state w) > 0 \<and> g_time w < s_startup_until (g_state w)"

definition mtt_is_over_capacity :: "mtt_state \<Rightarrow> bool \<times> mtt_state" where
  "mtt_is_over_capacity s =
     (if s_entry_count s \<ge> MTT_MAX_ENTRIES
      then (True, s\<lparr>s_skipped_overcap := s_skipped_overcap s + 1\<rparr>)
      else (False, s))"

text \<open>A sequence of requests with the decision taken on each.\<close>

fun track_run :: "size_t list \<Rightarrow> mtt_state \<Rightarrow> bool list \<times> mtt_state" where
  "track_run [] s = ([], s)"
| "track_run (n # ns) s =
     (let (b, s) = mtt_should_track n s; (bs, s) = track_run ns s in (b # bs, s))"

definition small :: "size_t \<Rightarrow> bool" where
  "small n \<longleftrightarrow> n < MTT_SAMPLE_EXEMPT_THRESHOLD"

section \<open>Byte sampling\<close>

lemma should_track_large: "\<not> small n \<Longrightarrow> mtt_should_track n s = (True, s)"
  by (simp add: mtt_should_track_def small_def MTT_SAMPLE_EXEMPT_THRESHOLD_def not_less)

lemma push_bit_one_unat:
  assumes "r < 64"
  shows "unat (push_bit r 1 :: u64) = 2 ^ r"
proof -
  have "(2 :: nat) ^ r < 2 ^ 64" using assms by (intro power_strict_increasing) auto
  then have "unat (of_nat (2 ^ r) :: u64) = 2 ^ r" by (simp only: unat_of_nat) simp
  then show ?thesis by simp
qed

text \<open>One decision on a small request, in natural numbers.\<close>

lemma byte_step:
  assumes "small n" "0 < s_sample_rate s" "unat (s_sample_rate s) < 64"
    and "unat (s_sample_bytes_accum s) + unat n < 2 ^ 64"
    and "mtt_should_track n s = (b, s')"
  shows "b \<longleftrightarrow> 2 ^ unat (s_sample_rate s) \<le> unat (s_sample_bytes_accum s) + unat n"
    and "unat (s_sample_bytes_accum s') + (if b then 2 ^ unat (s_sample_rate s) else 0) =
      unat (s_sample_bytes_accum s) + unat n"
    and "s_sample_rate s' = s_sample_rate s"
proof -
  let ?step = "push_bit (unat (s_sample_rate s)) 1 :: u64"
  let ?sum = "s_sample_bytes_accum s + n"
  have u: "unat ?sum = unat (s_sample_bytes_accum s) + unat n"
    using assms(4) by (simp add: unat_word_ariths)
  have st: "unat ?step = 2 ^ unat (s_sample_rate s)" by (rule push_bit_one_unat [OF assms(3)])
  have big: "\<not> MTT_BIG_ALLOC_THRESHOLD \<le> n" "\<not> MTT_SAMPLE_EXEMPT_THRESHOLD \<le> n"
    using assms(1) by (auto simp: small_def MTT_SAMPLE_EXEMPT_THRESHOLD_def
        MTT_BIG_ALLOC_THRESHOLD_def word_less_nat_alt word_le_nat_alt)
  have eq: "mtt_should_track n s =
      (if ?step \<le> ?sum then (True, s\<lparr>s_sample_bytes_accum := ?sum - ?step\<rparr>)
       else (False, s\<lparr>s_sample_bytes_accum := ?sum, s_skipped_sampled := s_skipped_sampled s + 1\<rparr>))"
    using assms(2) big by (simp add: mtt_should_track_def Let_def)
  have le: "?step \<le> ?sum \<longleftrightarrow> 2 ^ unat (s_sample_rate s) \<le> unat (s_sample_bytes_accum s) + unat n"
    by (simp only: word_le_nat_alt u st)
  show "b \<longleftrightarrow> 2 ^ unat (s_sample_rate s) \<le> unat (s_sample_bytes_accum s) + unat n"
    using assms(5) eq le by (auto split: if_splits)
  show "s_sample_rate s' = s_sample_rate s" using assms(5) eq by (auto split: if_splits)
  show "unat (s_sample_bytes_accum s') + (if b then 2 ^ unat (s_sample_rate s) else 0) =
      unat (s_sample_bytes_accum s) + unat n"
    using assms(5) eq le u st by (auto simp: unat_sub split: if_splits)
qed

lemma count_list_True_Cons [simp]:
  "count_list (b # bs) True = (if b then Suc (count_list bs True) else count_list bs True)"
  by simp

text \<open>The bytes of a history are the tracked steps plus what is left in the accumulator.\<close>

lemma byte_run:
  assumes "list_all small ns" "0 < s_sample_rate s" "unat (s_sample_rate s) < 64"
    and "unat (s_sample_bytes_accum s) + (\<Sum>n\<leftarrow>ns. unat n) < 2 ^ 64"
    and "track_run ns s = (bs, s')"
  shows "unat (s_sample_bytes_accum s') + 2 ^ unat (s_sample_rate s) * count_list bs True =
      unat (s_sample_bytes_accum s) + (\<Sum>n\<leftarrow>ns. unat n)"
  using assms
proof (induction ns arbitrary: s bs)
  case (Cons n ns)
  obtain b s1 where t: "mtt_should_track n s = (b, s1)" by (cases "mtt_should_track n s")
  obtain cs where r: "track_run ns s1 = (cs, s')" and bs: "bs = b # cs"
    using Cons.prems(5) by (auto simp: t split: prod.splits)
  have small: "small n" "unat (s_sample_bytes_accum s) + unat n < 2 ^ 64"
    using Cons.prems by auto
  note st = byte_step [OF small(1) Cons.prems(2,3) small(2) t]
  have "unat (s_sample_bytes_accum s1) + (\<Sum>n\<leftarrow>ns. unat n) < 2 ^ 64"
    using st(2) Cons.prems(4) by (auto split: if_splits)
  then have "unat (s_sample_bytes_accum s') + 2 ^ unat (s_sample_rate s1) * count_list cs True =
      unat (s_sample_bytes_accum s1) + (\<Sum>n\<leftarrow>ns. unat n)"
    using Cons.IH [OF _ _ _ _ r] Cons.prems(1-3) st(3) by simp
  then show ?case using st(2,3) bs by (auto split: if_splits)
qed simp

text \<open>With a step of at least 1 KiB the accumulator never reaches the step.\<close>

lemma byte_run_accum:
  assumes "list_all small ns" "10 \<le> unat (s_sample_rate s)" "unat (s_sample_rate s) < 64"
    and "unat (s_sample_bytes_accum s) + (\<Sum>n\<leftarrow>ns. unat n) < 2 ^ 64"
    and "unat (s_sample_bytes_accum s) < 2 ^ unat (s_sample_rate s)"
    and "track_run ns s = (bs, s')"
  shows "unat (s_sample_bytes_accum s') < 2 ^ unat (s_sample_rate s)"
  using assms
proof (induction ns arbitrary: s bs)
  case (Cons n ns)
  obtain b s1 where t: "mtt_should_track n s = (b, s1)" by (cases "mtt_should_track n s")
  obtain cs where r: "track_run ns s1 = (cs, s')"
    using Cons.prems(6) by (auto simp: t split: prod.splits)
  have n: "small n" "unat n < 1024"
    using Cons.prems(1) by (auto simp: small_def MTT_SAMPLE_EXEMPT_THRESHOLD_def word_less_nat_alt)
  have p: "0 < s_sample_rate s" using Cons.prems(2) by (auto simp: word_gt_0 unat_eq_0)
  have sum: "unat (s_sample_bytes_accum s) + unat n < 2 ^ 64" using Cons.prems(4) by simp
  note st = byte_step [OF n(1) p Cons.prems(3) sum t]
  have "(2 :: nat) ^ 10 \<le> 2 ^ unat (s_sample_rate s)"
    by (rule power_increasing) (use Cons.prems(2) in auto)
  then have "unat (s_sample_bytes_accum s1) < 2 ^ unat (s_sample_rate s)"
    using st Cons.prems(5) n(2) by (auto split: if_splits)
  moreover have "unat (s_sample_bytes_accum s1) + (\<Sum>n\<leftarrow>ns. unat n) < 2 ^ 64"
    using st(2) Cons.prems(4) by (auto split: if_splits)
  ultimately show ?case using Cons.IH [OF _ _ _ _ _ r] Cons.prems(1-3) st(3) by simp
qed simp

section \<open>Count sampling\<close>

lemma count_step:
  assumes "small n" "s_sample_rate s = 0" "s_sample_period s \<noteq> 0"
    and "mtt_should_track n s = (b, s')"
  shows "b \<longleftrightarrow> unat (s_sample_counter s) mod unat (s_sample_period s) = 0"
    and "s_sample_counter s' = s_sample_counter s + 1"
    and "s_sample_rate s' = 0" "s_sample_period s' = s_sample_period s"
proof -
  have big: "\<not> MTT_BIG_ALLOC_THRESHOLD \<le> n" "\<not> MTT_SAMPLE_EXEMPT_THRESHOLD \<le> n"
    using assms(1) by (auto simp: small_def MTT_SAMPLE_EXEMPT_THRESHOLD_def
        MTT_BIG_ALLOC_THRESHOLD_def word_less_nat_alt word_le_nat_alt)
  have p: "unat (ucast (s_sample_period s) :: u64) = unat (s_sample_period s)"
    by (simp add: unsigned_ucast_eq take_bit_nat_eq_self order_less_trans [OF unsigned_less])
  have m: "s_sample_counter s mod ucast (s_sample_period s) = 0 \<longleftrightarrow>
      unat (s_sample_counter s) mod unat (s_sample_period s) = 0"
    by (simp only: p unat_eq_0 [symmetric] unat_mod)
  show "b \<longleftrightarrow> unat (s_sample_counter s) mod unat (s_sample_period s) = 0"
    "s_sample_counter s' = s_sample_counter s + 1"
    "s_sample_rate s' = 0" "s_sample_period s' = s_sample_period s"
    using assms big m by (auto simp: mtt_should_track_def Let_def split: if_splits)
qed

lemma count_run:
  assumes "list_all small ns" "s_sample_rate s = 0" "s_sample_period s \<noteq> 0"
    and "unat (s_sample_counter s) + length ns < 2 ^ 64" "i < length ns"
  shows "fst (track_run ns s) ! i \<longleftrightarrow>
      (unat (s_sample_counter s) + i) mod unat (s_sample_period s) = 0"
  using assms
proof (induction ns arbitrary: s i)
  case (Cons n ns)
  obtain b s1 where t: "mtt_should_track n s = (b, s1)" by (cases "mtt_should_track n s")
  have "small n" using Cons.prems(1) by simp
  note st = count_step [OF this Cons.prems(2,3) t]
  have c: "unat (s_sample_counter s1) = unat (s_sample_counter s) + 1"
    using Cons.prems(4) st(2) by (simp add: unat_word_ariths)
  show ?case
  proof (cases i)
    case 0
    then show ?thesis using st(1) by (simp add: t split: prod.splits)
  next
    case (Suc j)
    then show ?thesis using Cons.IH [of s1 j] Cons.prems st c by (simp add: t case_prod_beta)
  qed
qed simp

section \<open>Properties\<close>

text \<open>C24. Byte sampling records one small allocation per \<open>2 ^ rate\<close> bytes: over any history of
  allocations below 1 KiB, started with an empty accumulator and a rate between 10 and 63, the
  number of recorded allocations is the number of requested bytes divided by the step, exactly.\<close>

theorem byte_sampling_exact:
  assumes "list_all small ns" "10 \<le> unat (s_sample_rate s)" "unat (s_sample_rate s) < 64"
    and "s_sample_bytes_accum s = 0" "(\<Sum>n\<leftarrow>ns. unat n) < 2 ^ 64"
  shows "count_list (fst (track_run ns s)) True = (\<Sum>n\<leftarrow>ns. unat n) div 2 ^ unat (s_sample_rate s)"
proof -
  obtain bs s' where r: "track_run ns s = (bs, s')" by (cases "track_run ns s")
  have p: "0 < s_sample_rate s" using assms(2) by (auto simp: word_gt_0 unat_eq_0)
  have sum: "unat (s_sample_bytes_accum s) + (\<Sum>n\<leftarrow>ns. unat n) < 2 ^ 64" using assms by simp
  have "unat (s_sample_bytes_accum s') + 2 ^ unat (s_sample_rate s) * count_list bs True =
      (\<Sum>n\<leftarrow>ns. unat n)"
    using byte_run [OF assms(1) p assms(3) sum r] assms(4) by simp
  moreover have "unat (s_sample_bytes_accum s') < 2 ^ unat (s_sample_rate s)"
    using byte_run_accum [OF assms(1-3) sum _ r] assms(4) by simp
  ultimately show ?thesis using r
    by (metis add.commute div_mult_self_is_m div_less add_0 div_mult_self2 fst_conv
        gr_implies_not0 mult.commute)
qed

definition byte_sampled_state :: mtt_state where
  "byte_sampled_state = zero_state\<lparr>s_sample_rate := 10\<rparr>"

theorem byte_sampling_exact_witness:
  "count_list (fst (track_run [1000, 1000, 200] byte_sampled_state)) True = 2200 div 1024"
  using byte_sampling_exact [of "[1000, 1000, 200]" byte_sampled_state]
  by (simp add: small_def MTT_SAMPLE_EXEMPT_THRESHOLD_def byte_sampled_state_def zero_state_def
      word_less_nat_alt del: track_run.simps)

text \<open>Count sampling records every \<open>period\<close>-th small allocation: from a fresh counter, the
  \<open>i\<close>-th allocation below 1 KiB is recorded exactly when \<open>i\<close> is a multiple of the period.\<close>

theorem count_sampling_exact:
  assumes "list_all small ns" "s_sample_rate s = 0" "s_sample_period s \<noteq> 0"
    and "s_sample_counter s = 0" "length ns < 2 ^ 64" "i < length ns"
  shows "fst (track_run ns s) ! i \<longleftrightarrow> unat (s_sample_period s) dvd i"
  using count_run [of ns s i] assms by (simp add: mod_eq_0_iff_dvd)

theorem count_sampling_exact_witness:
  "fst (track_run [8, 8, 8, 8] (zero_state\<lparr>s_sample_period := 3\<rparr>)) ! 3"
  using count_sampling_exact [of "[8, 8, 8, 8]" "zero_state\<lparr>s_sample_period := 3\<rparr>" 3]
  by (simp add: small_def MTT_SAMPLE_EXEMPT_THRESHOLD_def zero_state_def word_less_nat_alt
      del: track_run.simps)

text \<open>No allocation of 1 KiB or more is ever sampled away, whatever the sampling
  configuration, and it leaves every sampling counter untouched.\<close>

theorem large_always_tracked:
  "MTT_SAMPLE_EXEMPT_THRESHOLD \<le> n \<Longrightarrow> mtt_should_track n s = (True, s)"
  by (simp add: should_track_large small_def not_less)

theorem large_always_tracked_witness:
  "mtt_should_track 1024 byte_sampled_state = (True, byte_sampled_state)"
  using large_always_tracked [of 1024 byte_sampled_state]
  by (simp add: MTT_SAMPLE_EXEMPT_THRESHOLD_def)

end
