(* ===== verification/Tracking.thy ===== *)
theory Tracking
  imports Tracker_Init Sampling
begin

text \<open>
  The bookkeeping that surrounds every allocation: recording a new block with its counters
  and the peak, and taking a block off the books. \<^verbatim>\<open>hooks.c\<close> and \<^verbatim>\<open>tracker.c\<close> contain it
  several times; each occurrence is the same sequence up to the flags passed here. The
  abstract view of the tracker is the list of sizes recorded for each address, newest first.
\<close>

section \<open>Definitions\<close>

text \<open>The peak is raised to the current usage; the result tells whether it was.\<close>

definition update_peak :: "mtt_state \<Rightarrow> bool \<times> mtt_state" where
  "update_peak s =
     (if s_current_bytes s > s_peak_bytes s then (True, s\<lparr>s_peak_bytes := s_current_bytes s\<rparr>)
      else (False, s))"

text \<open>
  The statements executed under the stripe lock when there is room for the record. The API
  of \<^verbatim>\<open>tracker.c\<close> announces a new peak always, the hooks only when it changed.
\<close>

definition record_alloc :: "bool \<Rightarrow> size_t \<Rightarrow> ptr \<Rightarrow> 'l world \<Rightarrow> 'l world" where
  "record_alloc always sz e w =
     (let w = upd_entry e (\<lambda>r. r\<lparr>e_alloc_num := s_alloc_seq (g_state w) + 1\<rparr>) w;
          w = upd_state (\<lambda>s. s\<lparr>s_alloc_seq := s_alloc_seq s + 1, s_alloc_count := s_alloc_count s + 1,
                s_current_bytes := s_current_bytes s + sz, s_total_bytes := s_total_bytes s + sz\<rparr>) w;
          w = upd_state (\<lambda>s. let (changed, s) = update_peak s
                              in if always \<or> changed then s\<lparr>s_peak_updated := True\<rparr> else s) w
      in mtt_entry_add e w)"

definition count_overcap :: "mtt_state \<Rightarrow> mtt_state" where
  "count_overcap s = s\<lparr>s_skipped_overcap := s_skipped_overcap s + 1\<rparr>"

text \<open>Inserting the record of a new block; a full table drops it after the unlock.\<close>

definition insert_entry :: "'l ext \<Rightarrow> bool \<Rightarrow> ptr \<Rightarrow> size_t \<Rightarrow> ptr \<Rightarrow> 'l world \<Rightarrow> 'l world" where
  "insert_entry X always p sz e w =
     (let w = mtt_stripe_lock p w
      in if s_entry_count (g_state w) \<ge> MTT_MAX_ENTRIES
         then mtt_entry_discard X e (mtt_stripe_unlock p (upd_state count_overcap w))
         else mtt_stripe_unlock p (record_alloc always sz e w))"

text \<open>Inserting the record of a moved block; a full table drops it inside the lock.\<close>

definition insert_moved :: "'l ext \<Rightarrow> bool \<Rightarrow> ptr \<Rightarrow> size_t \<Rightarrow> ptr \<Rightarrow> 'l world \<Rightarrow> 'l world" where
  "insert_moved X always p sz e w =
     (let w = mtt_stripe_lock p w;
          w = (if s_entry_count (g_state w) < MTT_MAX_ENTRIES then record_alloc always sz e w
               else mtt_entry_discard X e (upd_state count_overcap w))
      in mtt_stripe_unlock p w)"

text \<open>Sampling and capacity: whether this block is tracked. The hooks evaluate both tests.\<close>

definition track_decision :: "size_t \<Rightarrow> mtt_state \<Rightarrow> bool \<times> mtt_state" where
  "track_decision sz s =
     (let (track_ok, s) = mtt_should_track sz s;
          (over_cap, s) = mtt_is_over_capacity s
      in (track_ok \<and> \<not> over_cap, s))"

text \<open>Tracking a block that was just allocated, after the decision to do so.\<close>

definition track_block :: "'l ext \<Rightarrow> int \<Rightarrow> bool \<Rightarrow> ptr \<Rightarrow> size_t \<Rightarrow> 'l world \<Rightarrow> 'l world" where
  "track_block X tid always p sz w =
     (let (e, w) = mtt_entry_new X tid p sz w
      in if e = NULL then w else insert_entry X always p sz e w)"

definition forget_bytes :: "size_t \<Rightarrow> mtt_state \<Rightarrow> mtt_state" where
  "forget_bytes sz s =
     s\<lparr>s_current_bytes := (if sz \<le> s_current_bytes s then s_current_bytes s - sz else 0)\<rparr>"

text \<open>\<open>realloc\<close> of the hooks computes the amount to subtract first.\<close>

definition forget_bytes_moved :: "size_t \<Rightarrow> mtt_state \<Rightarrow> mtt_state" where
  "forget_bytes_moved sz s =
     (let sub_size = (if sz \<le> s_current_bytes s then sz else 0)
      in s\<lparr>s_current_bytes := (if sub_size > 0 then s_current_bytes s - sub_size else 0)\<rparr>)"

text \<open>
  Taking a block off the books: the newest record of the pointer, if any. \<open>note\<close> is what a
  caller counts besides (the hook \<open>free\<close> counts short-lived and late-freed blocks).
\<close>

definition untrack ::
  "'l ext \<Rightarrow> (size_t \<Rightarrow> mtt_state \<Rightarrow> mtt_state) \<Rightarrow> (mtt_entry \<Rightarrow> 'l world \<Rightarrow> mtt_state \<Rightarrow> mtt_state) \<Rightarrow>
   ptr \<Rightarrow> 'l world \<Rightarrow> 'l world" where
  "untrack X forget note p w =
     (let w = mtt_stripe_lock p w;
          (e, w) = mtt_entry_find p w;
          w = (if e \<noteq> NULL then
                 let r = g_entries w e;
                     w = upd_state (forget (e_size r)) w;
                     w = upd_state (\<lambda>s. s\<lparr>s_free_count := s_free_count s + 1\<rparr>) w;
                     w = upd_state (note r w) w
                 in mtt_entry_remove X p w
               else w)
      in mtt_stripe_unlock p w)"

definition no_note :: "mtt_entry \<Rightarrow> 'l world \<Rightarrow> mtt_state \<Rightarrow> mtt_state" where
  "no_note r w s = s"

text \<open>The counters of short-lived and late-freed blocks.\<close>

definition note_lifetime :: "mtt_entry \<Rightarrow> 'l world \<Rightarrow> mtt_state \<Rightarrow> mtt_state" where
  "note_lifetime r w s =
     (let age = mtt_now_sec w - e_timestamp r;
          s = (if age \<le> 1 then s\<lparr>s_temp_alloc_count := s_temp_alloc_count s + 1\<rparr> else s);
          threshold = s_leak_threshold_sec s
      in if threshold > 0 \<and> age > threshold
         then s\<lparr>s_free_expired_count := s_free_expired_count s + 1\<rparr> else s)"

text \<open>The new record of a block that \<open>realloc\<close> moved.\<close>

definition retrack :: "'l ext \<Rightarrow> int \<Rightarrow> bool \<Rightarrow> ptr \<Rightarrow> size_t \<Rightarrow> 'l world \<Rightarrow> 'l world" where
  "retrack X tid always q sz w =
     (let (over_cap, s) = mtt_is_over_capacity (g_state w);
          w = w\<lparr>g_state := s\<rparr>
      in if over_cap then w
         else
           let (e, w) = mtt_entry_new X tid q sz w
           in if e = NULL then w else insert_moved X always q sz e w)"

text \<open>\<open>realloc\<close> through the C library, for a tracker that is ready.\<close>

definition realloc_raw ::
  "'l ext \<Rightarrow> int \<Rightarrow> (size_t \<Rightarrow> mtt_state \<Rightarrow> mtt_state) \<Rightarrow> bool \<Rightarrow> ptr \<Rightarrow> size_t \<Rightarrow> 'l world \<Rightarrow> ptr \<times> 'l world" where
  "realloc_raw X tid forget always p sz w =
     (let w = mtt_stripe_lock p w;
          (old_e, w) = mtt_entry_find p w;
          w = mtt_stripe_unlock p w;
          (new_ptr, w) = call_realloc X p sz w
      in if new_ptr = NULL then (NULL, w)
         else if old_e \<noteq> NULL
         then (new_ptr, retrack X tid always new_ptr sz (untrack X forget no_note p w))
         else (new_ptr, w))"

text \<open>\<open>realloc\<close> without \<open>raw_realloc\<close>: allocate, copy the recorded bytes, free.\<close>

definition realloc_copy ::
  "'l ext \<Rightarrow> int \<Rightarrow> bool \<Rightarrow> ptr \<Rightarrow> size_t \<Rightarrow> 'l world \<Rightarrow> ptr \<times> 'l world" where
  "realloc_copy X tid always p sz w =
     (let (new_ptr, w) = call_malloc X sz w
      in if new_ptr = NULL then (NULL, w)
         else
           let (new_e, w) = mtt_entry_new X tid new_ptr sz w
           in if new_e = NULL then (NULL, call_free X new_ptr w)
              else
                let (old_e, _) = mtt_entry_find p (mtt_stripe_lock p w);
                    old_size = (if old_e \<noteq> NULL then e_size (g_entries w old_e) else 0);
                    w = untrack X forget_bytes no_note p w;
                    copy_n = (if old_size > 0 then (if old_size < sz then old_size else sz) else 0);
                    w = (if copy_n > 0 then w\<lparr>g_mem := memcpy new_ptr p copy_n (g_mem w)\<rparr> else w);
                    w = insert_entry X always new_ptr sz new_e w
                in (new_ptr, call_free X p w))"

section \<open>What the table operations change\<close>

text \<open>The part of the state that belongs to the table and the pool.\<close>

definition table_only :: "mtt_state \<Rightarrow> mtt_state \<Rightarrow> bool" where
  "table_only s s' \<longleftrightarrow>
     (\<exists>b n f u l. s' = s\<lparr>s_buckets := b, s_entry_count := n, s_pool_free_lists := f,
        s_pool_used := u, s_pool_locks := l\<rparr>)"

lemma table_onlyI:
  "s' = s\<lparr>s_buckets := s_buckets s', s_entry_count := s_entry_count s',
     s_pool_free_lists := s_pool_free_lists s', s_pool_used := s_pool_used s', s_pool_locks := s_pool_locks s'\<rparr>
   \<Longrightarrow> table_only s s'"
  unfolding table_only_def by blast

lemma table_only_refl [simp]: "table_only s s"
  by (rule table_onlyI) simp

lemma table_only_trans: "table_only s t \<Longrightarrow> table_only t u \<Longrightarrow> table_only s u"
  by (auto simp: table_only_def) metis

lemma table_only_fields:
  assumes "table_only s s'"
  shows "s_alloc_seq s' = s_alloc_seq s" "s_alloc_count s' = s_alloc_count s"
    "s_free_count s' = s_free_count s" "s_current_bytes s' = s_current_bytes s"
    "s_peak_bytes s' = s_peak_bytes s" "s_total_bytes s' = s_total_bytes s"
    "s_bucket_locks s' = s_bucket_locks s" "s_pool s' = s_pool s" "s_initialized s' = s_initialized s"
    "s_disabled s' = s_disabled s" "s_bucket_count s' = s_bucket_count s" "s_hash_seed s' = s_hash_seed s"
    "s_startup_until s' = s_startup_until s" "s_pool_capacity s' = s_pool_capacity s"
    "s_pool_raw_size s' = s_pool_raw_size s"
  using assms by (auto simp: table_only_def)

text \<open>Everything else but the thread slots, the stack of a record and the unwinder.\<close>

definition same_rest :: "'l world \<Rightarrow> 'l world \<Rightarrow> bool" where
  "same_rest w w' \<longleftrightarrow>
     g_mem w' = g_mem w \<and> raw_malloc w' = raw_malloc w \<and> raw_free w' = raw_free w \<and>
     raw_calloc w' = raw_calloc w \<and> raw_realloc w' = raw_realloc w \<and> env_of w' = env_of w"

lemma same_rest_refl [simp]: "same_rest w w"
  by (simp add: same_rest_def)

lemma same_rest_trans: "same_rest u v \<Longrightarrow> same_rest v w \<Longrightarrow> same_rest u w"
  by (simp add: same_rest_def)

lemma same_rest_upd [simp]:
  "same_rest w (upd_entry a f w)" "same_rest w (upd_state h w)" "same_rest w (upd_slot i g w)"
  "same_rest w (w\<lparr>g_state := s\<rparr>)" "same_rest w (w\<lparr>g_ext := l\<rparr>)" "same_rest w (w\<lparr>g_hung := b\<rparr>)"
  by (simp_all add: same_rest_def) (simp_all add: upd_entry_def upd_slot_def)

text \<open>The sizes and addresses of all records but those of \<open>A\<close> stay.\<close>

definition same_sizes :: "ptr set \<Rightarrow> 'l world \<Rightarrow> 'l world \<Rightarrow> bool" where
  "same_sizes A w w' \<longleftrightarrow> (\<forall>a. a \<notin> A \<longrightarrow>
       e_size (g_entries w' a) = e_size (g_entries w a) \<and> e_ptr (g_entries w' a) = e_ptr (g_entries w a))"

text \<open>A step of the table: the table's part of the state, the records \<open>A\<close>, nothing else.\<close>

definition table_step :: "ptr set \<Rightarrow> 'l world \<Rightarrow> 'l world \<Rightarrow> bool" where
  "table_step A w w' \<longleftrightarrow>
     table_only (g_state w) (g_state w') \<and> same_rest w w' \<and> same_sizes A w w'"

lemma table_step_refl [simp]: "table_step A w w"
  by (simp add: table_step_def same_sizes_def)

lemma table_step_trans: "table_step A u v \<Longrightarrow> table_step A v w \<Longrightarrow> table_step A u w"
  by (auto simp: table_step_def same_sizes_def intro: table_only_trans same_rest_trans)

lemma table_step_mono: "table_step A u v \<Longrightarrow> A \<subseteq> B \<Longrightarrow> table_step B u v"
  by (auto simp: table_step_def same_sizes_def)

lemma call_malloc_step:
  assumes "call_malloc X n w = (p, w')"
  shows "table_step {} w w'"
  using assms
  by (auto simp: call_malloc_def bootstrap_malloc_def table_step_def same_sizes_def same_rest_def env_of_def Let_def
      split: fnptr.splits prod.splits if_splits)

lemma call_free_step: "table_step {} w (call_free X p w)"
  by (auto simp: call_free_def bootstrap_free_def table_step_def same_sizes_def same_rest_def env_of_def
      split: fnptr.splits)

lemma pool_take_step: "pool_take i w = (e, w') \<Longrightarrow> table_step {} w w'"
  by (auto simp: pool_take_def table_step_def same_sizes_def Let_def intro!: table_onlyI split: if_splits)

lemma pool_lock_step: "table_step {} w (pool_lock i w)" "table_step {} w (pool_unlock i w)"
  by (auto simp: pool_lock_def pool_unlock_def table_step_def same_sizes_def same_rest_def env_of_def
      intro!: table_onlyI)

lemma pool_scan_step: "pool_scan idx ks w = (e, w') \<Longrightarrow> table_step {} w w'"
proof (induction ks arbitrary: w)
  case (Cons k ks)
  let ?j = "(idx + k) mod MTT_LOCK_STRIPES"
  obtain a w1 where t: "pool_take ?j (pool_lock ?j w) = (a, w1)" by fastforce
  have s: "table_step {} w (pool_unlock ?j w1)"
    by (rule table_step_trans [OF pool_lock_step(1) table_step_trans [OF pool_take_step [OF t] pool_lock_step(2)]])
  show ?case
    using Cons.prems Cons.IH [of w] Cons.IH [of "pool_unlock ?j w1"] s table_step_trans [OF s]
    by (auto simp: Let_def t split: if_splits)
qed simp

lemma write_link_step: "table_step {} w (write_link lk v w)"
  by (cases lk)
    (auto simp: write_link_def upd_entry_def table_step_def same_sizes_def same_rest_def env_of_def
      intro!: table_onlyI)

lemma pool_return_step: "table_step {e} w (pool_return e w)"
  by (auto simp: pool_return_def upd_entry_def pool_lock_def pool_unlock_def table_step_def same_sizes_def
      same_rest_def env_of_def Let_def intro!: table_onlyI)

lemma entry_add_step: "table_step {} w (mtt_entry_add e w)"
  by (auto simp: mtt_entry_add_def write_link_def upd_entry_def table_step_def same_sizes_def same_rest_def
      env_of_def Let_def intro!: table_onlyI split: option.split)

lemma entry_discard_step: "table_step {e} w (mtt_entry_discard X e w)"
  using pool_return_step [of e w] table_step_mono [OF call_free_step, of "{e}"]
  by (auto simp: mtt_entry_discard_def)

lemma capture_step:
  assumes "e \<noteq> NULL"
  shows "table_step {e} w (mtt_capture_stack X tid e w)"
  using capture_stack_frame(1) [OF assms, of w X tid]
  by (auto simp: only_frames_def table_step_def same_sizes_def same_rest_def)

lemma entry_new_step:
  assumes "mtt_entry_new X tid p sz w = (e, w')"
  shows "table_step {e} w w'"
proof -
  have fin: "table_step {a} w (mtt_capture_stack X tid a (upd_entry a (\<lambda>_. r) v))"
    if "table_step {} w v" "a \<noteq> NULL" for a v r
  proof -
    have "table_step {a} v (upd_entry a (\<lambda>_. r) v)"
      by (simp add: table_step_def same_sizes_def upd_entry_def same_rest_def)
    then show ?thesis
      using table_step_mono [OF that(1), of "{a}"] capture_step [OF that(2)]
      by (metis empty_subsetI table_step_trans)
  qed
  show ?thesis
  proof (cases "s_pool (g_state w) = NULL")
    case True
    obtain a w1 where m: "call_malloc X sizeof_mtt_entry w = (a, w1)" by fastforce
    show ?thesis
      using assms True m fin [OF call_malloc_step [OF m]] table_step_mono [OF call_malloc_step [OF m], of "{e}"]
      by (auto simp: mtt_entry_new_def split: if_splits)
  next
    case False
    let ?i = "stripe_at w p"
    obtain a w1 where t: "pool_take ?i (pool_lock ?i w) = (a, w1)" by fastforce
    have s1: "table_step {} w (pool_unlock ?i w1)"
      by (rule table_step_trans [OF pool_lock_step(1) table_step_trans [OF pool_take_step [OF t] pool_lock_step(2)]])
    obtain b w2 where b: "(if a = NULL then pool_scan ?i [1..<MTT_LOCK_STRIPES] (pool_unlock ?i w1)
        else (a, pool_unlock ?i w1)) = (b, w2)"
      by fastforce
    have s2: "table_step {} w w2"
      using b s1 pool_scan_step [of ?i _ "pool_unlock ?i w1" b w2] table_step_trans [OF s1]
      by (auto split: if_splits)
    have "mtt_entry_new X tid p sz w =
        (if b = NULL then (NULL, w2)
         else (b, mtt_capture_stack X tid b (upd_entry b (\<lambda>_. init_entry p sz w2) w2)))"
      using False t b by (simp add: mtt_entry_new_def Let_def)
    then show ?thesis
      using assms fin [OF s2] table_step_mono [OF s2, of "{e}"] by (auto split: if_splits)
  qed
qed

text \<open>Removing changes the sizes of no other record.\<close>

lemma entry_remove_step:
  assumes "recs w R H" "p \<noteq> NULL"
  shows "table_step (set (take 1 (R p))) w (mtt_entry_remove X p w)"
proof -
  obtain bs fs where t: "table_inv w bs fs H" and R: "R = records w bs" using assms(1) by (auto simp: recs_def)
  then have ch: "chains_inv w bs fs" by (simp add: table_inv_def)
  show ?thesis
  proof (cases "R p")
    case Nil
    then show ?thesis using entry_remove_absent [OF ch] R by simp
  next
    case (Cons a as)
    then have f: "filter (\<lambda>a. e_ptr (g_entries w a) = p) (bs (bucket_at w p)) = a # as"
      by (simp add: R records_def)
    obtain us vs where sp: "bs (bucket_at w p) = us @ a # vs"
      "\<forall>u \<in> set us. e_ptr (g_entries w u) \<noteq> p" "e_ptr (g_entries w a) = p"
      using filter_split [OF f] by blast
    define w1 where "w1 = upd_state (\<lambda>s. s\<lparr>s_entry_count := s_entry_count s - 1\<rparr>)
        (write_link (pred_link (bucket_at w p) us) (e_next (g_entries w a)) w)"
    have "table_step {} v (upd_state (\<lambda>s. s\<lparr>s_entry_count := s_entry_count s - 1\<rparr>) v)" for v :: "'a world"
      by (auto simp: table_step_def same_sizes_def intro!: table_onlyI)
    then have s1: "table_step {a} w w1"
      unfolding w1_def using table_step_mono [OF table_step_trans [OF write_link_step]] by blast
    have "mtt_entry_remove X p w =
      (if s_pool (g_state w1) \<noteq> NULL then pool_return a w1
       else if raw_free w1 \<noteq> F_NULL then call_free X a w1 else w1)"
      using entry_remove_eq [OF ch assms(2) sp] by (simp add: w1_def Let_def)
    then have "table_step {a} w1 (mtt_entry_remove X p w)"
      using pool_return_step [of a w1] table_step_mono [OF call_free_step, of "{a}"] by auto
    then show ?thesis using table_step_trans [OF s1] Cons by simp
  qed
qed

section \<open>The abstract view\<close>

text \<open>The sizes recorded for each pointer, newest first, while callers hold the records \<open>H\<close>.\<close>

definition tracked :: "'l world \<Rightarrow> (ptr \<Rightarrow> size_t list) \<Rightarrow> ptr set \<Rightarrow> bool" where
  "tracked w S H \<longleftrightarrow>
     (\<exists>R. recs w R H \<and> S = (\<lambda>p. map (\<lambda>a. e_size (g_entries w a)) (R p)))"

text \<open>The fields of the state that the table consists of.\<close>

definition table_fields :: "mtt_state \<Rightarrow>
    ((nat \<Rightarrow> ptr) option \<times> u32 \<times> u64) \<times> (ptr \<times> (nat \<Rightarrow> ptr) \<times> (nat \<Rightarrow> bool)) \<times> size_t \<times> size_t \<times> u64" where
  "table_fields s = ((s_buckets s, s_bucket_count s, s_hash_seed s),
     (s_pool s, s_pool_free_lists s, s_pool_locks s), s_pool_capacity s, s_pool_used s, s_entry_count s)"

lemma recs_fields:
  assumes "table_fields (g_state w') = table_fields (g_state w)" "g_entries w' = g_entries w"
  shows "recs w' R H = recs w R H"
proof -
  have f: "s_buckets (g_state w') = s_buckets (g_state w)" "s_bucket_count (g_state w') = s_bucket_count (g_state w)"
    "s_hash_seed (g_state w') = s_hash_seed (g_state w)" "s_pool (g_state w') = s_pool (g_state w)"
    "s_pool_free_lists (g_state w') = s_pool_free_lists (g_state w)"
    "s_pool_locks (g_state w') = s_pool_locks (g_state w)"
    "s_pool_capacity (g_state w') = s_pool_capacity (g_state w)" "s_pool_used (g_state w') = s_pool_used (g_state w)"
    "s_entry_count (g_state w') = s_entry_count (g_state w)"
    using assms(1) by (simp_all add: table_fields_def)
  show ?thesis
    unfolding recs_def table_inv_def chains_inv_def counts_inv_def records_def pool_unlocked_def pool_slots_def
      f assms(2) ..
qed

lemma tracked_fields:
  assumes "table_fields (g_state w') = table_fields (g_state w)" "g_entries w' = g_entries w"
  shows "tracked w' S H = tracked w S H"
  using recs_fields [OF assms] assms(2) by (simp add: tracked_def)

lemma recs_distinct:
  assumes "recs w R H"
  shows "distinct (R p)"
proof -
  obtain bs fs where t: "table_inv w bs fs H" and R: "R = records w bs" using assms by (auto simp: recs_def)
  then have ch: "chains_inv w bs fs" by (simp add: table_inv_def)
  then obtain bk where "s_buckets (g_state w) = Some bk" by (auto simp: chains_inv_def)
  from chain_distinct [OF chains_bucket [OF ch this, of p]] show ?thesis
    by (simp add: R records_def)
qed

lemma recs_held_notin: "recs w R H \<Longrightarrow> e \<in> H \<Longrightarrow> e \<notin> set (R p)"
  by (fastforce simp: recs_def records_def table_inv_def counts_inv_def nodes_def)

text \<open>Sizes carry over a step that touches no stored record.\<close>

lemma sizes_keep:
  assumes "table_step A w w'" "set xs \<inter> A = {}"
  shows "map (\<lambda>a. e_size (g_entries w' a)) xs = map (\<lambda>a. e_size (g_entries w a)) xs"
  using assms by (auto simp: table_step_def same_sizes_def)

lemma tracked_find:
  assumes "tracked w S H" "p \<noteq> NULL" "mtt_entry_find p w = (e, w')"
  shows "w' = w \<and> (e = NULL \<longleftrightarrow> S p = []) \<and> (e \<noteq> NULL \<longrightarrow> S p = e_size (g_entries w e) # tl (S p))"
proof -
  obtain R where r: "recs w R H" and S: "S = (\<lambda>p. map (\<lambda>a. e_size (g_entries w a)) (R p))"
    using assms(1) by (auto simp: tracked_def)
  have f: "(e, w') = (case R p of [] \<Rightarrow> NULL | a # _ \<Rightarrow> a, w)"
    using entry_table.lookup_law [OF r assms(2)] assms(3) by simp
  show ?thesis
    using f entry_table.key_law [OF r, of _ p] by (cases "R p") (auto simp: S)
qed

lemma tracked_add:
  assumes "tracked w S H" "e \<in> H" "e_ptr (g_entries w e) = p"
  shows "tracked (mtt_entry_add e w) (S(p := e_size (g_entries w e) # S p)) (H - {e})"
proof -
  obtain R where r: "recs w R H" and S: "S = (\<lambda>p. map (\<lambda>a. e_size (g_entries w a)) (R p))"
    using assms(1) by (auto simp: tracked_def)
  have sz: "e_size (g_entries (mtt_entry_add e w) a) = e_size (g_entries w a)" for a
    using entry_add_step [of w e] by (simp add: table_step_def same_sizes_def)
  have "S(p := e_size (g_entries w e) # S p) =
      (\<lambda>q. map (\<lambda>a. e_size (g_entries (mtt_entry_add e w) a)) ((R(p := e # R p)) q))"
    by (auto simp: sz S)
  with entry_table.add_law [OF r assms(2,3)] show ?thesis unfolding tracked_def by blast
qed

lemma tracked_remove:
  assumes "tracked w S H" "p \<noteq> NULL"
  shows "tracked (mtt_entry_remove X p w) (S(p := tl (S p))) H"
proof -
  obtain R where r: "recs w R H" and S: "S = (\<lambda>p. map (\<lambda>a. e_size (g_entries w a)) (R p))"
    using assms(1) by (auto simp: tracked_def)
  let ?w = "mtt_entry_remove X p w" and ?R = "R(p := tl (R p))"
  have st: "table_step (set (take 1 (R p))) w ?w" by (rule entry_remove_step [OF r assms(2)])
  have "set (?R q) \<inter> set (take 1 (R p)) = {}" for q
  proof (cases "R p")
    case (Cons a as)
    have "a \<notin> set as" using recs_distinct [OF r, of p] Cons by simp
    moreover have "a \<notin> set (R q)" if "q \<noteq> p"
      using entry_table.key_law [OF r, of a p] entry_table.key_law [OF r, of a q] Cons that by auto
    ultimately show ?thesis using Cons by auto
  qed simp
  then have "map (\<lambda>a. e_size (g_entries ?w a)) (?R q) = map (\<lambda>a. e_size (g_entries w a)) (?R q)" for q
    by (rule sizes_keep [OF st])
  then have "S(p := tl (S p)) = (\<lambda>q. map (\<lambda>a. e_size (g_entries ?w a)) (?R q))"
    unfolding S by (subst fun_eq_iff) (simp del: map_eq_conv add: map_tl)
  with entry_table.remove_law [OF r assms(2)] show ?thesis unfolding tracked_def by blast
qed

text \<open>The stored records of a world that keeps the buckets and the keys of the stored records.\<close>

lemma recs_transfer:
  assumes "table_inv w' bs fs' H'" "pool_unlocked w'"
    and "s_bucket_count (g_state w') = s_bucket_count (g_state w)" "s_hash_seed (g_state w') = s_hash_seed (g_state w)"
    and keep: "\<And>a. a \<in> nodes bs \<Longrightarrow> e_ptr (g_entries w' a) = e_ptr (g_entries w a)"
  shows "recs w' (records w bs) H'"
proof -
  have k: "e_ptr (g_entries w' a) = e_ptr (g_entries w a)" if "a \<in> set (bs i)" for a i
    using keep [of a] that by (auto simp: nodes_def)
  have "records w' bs q = records w bs q" for q
    unfolding records_def assms(3,4) by (rule filter_cong [OF refl]) (simp only: k)
  then have "records w' bs = records w bs" by (rule ext)
  then show ?thesis using assms(1,2) unfolding recs_def by metis
qed

lemma recs_new:
  assumes "recs w R H" "s_pool (g_state w) \<noteq> NULL" "mtt_entry_new X tid p sz w = (e, w')"
  shows "e = NULL \<and> recs w' R H \<or>
    e \<noteq> NULL \<and> e \<notin> H \<and> recs w' R (insert e H) \<and> new_record p sz (g_entries w' e)"
proof -
  obtain bs fs where u: "pool_unlocked w" and t: "table_inv w bs fs H" and R: "R = records w bs"
    using assms(1) by (auto simp: recs_def)
  have fr: "fresh_records X w bs H" using assms(2) by (simp add: fresh_records_def)
  have bc: "s_bucket_count (g_state w') = s_bucket_count (g_state w)" "s_hash_seed (g_state w') = s_hash_seed (g_state w)"
    using entry_new_step [OF assms(3)] table_only_fields by (auto simp: table_step_def)
  from entry_new_inv [OF t u fr assms(3)] show ?thesis
  proof (elim disjE conjE exE)
    assume "e = NULL" "table_inv w' bs fs H" "pool_unlocked w'" "g_entries w' = g_entries w"
    then show ?thesis using recs_transfer [OF _ _ bc] by (simp add: R)
  next
    fix fs'
    assume n: "e \<noteq> NULL" "e \<notin> H" "e \<notin> nodes bs" "table_inv w' bs fs' (insert e H)" "pool_unlocked w'"
      "new_record p sz (g_entries w' e)" "\<forall>a. a \<noteq> e \<longrightarrow> g_entries w' a = g_entries w a"
    have "g_entries w' a = g_entries w a" if "a \<in> nodes bs" for a using n(3,7) that by metis
    then show ?thesis using recs_transfer [OF n(4,5) bc] n by (simp add: R)
  qed
qed

lemma recs_discard:
  assumes "recs w R H" "e \<in> H"
  shows "recs (mtt_entry_discard X e w) R (H - {e})"
proof -
  obtain bs fs where u: "pool_unlocked w" and t: "table_inv w bs fs H" and R: "R = records w bs"
    using assms(1) by (auto simp: recs_def)
  let ?w = "mtt_entry_discard X e w"
  obtain fs' where d: "table_inv ?w bs fs' (H - {e})" "pool_unlocked ?w"
    using entry_discard_inv [OF t u assms(2)] by blast
  have st: "table_step {e} w ?w" by (rule entry_discard_step)
  have bc: "s_bucket_count (g_state ?w) = s_bucket_count (g_state w)" "s_hash_seed (g_state ?w) = s_hash_seed (g_state w)"
    using st table_only_fields by (auto simp: table_step_def)
  have "e \<notin> nodes bs" using t assms(2) by (auto simp: table_inv_def counts_inv_def)
  then have "e_ptr (g_entries ?w a) = e_ptr (g_entries w a)" if "a \<in> nodes bs" for a
    using st that by (auto simp: table_step_def same_sizes_def)
  then show ?thesis using recs_transfer [OF d bc] by (simp add: R)
qed

text \<open>Filling in the number of a record that is still held.\<close>

lemma recs_held:
  assumes "recs w R H" "e \<in> H"
  shows "recs (upd_entry e f w) R H"
proof -
  obtain bs fs where u: "pool_unlocked w" and t: "table_inv w bs fs H" and R: "R = records w bs"
    using assms(1) by (auto simp: recs_def)
  let ?w = "upd_entry e f w"
  have s: "g_state ?w = g_state w" and k: "\<And>a. a \<noteq> e \<Longrightarrow> g_entries ?w a = g_entries w a"
    by (simp_all add: upd_entry_def)
  have ne: "e \<notin> nodes bs" using t assms(2) by (auto simp: table_inv_def counts_inv_def)
  have "table_inv ?w bs fs H" by (rule table_inv_held [OF t assms(2) s k])
  moreover have "pool_unlocked ?w" using u by (simp add: pool_unlocked_def s)
  moreover have "e_ptr (g_entries ?w a) = e_ptr (g_entries w a)" if "a \<in> nodes bs" for a using that ne k by metis
  ultimately show ?thesis using recs_transfer [of ?w bs fs H w] by (simp add: s R)
qed

lemma tracked_elim:
  assumes "tracked w S H"
  obtains bs fs where "pool_unlocked w" "table_inv w bs fs H"
    "S = (\<lambda>p. map (\<lambda>a. e_size (g_entries w a)) (records w bs p))"
  using assms by (auto simp: tracked_def recs_def)

text \<open>The view over a step that touches no stored record.\<close>

lemma tracked_recs:
  assumes "recs w R H" "S = (\<lambda>p. map (\<lambda>a. e_size (g_entries w a)) (R p))" "recs w' R H'" "same_sizes A w w'"
    and "\<And>p. set (R p) \<inter> A = {}"
  shows "tracked w' S H'"
proof -
  have "map (\<lambda>a. e_size (g_entries w' a)) (R p) = map (\<lambda>a. e_size (g_entries w a)) (R p)" for p
    using assms(4) assms(5) [of p] by (auto simp: same_sizes_def)
  then show ?thesis unfolding tracked_def using assms(2,3) by (intro exI [of _ R]) (simp add: fun_eq_iff)
qed

lemma tracked_new:
  assumes "tracked w S H" "s_pool (g_state w) \<noteq> NULL" "mtt_entry_new X tid p sz w = (e, w')"
  shows "e = NULL \<and> tracked w' S H \<or>
    e \<noteq> NULL \<and> e \<notin> H \<and> tracked w' S (insert e H) \<and> new_record p sz (g_entries w' e)"
proof -
  obtain R where r: "recs w R H" and S: "S = (\<lambda>p. map (\<lambda>a. e_size (g_entries w a)) (R p))"
    using assms(1) by (auto simp: tracked_def)
  have st: "same_sizes {e} w w'" using entry_new_step [OF assms(3)] by (simp add: table_step_def)
  from recs_new [OF r assms(2,3)] show ?thesis
  proof (elim disjE conjE)
    assume e: "e = NULL" "recs w' R H"
    have "set (R q) \<inter> {e} = {}" for q using entry_table.key_law [OF r, of e q] e(1) by auto
    then show ?thesis using tracked_recs [OF r S e(2) st] e(1) by blast
  next
    assume e: "e \<noteq> NULL" "e \<notin> H" "recs w' R (insert e H)" "new_record p sz (g_entries w' e)"
    have "set (R q) \<inter> {e} = {}" for q using recs_held_notin [OF e(3), of e q] by auto
    then show ?thesis using tracked_recs [OF r S e(3) st] e by blast
  qed
qed

lemma tracked_discard:
  assumes "tracked w S H" "e \<in> H"
  shows "tracked (mtt_entry_discard X e w) S (H - {e})"
proof -
  obtain R where r: "recs w R H" and S: "S = (\<lambda>p. map (\<lambda>a. e_size (g_entries w a)) (R p))"
    using assms(1) by (auto simp: tracked_def)
  have "same_sizes {e} w (mtt_entry_discard X e w)" using entry_discard_step [of e w X] by (simp add: table_step_def)
  then show ?thesis
    using recs_held_notin [OF r assms(2)] by (intro tracked_recs [OF r S recs_discard [OF r assms(2)]]) auto
qed

lemma tracked_held:
  assumes "tracked w S H" "e \<in> H"
  shows "tracked (upd_entry e f w) S H"
proof -
  obtain R where r: "recs w R H" and S: "S = (\<lambda>p. map (\<lambda>a. e_size (g_entries w a)) (R p))"
    using assms(1) by (auto simp: tracked_def)
  have "same_sizes {e} w (upd_entry e f w)" by (simp add: same_sizes_def upd_entry_def)
  then show ?thesis
    using recs_held_notin [OF r assms(2)] by (intro tracked_recs [OF r S recs_held [OF r assms(2)]]) auto
qed

section \<open>Bytes and counts of the view\<close>

definition live_bytes :: "(ptr \<Rightarrow> size_t list) \<Rightarrow> nat" where
  "live_bytes S = (\<Sum>p | S p \<noteq> []. \<Sum>x\<leftarrow>S p. unat x)"

definition live_count :: "(ptr \<Rightarrow> size_t list) \<Rightarrow> nat" where
  "live_count S = (\<Sum>p | S p \<noteq> []. length (S p))"

text \<open>Both are sums over any finite set of pointers outside which nothing is recorded.\<close>

lemma live_on:
  assumes "finite A" "{p. S p \<noteq> []} \<subseteq> A"
  shows "live_bytes S = (\<Sum>p \<in> A. \<Sum>x\<leftarrow>S p. unat x)" "live_count S = (\<Sum>p \<in> A. length (S p))"
proof -
  show "live_bytes S = (\<Sum>p \<in> A. \<Sum>x\<leftarrow>S p. unat x)"
    unfolding live_bytes_def by (rule sum.mono_neutral_left) (use assms in auto)
  show "live_count S = (\<Sum>p \<in> A. length (S p))"
    unfolding live_count_def by (rule sum.mono_neutral_left) (use assms in auto)
qed

lemma live_upd:
  assumes "finite {p. S p \<noteq> []}"
  shows "live_bytes (S(p := xs)) + (\<Sum>x\<leftarrow>S p. unat x) = live_bytes S + (\<Sum>x\<leftarrow>xs. unat x)"
    "live_count (S(p := xs)) + length (S p) = live_count S + length xs"
proof -
  let ?A = "insert p {p. S p \<noteq> []}"
  have A: "finite ?A" using assms by simp
  have rest: "(\<Sum>q \<in> ?A - {p}. f ((S(p := xs)) q)) = (\<Sum>q \<in> ?A - {p}. f (S q))" for f :: "size_t list \<Rightarrow> nat"
    by (rule sum.cong) auto
  have b: "(\<Sum>q \<in> ?A. f (T q)) = f (T p) + (\<Sum>q \<in> ?A - {p}. f (T q))" for f :: "size_t list \<Rightarrow> nat" and T
    by (rule sum.remove [OF A]) simp
  have s1: "{q. (S(p := xs)) q \<noteq> []} \<subseteq> ?A" "{q. S q \<noteq> []} \<subseteq> ?A" by (auto split: if_splits)
  show "live_bytes (S(p := xs)) + (\<Sum>x\<leftarrow>S p. unat x) = live_bytes S + (\<Sum>x\<leftarrow>xs. unat x)"
    unfolding live_on(1) [OF A s1(1)] live_on(1) [OF A s1(2)]
      b [of "\<lambda>l. \<Sum>x\<leftarrow>l. unat x" "S(p := xs)"] b [of "\<lambda>l. \<Sum>x\<leftarrow>l. unat x" S]
      rest [of "\<lambda>l. \<Sum>x\<leftarrow>l. unat x"]
    by simp
  show "live_count (S(p := xs)) + length (S p) = live_count S + length xs"
    unfolding live_on(2) [OF A s1(1)] live_on(2) [OF A s1(2)]
      b [of length "S(p := xs)"] b [of length S] rest [of length]
    by simp
qed

lemma live_push:
  assumes "finite {p. S p \<noteq> []}"
  shows "live_bytes (S(p := x # S p)) = live_bytes S + unat x" "live_count (S(p := x # S p)) = Suc (live_count S)"
  using live_upd [OF assms, of p "x # S p"] by simp_all

lemma live_pop:
  assumes "finite {p. S p \<noteq> []}" "S p = x # xs"
  shows "live_bytes S = live_bytes (S(p := xs)) + unat x" "live_count S = Suc (live_count (S(p := xs)))"
  using live_upd [OF assms(1), of p xs] assms(2) by simp_all

text \<open>The records of all pointers are the nodes of the table.\<close>

lemma nodes_records:
  assumes "chains_inv w bs fs"
  shows "nodes bs = (\<Union>p \<in> {p. records w bs p \<noteq> []}. set (records w bs p))"
proof
  have key: "\<And>a i. a \<in> set (bs i) \<Longrightarrow> bucket_at w (e_ptr (g_entries w a)) = i"
    using assms unfolding chains_inv_def by blast
  show "nodes bs \<subseteq> (\<Union>p \<in> {p. records w bs p \<noteq> []}. set (records w bs p))"
  proof
    fix a assume "a \<in> nodes bs"
    then obtain i where "a \<in> set (bs i)" by (auto simp: nodes_def)
    then have "a \<in> set (records w bs (e_ptr (g_entries w a)))" using key by (simp add: records_def)
    then show "a \<in> (\<Union>p \<in> {p. records w bs p \<noteq> []}. set (records w bs p))"
      by (metis (mono_tags, lifting) UN_iff emptyE list.set(1) mem_Collect_eq)
  qed
  show "(\<Union>p \<in> {p. records w bs p \<noteq> []}. set (records w bs p)) \<subseteq> nodes bs"
    by (auto simp: records_def nodes_def)
qed

text \<open>The entry counter of the tracker is the number of recorded blocks.\<close>

lemma tracked_count:
  assumes "tracked w S H"
  shows "finite {p. S p \<noteq> []}" "s_entry_count (g_state w) = of_nat (live_count S)"
proof -
  obtain bs fs where u: "pool_unlocked w" and t: "table_inv w bs fs H"
    and S: "S = (\<lambda>p. map (\<lambda>a. e_size (g_entries w a)) (records w bs p))"
    using assms by (rule tracked_elim)
  define R where "R = records w bs"
  have ch: "chains_inv w bs fs" using t by (simp add: table_inv_def)
  have r: "recs w R H" using u t unfolding recs_def R_def by blast
  have fin: "finite (nodes bs)" and cnt: "s_entry_count (g_state w) = of_nat (card (nodes bs))"
    using t by (simp_all add: table_inv_def counts_inv_def)
  have sup: "{p. S p \<noteq> []} = {p. R p \<noteq> []}" unfolding S R_def by (simp only: map_is_Nil_conv)
  note nodes = nodes_records [OF ch, folded R_def]
  have key: "e_ptr (g_entries w a) = p" if "a \<in> set (R p)" for a p using that by (simp add: R_def records_def)
  have "{p. R p \<noteq> []} \<subseteq> (\<lambda>a. e_ptr (g_entries w a)) ` nodes bs"
  proof
    fix p assume "p \<in> {p. R p \<noteq> []}"
    then obtain a where a: "a \<in> set (R p)" by (cases "R p") auto
    then have "a \<in> nodes bs" unfolding nodes by (intro UN_I [of p]) auto
    then show "p \<in> (\<lambda>a. e_ptr (g_entries w a)) ` nodes bs" using key [OF a] by blast
  qed
  then show f: "finite {p. S p \<noteq> []}" unfolding sup by (rule finite_subset) (rule finite_imageI [OF fin])
  have dis: "set (R p) \<inter> set (R q) = {}" if "p \<noteq> q" for p q
    unfolding disjoint_iff using key [of _ p] key [of _ q] that by metis
  have "card (nodes bs) = (\<Sum>p \<in> {p. R p \<noteq> []}. card (set (R p)))"
    unfolding nodes by (rule card_UN_disjoint) (use f dis in \<open>auto simp: sup\<close>)
  also have "\<dots> = (\<Sum>p \<in> {p. R p \<noteq> []}. length (S p))"
  proof (rule sum.cong [OF refl])
    fix p
    have "length (S p) = length (R p)" unfolding S R_def by (rule length_map)
    then show "card (set (R p)) = length (S p)" using distinct_card [OF recs_distinct [OF r]] by simp
  qed
  also have "\<dots> = live_count S" unfolding live_count_def sup ..
  finally show "s_entry_count (g_state w) = of_nat (live_count S)" using cnt by simp
qed

section \<open>The books\<close>

text \<open>
  The counters agree with the view: the current usage is the sum of the recorded sizes, the
  number of records is the number of recorded allocations minus the recorded releases, the
  peak is at least the current usage, and no block of size 0 is recorded.
\<close>

definition books :: "'l world \<Rightarrow> (ptr \<Rightarrow> size_t list) \<Rightarrow> ptr set \<Rightarrow> bool" where
  "books w S H \<longleftrightarrow>
     tracked w S H \<and> unat (s_current_bytes (g_state w)) = live_bytes S \<and>
     s_entry_count (g_state w) = s_alloc_count (g_state w) - s_free_count (g_state w) \<and>
     s_current_bytes (g_state w) \<le> s_peak_bytes (g_state w) \<and> (\<forall>p. 0 \<notin> set (S p))"

text \<open>What no allocation function changes once the tracker is initialised.\<close>

definition keeps :: "'l world \<Rightarrow> 'l world \<Rightarrow> bool" where
  "keeps w w' \<longleftrightarrow>
     raw_malloc w' = raw_malloc w \<and> raw_free w' = raw_free w \<and> raw_calloc w' = raw_calloc w \<and>
     raw_realloc w' = raw_realloc w \<and> env_of w' = env_of w \<and>
     s_pool (g_state w') = s_pool (g_state w) \<and> s_pool_raw_size (g_state w') = s_pool_raw_size (g_state w) \<and>
     s_initialized (g_state w') = s_initialized (g_state w) \<and>
     s_disabled (g_state w') = s_disabled (g_state w) \<and>
     s_startup_until (g_state w') = s_startup_until (g_state w) \<and>
     s_bucket_locks (g_state w') = s_bucket_locks (g_state w) \<and>
     s_bucket_count (g_state w') = s_bucket_count (g_state w) \<and> s_hash_seed (g_state w') = s_hash_seed (g_state w)"

lemma keeps_refl [simp]: "keeps w w"
  by (simp add: keeps_def)

lemma keeps_trans [trans]: "keeps u v \<Longrightarrow> keeps v w \<Longrightarrow> keeps u w"
  by (simp add: keeps_def)

lemma table_step_keeps: "table_step A w w' \<Longrightarrow> keeps w w'"
  using table_only_fields [of "g_state w" "g_state w'"] by (simp add: table_step_def same_rest_def keeps_def)

lemma keeps_upd [simp]:
  "keeps w (upd_entry e f w)" "keeps w (upd_slot i g w)" "keeps w (w\<lparr>g_ext := l\<rparr>)" "keeps w (w\<lparr>g_mem := m\<rparr>)"
  by (simp_all add: keeps_def) (simp_all add: upd_entry_def upd_slot_def)

lemma books_tracked: "books w S H \<Longrightarrow> tracked w S H"
  by (simp add: books_def)

text \<open>A step that leaves the counters and the view leaves the books.\<close>

lemma books_step:
  assumes "books w S H" "tracked w' S H'" "table_only (g_state w) (g_state w')"
  shows "books w' S H'"
  using assms tracked_count(2) [OF assms(2)] tracked_count(2) [OF books_tracked [OF assms(1)]]
    table_only_fields [OF assms(3)]
  by (simp add: books_def)

text \<open>Changes of other counters.\<close>

definition same_books :: "mtt_state \<Rightarrow> mtt_state \<Rightarrow> bool" where
  "same_books s s' \<longleftrightarrow>
     table_fields s' = table_fields s \<and> s_current_bytes s' = s_current_bytes s \<and>
     s_alloc_count s' = s_alloc_count s \<and> s_free_count s' = s_free_count s \<and> s_peak_bytes s' = s_peak_bytes s"

lemma books_same:
  assumes "same_books (g_state w) (g_state w')" "g_entries w' = g_entries w"
  shows "books w' S H = books w S H"
  using tracked_fields [of w' w] assms by (simp add: books_def same_books_def table_fields_def)

lemma update_peak_fields:
  "table_fields (snd (update_peak s)) = table_fields s"
  "s_current_bytes (snd (update_peak s)) = s_current_bytes s"
  "s_alloc_count (snd (update_peak s)) = s_alloc_count s" "s_free_count (snd (update_peak s)) = s_free_count s"
  "s_peak_bytes (snd (update_peak s)) = max (s_peak_bytes s) (s_current_bytes s)"
  by (auto simp: update_peak_def table_fields_def max_def)

lemma record_alloc_books:
  assumes "books w S H" "e \<in> H" "e_ptr (g_entries w e) = p" "e_size (g_entries w e) = sz" "sz \<noteq> 0"
    and "live_bytes S + unat sz < 2 ^ 64"
  shows "books (record_alloc always sz e w) (S(p := sz # S p)) (H - {e}) \<and> keeps w (record_alloc always sz e w)"
proof -
  let ?s = "g_state w"
  define w1 where "w1 = upd_entry e (\<lambda>r. r\<lparr>e_alloc_num := s_alloc_seq ?s + 1\<rparr>) w"
  define f2 where "f2 = (\<lambda>s :: mtt_state. s\<lparr>s_alloc_seq := s_alloc_seq s + 1, s_alloc_count := s_alloc_count s + 1,
      s_current_bytes := s_current_bytes s + sz, s_total_bytes := s_total_bytes s + sz\<rparr>)"
  define f3 where "f3 = (\<lambda>s :: mtt_state. let (changed, s) = update_peak s
      in if always \<or> changed then s\<lparr>s_peak_updated := True\<rparr> else s)"
  define w3 where "w3 = upd_state f3 (upd_state f2 w1)"
  define s2 where "s2 = f2 ?s"
  define s3 where "s3 = f3 s2"
  have w': "record_alloc always sz e w = mtt_entry_add e w3"
    unfolding record_alloc_def Let_def w1_def [symmetric] w3_def f2_def f3_def ..
  have gs: "g_state w3 = s3" by (simp add: w3_def w1_def upd_entry_def s3_def s2_def)
  have ge: "g_entries w3 = g_entries w1" by (simp add: w3_def)
  have s3: "table_fields s3 = table_fields ?s" "s_current_bytes s3 = s_current_bytes ?s + sz"
    "s_alloc_count s3 = s_alloc_count ?s + 1" "s_free_count s3 = s_free_count ?s"
    "s_peak_bytes s3 = max (s_peak_bytes ?s) (s_current_bytes ?s + sz)"
    using update_peak_fields [of s2]
    by (auto simp: s3_def f3_def s2_def f2_def table_fields_def case_prod_beta Let_def)
  have k3: "keeps w w3"
    unfolding keeps_def gs
    by (simp add: w3_def w1_def upd_entry_def env_of_def s3_def f3_def s2_def f2_def update_peak_def)
  have t: "tracked w S H" by (rule books_tracked [OF assms(1)])
  have "tracked w1 S H" unfolding w1_def by (rule tracked_held [OF t assms(2)])
  then have t3: "tracked w3 S H"
    using tracked_fields [of w3 w1] s3(1) by (simp add: gs ge) (simp add: w1_def upd_entry_def)
  have e3: "e_ptr (g_entries w3 e) = p" "e_size (g_entries w3 e) = sz"
    using assms(3,4) by (simp_all add: ge w1_def upd_entry_def)
  have t': "tracked (record_alloc always sz e w) (S(p := sz # S p)) (H - {e})"
    using tracked_add [OF t3 assms(2) e3(1)] e3(2) by (simp add: w')
  have fin: "finite {p. S p \<noteq> []}" by (rule tracked_count(1) [OF t])
  note st = entry_add_step [of w3 e]
  have f: "table_only s3 (g_state (record_alloc always sz e w))" using st by (simp add: table_step_def w' gs)
  have cur: "unat (s_current_bytes ?s + sz) = live_bytes S + unat sz"
    using assms(1,6) by (simp add: books_def unat_word_ariths)
  have "books (record_alloc always sz e w) (S(p := sz # S p)) (H - {e})"
    unfolding books_def
  proof (intro conjI allI)
    show "tracked (record_alloc always sz e w) (S(p := sz # S p)) (H - {e})" by (rule t')
    show "unat (s_current_bytes (g_state (record_alloc always sz e w))) = live_bytes (S(p := sz # S p))"
      using live_push(1) [OF fin] cur by (simp add: table_only_fields [OF f] s3)
    have "s_entry_count (g_state (record_alloc always sz e w)) = s_entry_count ?s + 1"
      using tracked_count(2) [OF t'] tracked_count(2) [OF t] live_push(2) [OF fin] by simp
    then show "s_entry_count (g_state (record_alloc always sz e w)) =
        s_alloc_count (g_state (record_alloc always sz e w)) - s_free_count (g_state (record_alloc always sz e w))"
      using assms(1) by (simp add: table_only_fields [OF f] s3 books_def)
    show "s_current_bytes (g_state (record_alloc always sz e w)) \<le>
        s_peak_bytes (g_state (record_alloc always sz e w))"
      by (simp add: table_only_fields [OF f] s3)
    show "0 \<notin> set ((S(p := sz # S p)) q)" for q
      using assms(1,5) by (auto simp: books_def)
  qed
  moreover have "keeps w (record_alloc always sz e w)"
    using keeps_trans [OF k3 table_step_keeps [OF st]] by (simp add: w')
  ultimately show ?thesis by blast
qed

section \<open>The stripe locks\<close>

definition locks_free :: "'l world \<Rightarrow> bool" where
  "locks_free w \<longleftrightarrow> s_bucket_locks (g_state w) = (\<lambda>_. False)"

lemma locks_free_keeps: "keeps w w' \<Longrightarrow> locks_free w \<Longrightarrow> locks_free w'"
  by (simp add: locks_free_def keeps_def)

lemma stripe_books [simp]:
  "books (mtt_stripe_lock p w) S H = books w S H" "books (mtt_stripe_unlock p w) S H = books w S H"
  by (rule books_same; simp add: same_books_def table_fields_def mtt_stripe_lock_def mtt_stripe_unlock_def
      bucket_lock_def bucket_unlock_def)+

lemma stripe_fields [simp]:
  "g_entries (mtt_stripe_lock p w) = g_entries w" "g_entries (mtt_stripe_unlock p w) = g_entries w"
  "s_pool (g_state (mtt_stripe_lock p w)) = s_pool (g_state w)"
  "s_pool (g_state (mtt_stripe_unlock p w)) = s_pool (g_state w)"
  "s_entry_count (g_state (mtt_stripe_lock p w)) = s_entry_count (g_state w)"
  by (simp_all add: mtt_stripe_lock_def mtt_stripe_unlock_def bucket_lock_def bucket_unlock_def)

text \<open>What a critical section keeps, the process keeps.\<close>

lemma stripe_keeps:
  assumes "keeps (mtt_stripe_lock p w) v" "locks_free w"
  shows "keeps w (mtt_stripe_unlock p v)"
  using assms
  by (simp add: keeps_def locks_free_def mtt_stripe_lock_def mtt_stripe_unlock_def bucket_lock_def
      bucket_unlock_def env_of_def fun_eq_iff)

lemma upd_state_keeps:
  assumes "\<And>s. s_pool (h s) = s_pool s" "\<And>s. s_initialized (h s) = s_initialized s"
    "\<And>s. s_disabled (h s) = s_disabled s" "\<And>s. s_startup_until (h s) = s_startup_until s"
    "\<And>s. s_bucket_locks (h s) = s_bucket_locks s" "\<And>s. s_bucket_count (h s) = s_bucket_count s"
    "\<And>s. s_hash_seed (h s) = s_hash_seed s" "\<And>s. s_pool_raw_size (h s) = s_pool_raw_size s"
  shows "keeps w (upd_state h w)"
  using assms by (simp add: keeps_def env_of_def)

section \<open>Recording and forgetting a block\<close>

text \<open>Pushing a size, as every successful recording does.\<close>

abbreviation push :: "ptr \<Rightarrow> size_t \<Rightarrow> (ptr \<Rightarrow> size_t list) \<Rightarrow> ptr \<Rightarrow> size_t list" where
  "push p sz S \<equiv> S(p := sz # S p)"

abbreviation pop :: "ptr \<Rightarrow> (ptr \<Rightarrow> size_t list) \<Rightarrow> ptr \<Rightarrow> size_t list" where
  "pop p S \<equiv> S(p := tl (S p))"

lemma overcap_books [simp]: "books (upd_state count_overcap w) S H = books w S H"
  by (rule books_same; simp add: same_books_def table_fields_def count_overcap_def)

lemma overcap_keeps [simp]: "keeps w (upd_state count_overcap w)"
  by (rule upd_state_keeps) (simp_all add: count_overcap_def)

lemma discard_books:
  assumes "books w S H" "e \<in> H"
  shows "books (mtt_entry_discard X e w) S (H - {e}) \<and> keeps w (mtt_entry_discard X e w)"
  using books_step [OF assms(1) tracked_discard [OF books_tracked [OF assms(1)] assms(2)]]
    entry_discard_step [of e w X] table_step_keeps
  by (auto simp: table_step_def)

text \<open>A new record held by the caller, or none when the pool is empty.\<close>

lemma new_books:
  assumes "books w S H" "s_pool (g_state w) \<noteq> NULL" "mtt_entry_new X tid p sz w = (e, w')"
  shows "keeps w w'" "e = NULL \<Longrightarrow> books w' S H"
    "e \<noteq> NULL \<Longrightarrow> e \<notin> H \<and> books w' S (insert e H) \<and>
       e_ptr (g_entries w' e) = p \<and> e_size (g_entries w' e) = sz"
proof -
  note st = entry_new_step [OF assms(3)]
  have to: "table_only (g_state w) (g_state w')" using st by (simp add: table_step_def)
  note t = tracked_new [OF books_tracked [OF assms(1)] assms(2,3)]
  show "keeps w w'" by (rule table_step_keeps [OF st])
  show "books w' S H" if "e = NULL" using t that books_step [OF assms(1) _ to] by blast
  show "e \<notin> H \<and> books w' S (insert e H) \<and> e_ptr (g_entries w' e) = p \<and> e_size (g_entries w' e) = sz"
    if "e \<noteq> NULL"
    using t that books_step [OF assms(1) _ to, of "insert e H"] by (auto simp: new_record_def)
qed

text \<open>Inserting a held record: the block is on the books, or the table was full.\<close>

lemma insert_entry_books:
  assumes "books w S H" "e \<in> H" "e_ptr (g_entries w e) = p" "e_size (g_entries w e) = sz" "sz \<noteq> 0"
    and "live_bytes S + unat sz < 2 ^ 64" "locks_free w"
  shows "books (insert_entry X always p sz e w) (if s_entry_count (g_state w) \<ge> MTT_MAX_ENTRIES then S else push p sz S)
      (H - {e}) \<and> keeps w (insert_entry X always p sz e w)"
proof (cases "s_entry_count (g_state w) \<ge> MTT_MAX_ENTRIES")
  case True
  let ?v = "mtt_stripe_unlock p (upd_state count_overcap (mtt_stripe_lock p w))"
  have k: "keeps w ?v" by (rule stripe_keeps [OF overcap_keeps assms(7)])
  have b: "books ?v S H" using assms(1) by simp
  show ?thesis using discard_books [OF b assms(2), of X] keeps_trans [OF k] True
    by (simp add: insert_entry_def Let_def)
next
  case False
  have b: "books (mtt_stripe_lock p w) S H" using assms(1) by simp
  note r = record_alloc_books [OF b assms(2), of p sz always]
  show ?thesis using r assms(3-6) stripe_keeps [OF _ assms(7)] False
    by (simp add: insert_entry_def Let_def)
qed

lemma insert_moved_books:
  assumes "books w S H" "e \<in> H" "e_ptr (g_entries w e) = p" "e_size (g_entries w e) = sz" "sz \<noteq> 0"
    and "live_bytes S + unat sz < 2 ^ 64" "locks_free w"
  shows "books (insert_moved X always p sz e w) (if s_entry_count (g_state w) \<ge> MTT_MAX_ENTRIES then S else push p sz S)
      (H - {e}) \<and> keeps w (insert_moved X always p sz e w)"
proof (cases "s_entry_count (g_state w) \<ge> MTT_MAX_ENTRIES")
  case True
  let ?v = "upd_state count_overcap (mtt_stripe_lock p w)"
  have b: "books ?v S H" using assms(1) by simp
  note d = discard_books [OF b assms(2), of X]
  have "keeps (mtt_stripe_lock p w) (mtt_entry_discard X e ?v)"
    using d keeps_trans [OF overcap_keeps] by blast
  then show ?thesis using d stripe_keeps [OF _ assms(7)] True
    by (auto simp: insert_moved_def Let_def)
next
  case False
  have b: "books (mtt_stripe_lock p w) S H" using assms(1) by simp
  note r = record_alloc_books [OF b assms(2), of p sz always]
  show ?thesis using r assms(3-6) stripe_keeps [OF _ assms(7)] False
    by (auto simp: insert_moved_def Let_def)
qed

text \<open>What the callers of \<open>untrack\<close> pass: a subtraction that is exact, a note on other counters.\<close>

definition exact_forget :: "(size_t \<Rightarrow> mtt_state \<Rightarrow> mtt_state) \<Rightarrow> bool" where
  "exact_forget forget \<longleftrightarrow>
     (\<forall>sz s. 0 < sz \<longrightarrow> sz \<le> s_current_bytes s \<longrightarrow> forget sz s = s\<lparr>s_current_bytes := s_current_bytes s - sz\<rparr>)"

definition lifetime_note :: "(mtt_entry \<Rightarrow> 'l world \<Rightarrow> mtt_state \<Rightarrow> mtt_state) \<Rightarrow> bool" where
  "lifetime_note note \<longleftrightarrow>
     (\<forall>r w s. \<exists>a b. note r w s = s\<lparr>s_temp_alloc_count := a, s_free_expired_count := b\<rparr>)"

lemma exact_forgets [simp]: "exact_forget forget_bytes" "exact_forget forget_bytes_moved"
  by (auto simp: exact_forget_def forget_bytes_def forget_bytes_moved_def)

lemma note_shape: "\<exists>a b. note_lifetime r w s = s\<lparr>s_temp_alloc_count := a, s_free_expired_count := b\<rparr>"
  by (rule exI [of _ "s_temp_alloc_count (note_lifetime r w s)"],
      rule exI [of _ "s_free_expired_count (note_lifetime r w s)"])
    (simp add: note_lifetime_def Let_def)

lemma no_note_shape: "\<exists>a b. no_note r w s = s\<lparr>s_temp_alloc_count := a, s_free_expired_count := b\<rparr>"
  by (rule exI [of _ "s_temp_alloc_count s"], rule exI [of _ "s_free_expired_count s"]) (simp add: no_note_def)

lemma lifetime_notes [simp]: "lifetime_note no_note" "lifetime_note note_lifetime"
  by (simp_all add: lifetime_note_def note_shape no_note_shape)

lemma remove_tracked_step:
  assumes "tracked w S H" "p \<noteq> NULL"
  shows "table_only (g_state w) (g_state (mtt_entry_remove X p w)) \<and> keeps w (mtt_entry_remove X p w)"
proof -
  obtain R where "recs w R H" using assms(1) by (auto simp: tracked_def)
  from entry_remove_step [OF this assms(2)] show ?thesis using table_step_keeps by (auto simp: table_step_def)
qed

text \<open>The state after the subtraction and the counters, before the record is removed.\<close>

lemma untrack_state:
  assumes "exact_forget forget" "lifetime_note note" "0 < sz" "sz \<le> s_current_bytes (g_state w)"
  defines "v \<equiv> upd_state (forget sz) w"
  defines "u \<equiv> upd_state (\<lambda>s. s\<lparr>s_free_count := s_free_count s + 1\<rparr>) v"
  shows "keeps w (upd_state (note r u) u)" "g_entries (upd_state (note r u) u) = g_entries w"
    "table_fields (g_state (upd_state (note r u) u)) = table_fields (g_state w)"
    "s_current_bytes (g_state (upd_state (note r u) u)) = s_current_bytes (g_state w) - sz"
    "s_free_count (g_state (upd_state (note r u) u)) = s_free_count (g_state w) + 1"
    "s_alloc_count (g_state (upd_state (note r u) u)) = s_alloc_count (g_state w)"
    "s_peak_bytes (g_state (upd_state (note r u) u)) = s_peak_bytes (g_state w)"
proof -
  have v: "g_state v = (g_state w)\<lparr>s_current_bytes := s_current_bytes (g_state w) - sz\<rparr>"
    using assms(1,3,4) by (simp add: v_def exact_forget_def)
  obtain a b where n: "note r u (g_state u) = (g_state u)\<lparr>s_temp_alloc_count := a, s_free_expired_count := b\<rparr>"
    using assms(2) unfolding lifetime_note_def by blast
  have s: "g_state (upd_state (note r u) u) =
      (g_state w)\<lparr>s_current_bytes := s_current_bytes (g_state w) - sz, s_free_count := s_free_count (g_state w) + 1,
        s_temp_alloc_count := a, s_free_expired_count := b\<rparr>"
    by (simp add: n) (simp add: u_def v)
  show "keeps w (upd_state (note r u) u)"
    unfolding keeps_def s by (simp add: u_def v_def env_of_def)
  show "g_entries (upd_state (note r u) u) = g_entries w" by (simp add: u_def v_def)
  show "table_fields (g_state (upd_state (note r u) u)) = table_fields (g_state w)"
    "s_current_bytes (g_state (upd_state (note r u) u)) = s_current_bytes (g_state w) - sz"
    "s_free_count (g_state (upd_state (note r u) u)) = s_free_count (g_state w) + 1"
    "s_alloc_count (g_state (upd_state (note r u) u)) = s_alloc_count (g_state w)"
    "s_peak_bytes (g_state (upd_state (note r u) u)) = s_peak_bytes (g_state w)"
    unfolding s by (simp_all add: table_fields_def)
qed

lemma remove_books:
  assumes b: "books w S H" and p: "p \<noteq> NULL" and S: "S p = sz # rest"
    and t: "table_fields (g_state v) = table_fields (g_state w)" "g_entries v = g_entries w"
    and c: "s_current_bytes (g_state v) = s_current_bytes (g_state w) - sz"
      "s_free_count (g_state v) = s_free_count (g_state w) + 1"
      "s_alloc_count (g_state v) = s_alloc_count (g_state w)" "s_peak_bytes (g_state v) = s_peak_bytes (g_state w)"
  shows "books (mtt_entry_remove X p v) (pop p S) H"
proof -
  let ?v = "mtt_entry_remove X p v"
  have tv: "tracked v S H" using tracked_fields [OF t] books_tracked [OF b] by simp
  note tr = tracked_remove [OF tv p, of X]
  note f = table_only_fields [OF conjunct1 [OF remove_tracked_step [OF tv p, of X]]]
  note w = b [unfolded books_def]
  have fin: "finite {p. S p \<noteq> []}" by (rule tracked_count(1) [OF tv])
  have pop: "live_bytes S = live_bytes (pop p S) + unat sz" "live_count S = Suc (live_count (pop p S))"
    using live_pop [OF fin S] S by simp_all
  have le: "sz \<le> s_current_bytes (g_state w)" using w pop(1) by (simp add: word_le_nat_alt)
  have "unat (s_current_bytes (g_state ?v)) = live_bytes (pop p S)"
    using w pop(1) le by (simp add: f c unat_sub)
  moreover have "s_entry_count (g_state ?v) = s_entry_count (g_state w) - 1"
    using tracked_count(2) [OF tr] tracked_count(2) [OF books_tracked [OF b]] pop(2) by simp
  then have "s_entry_count (g_state ?v) = s_alloc_count (g_state ?v) - s_free_count (g_state ?v)"
    using w by (simp add: f c)
  moreover have "s_current_bytes (g_state ?v) \<le> s_peak_bytes (g_state ?v)"
    using w le by (simp add: f c) (meson order_trans word_sub_le)
  moreover have "0 \<notin> set (pop p S q)" for q
    using w by (metis fun_upd_apply list.sel(2) list.set_sel(2))
  ultimately show ?thesis using tr by (simp add: books_def)
qed

text \<open>A pointer with a record loses the newest one; any other pointer changes nothing.\<close>

lemma untrack_books:
  assumes b: "books w S H" and p: "p \<noteq> NULL" and fn: "exact_forget forget" "lifetime_note note"
    and l: "locks_free w"
  shows "books (untrack X forget note p w) (pop p S) H \<and> keeps w (untrack X forget note p w)"
proof -
  let ?v = "mtt_stripe_lock p w"
  have bv: "books ?v S H" using b by simp
  note tv = books_tracked [OF bv]
  obtain e v' where f: "mtt_entry_find p ?v = (e, v')" by fastforce
  have v': "v' = ?v" and e0: "e = NULL \<longleftrightarrow> S p = []"
    and e1: "e \<noteq> NULL \<Longrightarrow> S p = e_size (g_entries ?v e) # tl (S p)"
    using tracked_find [OF tv p f] by blast+
  show ?thesis
  proof (cases "e = NULL")
    case True
    then have "pop p S = S" using e0 by (simp add: fun_eq_iff)
    then show ?thesis using b stripe_keeps [OF keeps_refl l] True f v' by (simp add: untrack_def)
  next
    case False
    let ?r = "g_entries ?v e"
    define v1 where "v1 = upd_state (\<lambda>s. s\<lparr>s_free_count := s_free_count s + 1\<rparr>) (upd_state (forget (e_size ?r)) ?v)"
    define v2 where "v2 = upd_state (note ?r v1) v1"
    have eq: "untrack X forget note p w = mtt_stripe_unlock p (mtt_entry_remove X p v2)"
      using False f v' by (simp add: untrack_def Let_def v2_def v1_def comp_assoc)
    have S: "S p = e_size ?r # tl (S p)" using e1 [OF False] .
    have "0 \<notin> set (S p)" using b by (simp add: books_def)
    with S have nz: "0 < e_size ?r" by (metis list.set_intros(1) word_neq_0_conv)
    have "live_bytes S = live_bytes (pop p S) + unat (e_size ?r)"
      by (rule live_pop(1) [OF tracked_count(1) [OF tv] S])
    then have le: "e_size ?r \<le> s_current_bytes (g_state ?v)"
      using bv by (simp add: books_def word_le_nat_alt)
    note us = untrack_state [OF fn nz le, of ?r, folded v1_def, folded v2_def]
    have "books (mtt_entry_remove X p v2) (pop p S) H"
      by (rule remove_books [OF bv p S us(3,2,4-7)])
    moreover have "tracked v2 S H" using tracked_fields [OF us(3,2)] tv by simp
    then have "keeps ?v (mtt_entry_remove X p v2)"
      using remove_tracked_step [OF _ p] keeps_trans [OF us(1)] by blast
    then have "keeps w (untrack X forget note p w)" unfolding eq by (rule stripe_keeps [OF _ l])
    ultimately show ?thesis by (simp add: eq)
  qed
qed

text \<open>A record that a caller holds keeps its address and size meanwhile.\<close>

lemma untrack_held:
  assumes b: "books w S H" and p: "p \<noteq> NULL" and e: "e \<in> H" and l: "locks_free w"
  shows "e_ptr (g_entries (untrack X forget_bytes no_note p w) e) = e_ptr (g_entries w e) \<and>
    e_size (g_entries (untrack X forget_bytes no_note p w) e) = e_size (g_entries w e)"
proof -
  have rm: "e_ptr (g_entries (mtt_entry_remove X p v) e) = e_ptr (g_entries w e) \<and>
      e_size (g_entries (mtt_entry_remove X p v) e) = e_size (g_entries w e)"
    if tv: "tracked v S H" "g_entries v = g_entries w" for v :: "'a world"
  proof -
    obtain R where r: "recs v R H" using tv(1) unfolding tracked_def by blast
    have "e \<notin> set (take 1 (R p))" using recs_held_notin [OF r e] in_set_takeD by fastforce
    then show ?thesis using entry_remove_step [OF r p, of X] that(2) by (simp add: table_step_def same_sizes_def)
  qed
  let ?v = "mtt_stripe_lock p w"
  obtain a v' where f: "mtt_entry_find p ?v = (a, v')" by fastforce
  have tv: "tracked ?v S H" using books_tracked [of ?v S H] b by simp
  then have v': "v' = ?v" using tracked_find [OF _ p f] by blast
  define v2 where "v2 = upd_state (no_note (g_entries ?v a) ?v)
      (upd_state (\<lambda>s. s\<lparr>s_free_count := s_free_count s + 1\<rparr>) (upd_state (forget_bytes (e_size (g_entries ?v a))) ?v))"
  have eq: "untrack X forget_bytes no_note p w =
      mtt_stripe_unlock p (if a \<noteq> NULL then mtt_entry_remove X p v2 else ?v)"
    using f v' by (simp add: untrack_def Let_def v2_def no_note_def comp_def)
  have "tracked v2 S H" using tracked_fields [of v2 ?v] tv
    by (simp add: v2_def table_fields_def forget_bytes_def no_note_def)
  then show ?thesis using rm [of v2] by (simp add: eq v2_def)
qed

section \<open>Blocks that appear, disappear and move\<close>

text \<open>Calls of the C library leave the tracker alone.\<close>

lemma call_malloc_books:
  assumes "call_malloc X n w = (q, w')"
  shows "books w' S H = books w S H" "keeps w w'" "g_entries w' = g_entries w" "g_state w' = g_state w"
proof -
  show e: "g_entries w' = g_entries w" "g_state w' = g_state w"
    using assms by (auto simp: call_malloc_def bootstrap_malloc_def Let_def split: fnptr.splits prod.splits if_splits)
  show "books w' S H = books w S H" by (rule books_same) (simp_all add: e same_books_def)
  show "keeps w w'" by (rule table_step_keeps [OF call_malloc_step [OF assms]])
qed

lemma call_free_books:
  "books (call_free X p w) S H = books w S H" "keeps w (call_free X p w)"
proof -
  show "books (call_free X p w) S H = books w S H"
    by (rule books_same) (auto simp: call_free_def bootstrap_free_def same_books_def split: fnptr.splits)
  show "keeps w (call_free X p w)" by (rule table_step_keeps [OF call_free_step])
qed

lemma call_realloc_frame:
  assumes "call_realloc X p n w = (q, w')"
  shows "g_entries w' = g_entries w" "g_state w' = g_state w" "raw_malloc w' = raw_malloc w"
    "raw_free w' = raw_free w" "raw_calloc w' = raw_calloc w" "raw_realloc w' = raw_realloc w" "env_of w' = env_of w"
  using assms
  by (auto simp: call_realloc_def bootstrap_realloc_def bootstrap_malloc_def bootstrap_free_def env_of_def Let_def
      split: fnptr.splits prod.splits if_splits)

lemma call_realloc_books:
  assumes "call_realloc X p n w = (q, w')"
  shows "books w' S H = books w S H" "keeps w w'"
  using call_realloc_frame [OF assms] books_same [of w w'] by (simp_all add: same_books_def keeps_def)

lemma mem_books [simp]: "books (w\<lparr>g_mem := m\<rparr>) S H = books w S H"
  by (rule books_same) (simp_all add: same_books_def)

lemma sampling_frame:
  assumes "mtt_should_track sz s = (b, s')"
  shows "same_books s s' \<and> s_initialized s' = s_initialized s \<and> s_disabled s' = s_disabled s \<and>
    s_startup_until s' = s_startup_until s \<and> s_bucket_locks s' = s_bucket_locks s \<and>
    s_pool_raw_size s' = s_pool_raw_size s"
  using assms
  by (auto simp: mtt_should_track_def same_books_def table_fields_def Let_def split: if_splits)

lemma capacity_frame:
  assumes "mtt_is_over_capacity s = (b, s')"
  shows "same_books s s' \<and> s_initialized s' = s_initialized s \<and> s_disabled s' = s_disabled s \<and>
    s_startup_until s' = s_startup_until s \<and> s_bucket_locks s' = s_bucket_locks s \<and>
    s_pool_raw_size s' = s_pool_raw_size s"
  using assms by (auto simp: mtt_is_over_capacity_def same_books_def table_fields_def split: if_splits)

text \<open>A world that differs in such counters only.\<close>

lemma counter_books:
  assumes "same_books (g_state w) s \<and> s_initialized s = s_initialized (g_state w) \<and>
      s_disabled s = s_disabled (g_state w) \<and> s_startup_until s = s_startup_until (g_state w) \<and>
      s_bucket_locks s = s_bucket_locks (g_state w) \<and> s_pool_raw_size s = s_pool_raw_size (g_state w)"
  shows "books (w\<lparr>g_state := s\<rparr>) S H = books w S H" "keeps w (w\<lparr>g_state := s\<rparr>)"
  using assms books_same [of w "w\<lparr>g_state := s\<rparr>"]
  by (simp_all add: keeps_def) (simp add: same_books_def table_fields_def)

lemma live_pop_le: "finite {p. S p \<noteq> []} \<Longrightarrow> live_bytes (pop p S) \<le> live_bytes S"
  by (cases "S p") (simp_all add: live_pop(1) fun_upd_idem)

text \<open>A new block is recorded with its size, or not recorded at all.\<close>

lemma track_block_books:
  assumes "books w S {}" "s_pool (g_state w) \<noteq> NULL" "locks_free w" "sz \<noteq> 0" "live_bytes S + unat sz < 2 ^ 64"
    and w': "w' = track_block X tid always p sz w"
  shows "\<exists>S'. books w' S' {} \<and> (S' = S \<or> S' = push p sz S) \<and> keeps w w'"
proof -
  obtain e v where n: "mtt_entry_new X tid p sz w = (e, v)" by fastforce
  note nb = new_books [OF assms(1,2) n]
  show ?thesis
  proof (cases "e = NULL")
    case True
    then show ?thesis using nb n by (auto simp: w' track_block_def)
  next
    case False
    have v: "books v S {e}" "e_ptr (g_entries v e) = p" "e_size (g_entries v e) = sz" using nb(3) [OF False] by simp_all
    have l: "locks_free v" by (rule locks_free_keeps [OF nb(1) assms(3)])
    have "w' = insert_entry X always p sz e v" using n False by (simp add: w' track_block_def)
    with insert_entry_books [OF v(1) _ v(2,3) assms(4,5) l, of X always] keeps_trans [OF nb(1)] show ?thesis
      by (auto split: if_splits)
  qed
qed

lemma retrack_books:
  assumes "books w S {}" "s_pool (g_state w) \<noteq> NULL" "locks_free w" "sz \<noteq> 0" "live_bytes S + unat sz < 2 ^ 64"
    and w': "w' = retrack X tid always q sz w"
  shows "\<exists>S'. books w' S' {} \<and> (S' = S \<or> S' = push q sz S) \<and> keeps w w'"
proof -
  obtain oc s where c: "mtt_is_over_capacity (g_state w) = (oc, s)" by fastforce
  define u where "u = w\<lparr>g_state := s\<rparr>"
  have u: "books u S {}" "keeps w u" using counter_books [OF capacity_frame [OF c]] assms(1) by (simp_all add: u_def)
  have up: "s_pool (g_state u) \<noteq> NULL" using u(2) assms(2) by (simp add: keeps_def)
  obtain e v where n: "mtt_entry_new X tid q sz u = (e, v)" by fastforce
  note nb = new_books [OF u(1) up n]
  have eq: "w' = (if oc then u else if e = NULL then v else insert_moved X always q sz e v)"
    using c n by (simp add: w' retrack_def u_def)
  show ?thesis
  proof (cases "oc \<or> e = NULL")
    case True
    then show ?thesis using eq u nb keeps_trans [OF u(2)] by (cases oc) auto
  next
    case False
    have v: "books v S {e}" "e_ptr (g_entries v e) = q" "e_size (g_entries v e) = sz"
      using nb(3) False by simp_all
    have kv: "keeps w v" by (rule keeps_trans [OF u(2) nb(1)])
    have l: "locks_free v" by (rule locks_free_keeps [OF kv assms(3)])
    from insert_moved_books [OF v(1) _ v(2,3) assms(4,5) l, of X always] keeps_trans [OF kv] show ?thesis
      using eq False by (auto split: if_splits)
  qed
qed

text \<open>The view after a block of address \<open>p\<close> has been reallocated to \<open>q\<close>.\<close>

definition moved :: "ptr \<Rightarrow> ptr \<Rightarrow> size_t \<Rightarrow> (ptr \<Rightarrow> size_t list) \<Rightarrow> (ptr \<Rightarrow> size_t list) \<Rightarrow> bool" where
  "moved p q sz S S' \<longleftrightarrow> S' = pop p S \<or> S' = push q sz (pop p S)"

text \<open>
  A failed \<open>realloc\<close> changes nothing; a block that was not on the books stays off; a block
  that was is taken off at its old address and, if there is room, on at the new one.
\<close>

lemma realloc_raw_books:
  assumes "books w S {}" "s_pool (g_state w) \<noteq> NULL" "locks_free w" "p \<noteq> NULL" "sz \<noteq> 0"
    and "live_bytes S + unat sz < 2 ^ 64" "exact_forget forget"
    and r: "realloc_raw X tid forget always p sz w = (q, w')"
  shows "keeps w w' \<and> (\<exists>S'. books w' S' {} \<and>
      (if q = NULL \<or> S p = [] then S' = S else moved p q sz S S'))"
proof -
  let ?v = "mtt_stripe_lock p w"
  have bv: "books ?v S {}" using assms(1) by simp
  obtain e v' where f: "mtt_entry_find p ?v = (e, v')" by fastforce
  have v': "v' = ?v" and e: "e = NULL \<longleftrightarrow> S p = []" using tracked_find [OF books_tracked [OF bv] assms(4) f] by blast+
  define u where "u = mtt_stripe_unlock p ?v"
  have ku: "keeps w u" unfolding u_def by (rule stripe_keeps [OF keeps_refl assms(3)])
  have bu: "books u S {}" using assms(1) by (simp add: u_def)
  obtain q' x where c: "call_realloc X p sz u = (q', x)" by fastforce
  have kx: "keeps w x" and bx: "books x S {}"
    using call_realloc_books [OF c] keeps_trans [OF ku] bu by blast+
  have lx: "locks_free x" by (rule locks_free_keeps [OF kx assms(3)])
  define y where "y = untrack X forget no_note p x"
  have eq: "q = q'" "w' = (if q' = NULL \<or> e = NULL then x else retrack X tid always q' sz y)"
    using r by (auto simp: realloc_raw_def Let_def f v' c y_def u_def [symmetric] split: if_splits)
  show ?thesis
  proof (cases "q' = NULL \<or> e = NULL")
    case True
    then show ?thesis using eq bx kx e by auto
  next
    case False
    have y: "books y (pop p S) {}" "keeps w y"
      using untrack_books [OF bx assms(4,7) lifetime_notes(1) lx, of X] keeps_trans [OF kx] by (auto simp: y_def)
    have py: "s_pool (g_state y) \<noteq> NULL" using y(2) assms(2) by (simp add: keeps_def)
    have "live_bytes (pop p S) \<le> live_bytes S" by (rule live_pop_le [OF tracked_count(1) [OF books_tracked [OF bx]]])
    then have lb: "live_bytes (pop p S) + unat sz < 2 ^ 64" using assms(6) by simp
    from retrack_books [OF y(1) py locks_free_keeps [OF y(2) assms(3)] assms(5) lb refl, of X tid always q']
    show ?thesis using eq False e keeps_trans [OF y(2)] by (auto simp: moved_def)
  qed
qed

text \<open>The fallback records the new block in any case.\<close>

lemma realloc_copy_books:
  assumes "books w S {}" "s_pool (g_state w) \<noteq> NULL" "locks_free w" "p \<noteq> NULL" "sz \<noteq> 0"
    and "live_bytes S + unat sz < 2 ^ 64"
    and r: "realloc_copy X tid always p sz w = (q, w')"
  shows "keeps w w' \<and> (\<exists>S'. books w' S' {} \<and> (if q = NULL then S' = S else moved p q sz S S'))"
proof -
  obtain q1 w1 where m: "call_malloc X sz w = (q1, w1)" by fastforce
  have b1: "books w1 S {}" and k1: "keeps w w1" using call_malloc_books [OF m] assms(1) by simp_all
  have p1: "s_pool (g_state w1) \<noteq> NULL" using k1 assms(2) by (simp add: keeps_def)
  obtain e w2 where n: "mtt_entry_new X tid q1 sz w1 = (e, w2)" by fastforce
  note nb = new_books [OF b1 p1 n]
  have k2: "keeps w w2" by (rule keeps_trans [OF k1 nb(1)])
  consider "q1 = NULL" | "q1 \<noteq> NULL" "e = NULL" | "q1 \<noteq> NULL" "e \<noteq> NULL" by blast
  then show ?thesis
  proof cases
    case 1
    then show ?thesis using r m b1 k1 by (auto simp: realloc_copy_def)
  next
    case 2
    then have "q = NULL" "w' = call_free X q1 w2" using r m n by (auto simp: realloc_copy_def)
    then show ?thesis using nb(2) [OF 2(2)] k2 call_free_books [where X = X and p = q1 and w = w2] keeps_trans [OF k2] by auto
  next
    case 3
    have v: "books w2 S {e}" "e_ptr (g_entries w2 e) = q1" "e_size (g_entries w2 e) = sz"
      using nb(3) [OF 3(2)] by simp_all
    define w3 where "w3 = untrack X forget_bytes no_note p w2"
    have l2: "locks_free w2" by (rule locks_free_keeps [OF k2 assms(3)])
    have b3: "books w3 (pop p S) {e}" and k3: "keeps w w3"
      using untrack_books [OF v(1) assms(4) exact_forgets(1) lifetime_notes(1) l2, of X] keeps_trans [OF k2]
      by (auto simp: w3_def)
    have f3: "e_ptr (g_entries w3 e) = q1" "e_size (g_entries w3 e) = sz"
      using untrack_held [OF v(1) assms(4) _ l2] v(2,3) by (simp_all add: w3_def)
    obtain w4 where w4: "w4 = w3 \<or> (\<exists>m'. w4 = w3\<lparr>g_mem := m'\<rparr>)"
      and eq: "q = q1" "w' = call_free X p (insert_entry X always q1 sz e w4)"
      using r m n 3 by (auto simp: realloc_copy_def Let_def w3_def split: prod.splits if_splits)
    have b4: "books w4 (pop p S) {e}" "keeps w w4" using b3 k3 keeps_trans [OF k3] w4 by auto
    have f4: "e_ptr (g_entries w4 e) = q1" "e_size (g_entries w4 e) = sz" using f3 w4 by auto
    have "live_bytes (pop p S) \<le> live_bytes S" by (rule live_pop_le [OF tracked_count(1) [OF books_tracked [OF b1]]])
    then have lb: "live_bytes (pop p S) + unat sz < 2 ^ 64" using assms(6) by simp
    have i: "books (insert_entry X always q1 sz e w4)
        (if MTT_MAX_ENTRIES \<le> s_entry_count (g_state w4) then pop p S else push q1 sz (pop p S)) {}"
      "keeps w4 (insert_entry X always q1 sz e w4)"
      using insert_entry_books [OF b4(1) _ f4 assms(5) lb locks_free_keeps [OF b4(2) assms(3)], of X always] by auto
    have "keeps w w'" unfolding eq by (rule keeps_trans [OF keeps_trans [OF b4(2) i(2)] call_free_books(2)])
    moreover have "\<exists>S'. books w' S' {} \<and> moved p q sz S S'"
      by (rule exI, rule conjI, unfold eq call_free_books(1), rule i(1)) (simp add: moved_def)
    ultimately show ?thesis using 3 eq by simp
  qed
qed

section \<open>The pool over time\<close>

text \<open>
  Everything the callers do with the table, in any order: records are created, added, removed and given
  back. \<open>H\<close> is the set of records in the hands of callers.
\<close>

inductive table_run :: "'l ext \<Rightarrow> 'l world \<times> ptr set \<Rightarrow> 'l world \<times> ptr set \<Rightarrow> bool" for X where
  run_start: "table_run X c c"
| run_new: "table_run X c (w, H) \<Longrightarrow> mtt_entry_new X tid p sz w = (e, w') \<Longrightarrow>
    table_run X c (w', if e = NULL then H else insert e H)"
| run_add: "table_run X c (w, H) \<Longrightarrow> e \<in> H \<Longrightarrow> table_run X c (mtt_entry_add e w, H - {e})"
| run_remove: "table_run X c (w, H) \<Longrightarrow> p \<noteq> NULL \<Longrightarrow> table_run X c (mtt_entry_remove X p w, H)"
| run_discard: "table_run X c (w, H) \<Longrightarrow> e \<in> H \<Longrightarrow> table_run X c (mtt_entry_discard X e w, H - {e})"

lemma pool_step_fields:
  "table_step A w w' \<Longrightarrow> s_pool (g_state w') = s_pool (g_state w) \<and> s_pool_capacity (g_state w') = s_pool_capacity (g_state w)"
  by (simp add: table_step_def table_only_fields)

lemma table_run_recs:
  assumes "table_run X c d" "\<exists>R. recs (fst c) R (snd c)" "s_pool (g_state (fst c)) \<noteq> NULL"
  shows "(\<exists>R. recs (fst d) R (snd d)) \<and> s_pool (g_state (fst d)) = s_pool (g_state (fst c)) \<and>
    s_pool_capacity (g_state (fst d)) = s_pool_capacity (g_state (fst c))"
  using assms
proof (induction rule: table_run.induct)
  case (run_new c w H tid p sz e w')
  then obtain R where r: "recs w R H" and k: "s_pool (g_state w) = s_pool (g_state (fst c))"
    "s_pool_capacity (g_state w) = s_pool_capacity (g_state (fst c))" by auto
  have "s_pool (g_state w) \<noteq> NULL" using k(1) run_new.prems(2) by simp
  from recs_new [OF r this run_new.hyps(2)] have "\<exists>R. recs w' R (if e = NULL then H else insert e H)" by auto
  then show ?case using k pool_step_fields [OF entry_new_step [OF run_new.hyps(2)]] by simp
next
  case (run_add c w H e)
  then obtain R where r: "recs w R H" by auto
  show ?case
    using run_add entry_table.add_law [OF r run_add.hyps(2) refl] pool_step_fields [OF entry_add_step [of w e]] by auto
next
  case (run_remove c w H p)
  then obtain R where r: "recs w R H" by auto
  show ?case
    using run_remove entry_table.remove_law [OF r run_remove.hyps(2), of X]
      pool_step_fields [OF entry_remove_step [OF r run_remove.hyps(2), of X]] by auto
next
  case (run_discard c w H e)
  then obtain R where r: "recs w R H" by auto
  show ?case
    using run_discard recs_discard [OF r run_discard.hyps(2), of X] pool_step_fields [OF entry_discard_step [of e w X]] by auto
qed simp

text \<open>C10. The pool loses no record: from a consistent table with a pool, whatever records callers create,
  add to the table, remove and give back, in any order, afterwards the number of records in use is the
  number of table entries plus the number of records in the hands of callers, and with the records on
  the free lists they are exactly the capacity of the pool.\<close>

theorem pool_conserved:
  assumes "recs w R H" "s_pool (g_state w) \<noteq> NULL"
    and "unat (s_pool_capacity (g_state w)) * unat sizeof_mtt_entry \<le> 2 ^ 64"
    and "table_run X (w, H) (w', H')"
  shows "\<exists>bs fs. table_inv w' bs fs H' \<and>
     unat (s_pool_used (g_state w')) = unat (s_entry_count (g_state w')) + card H' \<and>
     unat (s_pool_used (g_state w')) + card (nodes fs) = unat (s_pool_capacity (g_state w))"
proof -
  have "\<exists>R. recs (fst (w, H)) R (snd (w, H))" using assms(1) by auto
  from table_run_recs [OF assms(4) this] assms(2) obtain R' where r: "recs w' R' H'"
    and k: "s_pool (g_state w') \<noteq> NULL" "s_pool_capacity (g_state w') = s_pool_capacity (g_state w)" by auto
  obtain bs fs where t: "table_inv w' bs fs H'" using r by (auto simp: recs_def)
  have cap: "unat (s_pool_capacity (g_state w')) * 560 \<le> 2 ^ 64" using assms(3) k(2) by (simp add: sizeof_mtt_entry_def)
  note pp = pool_partition [OF t k(1) cap]
  have "unat (s_pool_capacity (g_state w')) < 2 ^ LENGTH(64)" by (rule unsigned_less)
  then have "card (nodes bs) < 2 ^ 64" using pp by simp
  moreover have "s_entry_count (g_state w') = of_nat (card (nodes bs))" using t by (simp add: table_inv_def counts_inv_def)
  ultimately have "unat (s_entry_count (g_state w')) = card (nodes bs)" by (simp only: unat_of_nat) simp
  then show ?thesis using t pp k(2) by (intro exI [of _ bs] exI [of _ fs]) simp
qed

lemma pool_world_recs: "recs pool_world (\<lambda>_. []) {}"
proof -
  have "records pool_world (\<lambda>_. []) = (\<lambda>_. [])" by (simp add: records_def fun_eq_iff)
  moreover have "pool_unlocked pool_world" by (simp add: pool_unlocked_def pool_world_def zero_state_def)
  ultimately show ?thesis using pool_world_inv unfolding recs_def by metis
qed

theorem pool_conserved_witness:
  "\<exists>e w' fs. mtt_entry_new demo_ext 7 0x20 24 pool_world = (e, w') \<and> e \<noteq> NULL \<and>
     unat (s_pool_used (g_state (mtt_entry_add e w'))) + card (nodes fs) = 2"
proof -
  obtain e w' where n: "mtt_entry_new demo_ext 7 0x20 24 pool_world = (e, w')" by fastforce
  have "nodes ((\<lambda>_. [])(0 := [0x1000, 0x1230])) \<noteq> ({} :: ptr set)" by (auto simp: nodes_def)
  then have e: "e \<noteq> NULL"
    using entry_new_NULL_iff [OF pool_world_inv _ _ n] by (simp add: pool_unlocked_def pool_world_def zero_state_def)
  have "table_run demo_ext (pool_world, {}) (w', {e})" using run_new [OF run_start n] e by simp
  then have "table_run demo_ext (pool_world, {}) (mtt_entry_add e w', {e} - {e})" by (rule run_add) simp
  from pool_conserved [OF pool_world_recs _ _ this] e n show ?thesis
    by (auto simp: pool_world_def zero_state_def sizeof_mtt_entry_def)
qed

end
