(* ===== verification/Tracker_Api.thy ===== *)
theory Tracker_Api
  imports Tracking
begin

text \<open>
  The public interface of \<^verbatim>\<open>tracker.c\<close> (macro mode): allocation functions that record what
  they hand out, and the statistics queries. \<open>tid\<close> is the calling thread.
\<close>

section \<open>Definitions\<close>

text \<open>\<open>count > 0 && size > SIZE_MAX / count\<close>.\<close>

definition mul_overflows :: "size_t \<Rightarrow> size_t \<Rightarrow> bool" where
  "mul_overflows count sz \<longleftrightarrow> count > 0 \<and> sz > SIZE_MAX div count"

text \<open>The interface tests the capacity only for a block that the sampling selects.\<close>

definition api_decision :: "size_t \<Rightarrow> mtt_state \<Rightarrow> bool \<times> mtt_state" where
  "api_decision sz s =
     (let (track_ok, s) = mtt_should_track sz s
      in if \<not> track_ok then (False, s)
         else let (over_cap, s) = mtt_is_over_capacity s in (\<not> over_cap, s))"

definition mtt_malloc :: "'l ext \<Rightarrow> int \<Rightarrow> size_t \<Rightarrow> 'l world \<Rightarrow> ptr \<times> 'l world" where
  "mtt_malloc X tid sz w =
     (let w = mtt_resolve_raw_allocators X tid w
      in if raw_malloc w = F_NULL then (NULL, w)
         else if sz = 0 then call_malloc X 0 w
         else
           let w = mtt_ensure_init X tid w
           in if s_disabled (g_state w) then call_malloc X sz w
              else if mtt_is_startup_phase w then call_malloc X sz w
              else
                let (p, w) = call_malloc X sz w
                in if p = NULL then (NULL, w)
                   else
                     let (track, s) = api_decision sz (g_state w);
                         w = w\<lparr>g_state := s\<rparr>
                     in if \<not> track then (p, w) else (p, track_block X tid True p sz w))"

definition mtt_free :: "'l ext \<Rightarrow> int \<Rightarrow> ptr \<Rightarrow> 'l world \<Rightarrow> 'l world" where
  "mtt_free X tid p w =
     (if p = NULL then w
      else
        let w = mtt_resolve_raw_allocators X tid w
        in if raw_free w = F_NULL then w
           else
             let w = mtt_ensure_init X tid w
             in if s_disabled (g_state w) then call_free X p w
                else call_free X p (untrack X forget_bytes no_note p w))"

definition mtt_calloc :: "'l ext \<Rightarrow> int \<Rightarrow> size_t \<Rightarrow> size_t \<Rightarrow> 'l world \<Rightarrow> ptr \<times> 'l world" where
  "mtt_calloc X tid count sz w =
     (if mul_overflows count sz then (NULL, w)
      else
        let total = count * sz;
            (p, w) = mtt_malloc X tid total w
        in (p, if p \<noteq> NULL then w\<lparr>g_mem := memset p 0 total (g_mem w)\<rparr> else w))"

definition mtt_realloc :: "'l ext \<Rightarrow> int \<Rightarrow> ptr \<Rightarrow> size_t \<Rightarrow> 'l world \<Rightarrow> ptr \<times> 'l world" where
  "mtt_realloc X tid p sz w =
     (if p = NULL then mtt_malloc X tid sz w
      else if sz = 0 then (NULL, mtt_free X tid p w)
      else
        let w = mtt_resolve_raw_allocators X tid w
        in if raw_malloc w = F_NULL then (NULL, w)
           else
             let w = mtt_ensure_init X tid w
             in if s_disabled (g_state w) then
                  if raw_realloc w \<noteq> F_NULL then call_realloc X p sz w
                  else
                    let (new_ptr, w) = call_malloc X sz w
                    in if new_ptr = NULL then (NULL, w) else (new_ptr, call_free X p w)
                else if raw_realloc w \<noteq> F_NULL then realloc_raw X tid forget_bytes True p sz w
                else realloc_copy X tid True p sz w)"

definition mtt_get_alloc_count :: "'l world \<Rightarrow> size_t" where
  "mtt_get_alloc_count w = s_alloc_count (g_state w)"

definition mtt_get_free_count :: "'l world \<Rightarrow> size_t" where
  "mtt_get_free_count w = s_free_count (g_state w)"

definition mtt_get_leak_count :: "'l world \<Rightarrow> size_t" where
  "mtt_get_leak_count w =
     (let a = s_alloc_count (g_state w); f = s_free_count (g_state w)
      in if a > f then a - f else 0)"

definition mtt_get_current_usage :: "'l world \<Rightarrow> size_t" where
  "mtt_get_current_usage w = s_current_bytes (g_state w)"

definition mtt_get_peak_usage :: "'l world \<Rightarrow> size_t" where
  "mtt_get_peak_usage w = s_peak_bytes (g_state w)"

definition mtt_get_total_allocated :: "'l world \<Rightarrow> size_t" where
  "mtt_get_total_allocated w = s_total_bytes (g_state w)"

section \<open>A tracker in operation\<close>

text \<open>
  Initialised, with a pool of records, the real allocators resolved, no stripe lock held,
  and the books in order for the view \<open>S\<close>. \<open>k\<close> are the allocator pointers and the pool, which
  no call changes.
\<close>

datatype tracer_setup = Setup fnptr fnptr fnptr fnptr ptr size_t

definition setup_of :: "'l world \<Rightarrow> tracer_setup" where
  "setup_of w = Setup (raw_malloc w) (raw_free w) (raw_calloc w) (raw_realloc w)
     (s_pool (g_state w)) (s_pool_raw_size (g_state w))"

definition running :: "tracer_setup \<Rightarrow> 'l world \<Rightarrow> (ptr \<Rightarrow> size_t list) \<Rightarrow> bool" where
  "running k w S \<longleftrightarrow>
     books w S {} \<and> s_pool (g_state w) \<noteq> NULL \<and> s_initialized (g_state w) \<and> locks_free w \<and> g_raw_ready w \<and>
     setup_of w = k"

lemma running_keeps: "running k w S \<Longrightarrow> keeps w w' \<Longrightarrow> books w' S' {} \<Longrightarrow> running k w' S'"
  by (simp add: running_def keeps_def locks_free_def env_of_def setup_of_def)

lemma running_books: "running k w S \<Longrightarrow> books w S {}"
  by (simp add: running_def)

lemma running_finite: "running k w S \<Longrightarrow> finite {p. S p \<noteq> []}"
  using tracked_count(1) [OF books_tracked [OF running_books]] .

text \<open>Steps that the books do not see.\<close>

definition quiet :: "'l world \<Rightarrow> 'l world \<Rightarrow> bool" where
  "quiet w w' \<longleftrightarrow>
     g_state w' = g_state w \<and> g_entries w' = g_entries w \<and> g_ext w' = g_ext w \<and> g_mem w' = g_mem w \<and> keeps w w' \<and>
     (g_hung w', g_unwind_mutex w', g_in_unwind_call w') = (g_hung w, g_unwind_mutex w, g_in_unwind_call w)"

lemma quiet_refl [simp]: "quiet w w"
  by (simp add: quiet_def)

lemma quiet_trans: "quiet u v \<Longrightarrow> quiet v w \<Longrightarrow> quiet u w"
  by (auto simp: quiet_def intro: keeps_trans)

lemma quiet_books: "quiet w w' \<Longrightarrow> books w' S H = books w S H"
  by (rule books_same) (simp_all add: quiet_def same_books_def)

lemma quiet_running: "quiet w w' \<Longrightarrow> running k w S \<Longrightarrow> running k w' S"
  by (metis quiet_books quiet_def running_books running_keeps)

lemma quiet_upd [simp]:
  "quiet w (upd_slot i f w)" "quiet w (w\<lparr>g_first_diag := d\<rparr>)"
  "quiet w (w\<lparr>g_debug_level := l, g_sigpipe_ignored := b\<rparr>)"
  "quiet w (w\<lparr>g_tls_ctx := c, g_tls_cached_tid := t\<rparr>)"
  by (simp_all add: quiet_def keeps_def env_of_def) (simp add: upd_slot_def)

lemma ensure_init_quiet: "running k w S \<Longrightarrow> quiet w (mtt_ensure_init X tid w)"
  by (simp add: running_def mtt_ensure_init_def)

lemma resolve_running [simp]: "running k w S \<Longrightarrow> mtt_resolve_raw_allocators X tid w = w"
  by (simp add: running_def)

lemma call_malloc_running:
  "running k w S \<Longrightarrow> call_malloc X n w = (p, w') \<Longrightarrow> running k w' S"
  using call_malloc_books running_keeps running_books by metis

lemma call_free_running: "running k w S \<Longrightarrow> running k (call_free X p w) S"
  using call_free_books running_keeps running_books by metis

lemma call_realloc_running:
  "running k w S \<Longrightarrow> call_realloc X p n w = (q, w') \<Longrightarrow> running k w' S"
  using call_realloc_books running_keeps running_books by metis

lemma mem_running: "running k w S \<Longrightarrow> running k (w\<lparr>g_mem := m\<rparr>) S"
  using running_keeps [of k w S "w\<lparr>g_mem := m\<rparr>"] running_books [of k w S] by simp

section \<open>What a call may do to the view\<close>

text \<open>A new block is recorded or not; a released block is forgotten or not.\<close>

definition grew :: "ptr \<Rightarrow> size_t \<Rightarrow> (ptr \<Rightarrow> size_t list) \<Rightarrow> (ptr \<Rightarrow> size_t list) \<Rightarrow> bool" where
  "grew p sz S S' \<longleftrightarrow> S' = S \<or> p \<noteq> NULL \<and> sz \<noteq> 0 \<and> S' = push p sz S"

definition shrank :: "ptr \<Rightarrow> (ptr \<Rightarrow> size_t list) \<Rightarrow> (ptr \<Rightarrow> size_t list) \<Rightarrow> bool" where
  "shrank p S S' \<longleftrightarrow> S' = S \<or> p \<noteq> NULL \<and> S' = pop p S"

definition reshaped ::
  "ptr \<Rightarrow> ptr \<Rightarrow> size_t \<Rightarrow> (ptr \<Rightarrow> size_t list) \<Rightarrow> (ptr \<Rightarrow> size_t list) \<Rightarrow> bool" where
  "reshaped p q sz S S' \<longleftrightarrow>
     (if p = NULL then grew q sz S S'
      else if sz = 0 then shrank p S S'
      else S' = S \<or> q \<noteq> NULL \<and> moved p q sz S S')"

lemma grew_self [simp]: "grew p sz S S" by (simp add: grew_def)

lemma grew_live:
  assumes "grew p sz S S'" "finite {p. S p \<noteq> []}"
  shows "live_bytes S' \<le> live_bytes S + unat sz"
  using assms live_push(1) [OF assms(2)] by (auto simp: grew_def)

lemma shrank_live:
  assumes "shrank p S S'" "finite {p. S p \<noteq> []}"
  shows "live_bytes S' \<le> live_bytes S"
  using assms live_pop_le [OF assms(2)] by (auto simp: shrank_def)

lemma reshaped_live:
  assumes "reshaped p q sz S S'" "finite {p. S p \<noteq> []}"
  shows "live_bytes S' \<le> live_bytes S + unat sz"
proof -
  define T where "T = pop p S"
  have f: "finite {x. T x \<noteq> []}" unfolding T_def
    by (rule finite_subset [OF _ assms(2)]) (auto split: if_splits)
  have "live_bytes T \<le> live_bytes S" unfolding T_def by (rule live_pop_le [OF assms(2)])
  then have "live_bytes S' \<le> live_bytes S + unat sz" if "moved p q sz S S'"
    using that live_push(1) [OF f] unfolding moved_def T_def [symmetric] by auto
  then show ?thesis
    using assms grew_live [OF _ assms(2)] shrank_live [OF _ assms(2)]
    by (auto simp: reshaped_def split: if_splits)
qed

lemma track_running:
  assumes "running k w S" "sz \<noteq> 0" "live_bytes S + unat sz < 2 ^ 64" "p \<noteq> NULL"
  shows "\<exists>S'. running k (track_block X tid always p sz w) S' \<and> grew p sz S S'"
proof -
  have "books w S {}" "s_pool (g_state w) \<noteq> NULL" "locks_free w" using assms(1) by (simp_all add: running_def)
  from track_block_books [OF this assms(2,3) refl] show ?thesis
    using running_keeps [OF assms(1)] assms(2,4) unfolding grew_def by metis
qed

lemma untrack_running:
  assumes "running k w S" "p \<noteq> NULL" "exact_forget forget" "lifetime_note note"
  shows "running k (untrack X forget note p w) (pop p S)"
proof -
  have "books w S {}" "locks_free w" using assms(1) by (simp_all add: running_def)
  from untrack_books [OF this(1) assms(2-4) this(2)] show ?thesis using running_keeps [OF assms(1)] by blast
qed

lemma realloc_raw_running:
  assumes "running k w S" "p \<noteq> NULL" "sz \<noteq> 0" "live_bytes S + unat sz < 2 ^ 64" "exact_forget forget"
    and "realloc_raw X tid forget always p sz w = (q, w')"
  shows "\<exists>S'. running k w' S' \<and> reshaped p q sz S S'"
proof -
  have "books w S {}" "s_pool (g_state w) \<noteq> NULL" "locks_free w" using assms(1) by (simp_all add: running_def)
  from realloc_raw_books [OF this assms(2-6)] show ?thesis
    using running_keeps [OF assms(1)] assms(2,3) unfolding reshaped_def by metis
qed

lemma realloc_copy_running:
  assumes "running k w S" "p \<noteq> NULL" "sz \<noteq> 0" "live_bytes S + unat sz < 2 ^ 64"
    and "realloc_copy X tid always p sz w = (q, w')"
  shows "\<exists>S'. running k w' S' \<and> reshaped p q sz S S'"
proof -
  have "books w S {}" "s_pool (g_state w) \<noteq> NULL" "locks_free w" using assms(1) by (simp_all add: running_def)
  from realloc_copy_books [OF this assms(2-5)] show ?thesis
    using running_keeps [OF assms(1)] assms(2,3) unfolding reshaped_def by metis
qed

lemma decision_running:
  assumes "running k w S"
  shows "api_decision sz (g_state w) = (b, s) \<Longrightarrow> running k (w\<lparr>g_state := s\<rparr>) S"
    "track_decision sz (g_state w) = (b, s) \<Longrightarrow> running k (w\<lparr>g_state := s\<rparr>) S"
proof -
  obtain t u where t: "mtt_should_track sz (g_state w) = (t, u)" by fastforce
  obtain c v where c: "mtt_is_over_capacity u = (c, v)" by fastforce
  have u: "running k (w\<lparr>g_state := u\<rparr>) S"
    using counter_books [OF sampling_frame [OF t]] running_keeps [OF assms] running_books [OF assms] by blast
  have c': "mtt_is_over_capacity (g_state (w\<lparr>g_state := u\<rparr>)) = (c, v)" using c by simp
  have "running k ((w\<lparr>g_state := u\<rparr>)\<lparr>g_state := v\<rparr>) S"
    using counter_books [OF capacity_frame [OF c']] running_keeps [OF u] running_books [OF u] by blast
  then have v: "running k (w\<lparr>g_state := v\<rparr>) S" by simp
  show "api_decision sz (g_state w) = (b, s) \<Longrightarrow> running k (w\<lparr>g_state := s\<rparr>) S"
    using u v by (auto simp: api_decision_def t c split: if_splits)
  show "track_decision sz (g_state w) = (b, s) \<Longrightarrow> running k (w\<lparr>g_state := s\<rparr>) S"
    using v by (auto simp: track_decision_def t c)
qed

section \<open>The contract of a traced allocator\<close>

text \<open>A call of one of the allocation functions, by a thread from a return address.\<close>

datatype heap_op =
    OP_malloc int ptr size_t
  | OP_calloc int ptr size_t size_t
  | OP_realloc int ptr ptr size_t
  | OP_free int ptr ptr

text \<open>The bytes a call asks for; a product that overflows is refused.\<close>

fun requested :: "heap_op \<Rightarrow> nat" where
  "requested (OP_malloc _ _ sz) = unat sz"
| "requested (OP_calloc _ _ n sz) = unat (n * sz)"
| "requested (OP_realloc _ _ _ sz) = unat sz"
| "requested (OP_free _ _ _) = 0"

text \<open>
  What a client of the traced heap relies on: each call leaves the tracker running, and
  changes the view by at most the block it was about.
\<close>

locale traced_allocator =
  fixes al :: "int \<Rightarrow> ptr \<Rightarrow> size_t \<Rightarrow> 'l world \<Rightarrow> ptr \<times> 'l world"
    and ca :: "int \<Rightarrow> ptr \<Rightarrow> size_t \<Rightarrow> size_t \<Rightarrow> 'l world \<Rightarrow> ptr \<times> 'l world"
    and re :: "int \<Rightarrow> ptr \<Rightarrow> ptr \<Rightarrow> size_t \<Rightarrow> 'l world \<Rightarrow> ptr \<times> 'l world"
    and fr :: "int \<Rightarrow> ptr \<Rightarrow> ptr \<Rightarrow> 'l world \<Rightarrow> 'l world"
  assumes al_law: "running k w S \<Longrightarrow> live_bytes S + unat sz < 2 ^ 64 \<Longrightarrow> al tid lr sz w = (p, w') \<Longrightarrow>
      \<exists>S'. running k w' S' \<and> grew p sz S S'"
    and ca_law: "running k w S \<Longrightarrow> live_bytes S + unat (n * sz) < 2 ^ 64 \<Longrightarrow> ca tid lr n sz w = (p, w') \<Longrightarrow>
      \<exists>S'. running k w' S' \<and> grew p (n * sz) S S'"
    and re_law: "running k w S \<Longrightarrow> live_bytes S + unat sz < 2 ^ 64 \<Longrightarrow> re tid lr p sz w = (q, w') \<Longrightarrow>
      \<exists>S'. running k w' S' \<and> reshaped p q sz S S'"
    and fr_law: "running k w S \<Longrightarrow> \<exists>S'. running k (fr tid lr p w) S' \<and> shrank p S S'"
begin

fun heap_step :: "heap_op \<Rightarrow> 'l world \<Rightarrow> 'l world" where
  "heap_step (OP_malloc tid lr sz) w = snd (al tid lr sz w)"
| "heap_step (OP_calloc tid lr n sz) w = snd (ca tid lr n sz w)"
| "heap_step (OP_realloc tid lr p sz) w = snd (re tid lr p sz w)"
| "heap_step (OP_free tid lr p) w = fr tid lr p w"

lemma step_running:
  assumes "running k w S" "live_bytes S + requested c < 2 ^ 64"
  shows "\<exists>S'. running k (heap_step c w) S' \<and> live_bytes S' \<le> live_bytes S + requested c"
proof (cases c)
  case (OP_malloc tid lr sz)
  obtain p w' where c: "al tid lr sz w = (p, w')" by fastforce
  show ?thesis using al_law [OF assms(1) _ c] grew_live [OF _ running_finite [OF assms(1)]] assms(2) c OP_malloc by fastforce
next
  case (OP_calloc tid lr n sz)
  obtain p w' where c: "ca tid lr n sz w = (p, w')" by fastforce
  show ?thesis using ca_law [OF assms(1) _ c] grew_live [OF _ running_finite [OF assms(1)]] assms(2) c OP_calloc by fastforce
next
  case (OP_realloc tid lr p sz)
  obtain q w' where c: "re tid lr p sz w = (q, w')" by fastforce
  show ?thesis using re_law [OF assms(1) _ c] reshaped_live [OF _ running_finite [OF assms(1)]] assms(2) c OP_realloc by fastforce
next
  case (OP_free tid lr p)
  show ?thesis using fr_law [OF assms(1)] shrank_live [OF _ running_finite [OF assms(1)]] OP_free by fastforce
qed

text \<open>Any sequence of calls, by any threads, that never asks for \<open>2\<^sup>6\<^sup>4\<close> bytes in all.\<close>

lemma run_running:
  assumes "running k w S" "live_bytes S + sum_list (map requested cs) < 2 ^ 64"
  shows "\<exists>S'. running k (fold heap_step cs w) S' \<and> live_bytes S' \<le> live_bytes S + sum_list (map requested cs)"
  using assms
proof (induction cs arbitrary: w S)
  case (Cons c cs)
  from step_running [OF Cons.prems(1), of c] Cons.prems(2) obtain S' where
    s: "running k (heap_step c w) S'" "live_bytes S' \<le> live_bytes S + requested c" by auto
  from Cons.IH [OF s(1)] s(2) Cons.prems(2) obtain T where
    "running k (fold heap_step cs (heap_step c w)) T" "live_bytes T \<le> live_bytes S' + sum_list (map requested cs)" by auto
  then show ?case using s(2) by (intro exI [of _ T]) simp
qed auto

end

section \<open>The interface keeps the contract\<close>

lemma mtt_malloc_law:
  assumes "running k w S" "live_bytes S + unat sz < 2 ^ 64" "mtt_malloc X tid sz w = (p, w')"
  shows "\<exists>S'. running k w' S' \<and> grew p sz S S'"
proof -
  define v where "v = mtt_ensure_init X tid w"
  have v: "running k v S" unfolding v_def by (rule quiet_running [OF ensure_init_quiet assms(1)]) (rule assms(1))
  obtain q u where m: "call_malloc X sz v = (q, u)" by fastforce
  have u: "running k u S" by (rule call_malloc_running [OF v m])
  obtain t s where d: "api_decision sz (g_state u) = (t, s)" by fastforce
  define x where "x = u\<lparr>g_state := s\<rparr>"
  have x: "running k x S" unfolding x_def by (rule decision_running(1) [OF u d])
  have "raw_malloc w = F_NULL \<and> w' = w \<or> sz = 0 \<and> call_malloc X 0 w = (p, w') \<or> (p = q \<and> w' = u) \<or> (p = q \<and> w' = x) \<or>
      sz \<noteq> 0 \<and> q \<noteq> NULL \<and> p = q \<and> w' = track_block X tid True q sz x"
    using assms(1,3) m d by (auto simp: mtt_malloc_def Let_def v_def [symmetric] x_def split: if_splits)
  then show ?thesis
  proof (elim disjE conjE)
    assume "sz \<noteq> 0" "q \<noteq> NULL" "p = q" "w' = track_block X tid True q sz x"
    then show ?thesis using track_running [OF x _ assms(2)] by blast
  qed (use assms(1) u x call_malloc_running [OF assms(1)] grew_self in blast)+
qed

lemma mtt_free_law:
  assumes "running k w S"
  shows "\<exists>S'. running k (mtt_free X tid p w) S' \<and> shrank p S S'"
proof -
  define v where "v = mtt_ensure_init X tid w"
  have v: "running k v S" unfolding v_def by (rule quiet_running [OF ensure_init_quiet assms]) (rule assms)
  have "mtt_free X tid p w \<in> {w, call_free X p v} \<or>
      p \<noteq> NULL \<and> mtt_free X tid p w = call_free X p (untrack X forget_bytes no_note p v)"
    using assms by (auto simp: mtt_free_def Let_def v_def [symmetric])
  then show ?thesis
    using assms call_free_running [OF v] call_free_running [OF untrack_running [OF v _ exact_forgets(1) lifetime_notes(1)]]
    unfolding shrank_def by (metis insertE singletonD)
qed

lemma mtt_calloc_law:
  assumes "running k w S" "live_bytes S + unat (n * sz) < 2 ^ 64" "mtt_calloc X tid n sz w = (p, w')"
  shows "\<exists>S'. running k w' S' \<and> grew p (n * sz) S S'"
proof -
  obtain q u where m: "mtt_malloc X tid (n * sz) w = (q, u)" by fastforce
  show ?thesis using mtt_malloc_law [OF assms(1,2) m] assms(1,3) m
    by (auto simp: mtt_calloc_def split: if_splits dest: mem_running)
qed

lemma mtt_realloc_law:
  assumes "running k w S" "live_bytes S + unat sz < 2 ^ 64" "mtt_realloc X tid p sz w = (q, w')"
  shows "\<exists>S'. running k w' S' \<and> reshaped p q sz S S'"
proof -
  define v where "v = mtt_ensure_init X tid w"
  have v: "running k v S" unfolding v_def by (rule quiet_running [OF ensure_init_quiet assms(1)]) (rule assms(1))
  have same: "\<exists>S'. running k w' S' \<and> reshaped p q sz S S'" if "p \<noteq> NULL" "sz \<noteq> 0" "running k w' S"
    using that by (auto simp: reshaped_def)
  obtain a u where m: "call_malloc X sz v = (a, u)" by fastforce
  have u: "running k u S" by (rule call_malloc_running [OF v m])
  have "p = NULL \<and> mtt_malloc X tid sz w = (q, w') \<or> p \<noteq> NULL \<and> sz = 0 \<and> w' = mtt_free X tid p w \<or>
      p \<noteq> NULL \<and> sz \<noteq> 0 \<and> (w' \<in> {w, u, call_free X p u} \<or> call_realloc X p sz v = (q, w') \<or>
        realloc_raw X tid forget_bytes True p sz v = (q, w') \<or> realloc_copy X tid True p sz v = (q, w'))"
    using assms(1,3) m by (auto simp: mtt_realloc_def Let_def v_def [symmetric] split: if_splits)
  then show ?thesis
  proof (elim disjE conjE)
    assume "p = NULL" "mtt_malloc X tid sz w = (q, w')"
    then show ?thesis using mtt_malloc_law [OF assms(1,2)] by (auto simp: reshaped_def)
  next
    assume "p \<noteq> NULL" "sz = 0" "w' = mtt_free X tid p w"
    then show ?thesis using mtt_free_law [OF assms(1), of X tid p] by (auto simp: reshaped_def)
  qed (use same assms(1) u call_free_running [OF u] call_realloc_running [OF v]
      realloc_raw_running [OF v _ _ assms(2) exact_forgets(1)] realloc_copy_running [OF v _ _ assms(2)] in blast)+
qed

interpretation api: traced_allocator "\<lambda>tid lr. mtt_malloc X tid" "\<lambda>tid lr. mtt_calloc X tid"
  "\<lambda>tid lr. mtt_realloc X tid" "\<lambda>tid lr. mtt_free X tid" for X :: "'l ext"
  by unfold_locales (rule mtt_malloc_law mtt_calloc_law mtt_realloc_law mtt_free_law; assumption)+

section \<open>Initialisation starts the tracker\<close>

lemma pool_link_raw [simp]: "g_raw_ready (pool_link n w) = g_raw_ready w"
  by (induction n) (simp_all add: Let_def upd_entry_def)

lemma calls_raw [simp]:
  "g_raw_ready (snd (call_malloc X n w)) = g_raw_ready w"
  "g_raw_ready (snd (bootstrap_calloc X n m w)) = g_raw_ready w"
  "g_raw_ready (snd (call_calloc X n m w)) = g_raw_ready w"
proof -
  show "g_raw_ready (snd (call_malloc X n w)) = g_raw_ready w"
    by (simp add: call_malloc_def bootstrap_malloc_def Let_def case_prod_beta split: fnptr.split)
  show b: "g_raw_ready (snd (bootstrap_calloc X n m w)) = g_raw_ready w"
    using bootstrap_calloc_frame [of X n m w] by (cases "bootstrap_calloc X n m w") auto
  show "g_raw_ready (snd (call_calloc X n m w)) = g_raw_ready w"
    by (simp add: call_calloc_def Let_def case_prod_beta b split: fnptr.split)
qed

lemma init_buckets_raw: "g_raw_ready (init_buckets X w) = g_raw_ready w"
  by (simp add: init_buckets_def Let_def case_prod_beta)

lemma init_pool_raw: "g_raw_ready (init_pool X n w) = g_raw_ready w"
proof -
  have "g_raw_ready (pool_alloc X u) = g_raw_ready u" for u :: "'a world"
    by (simp add: pool_alloc_def Let_def case_prod_beta)
  then show ?thesis by (simp add: init_pool_def Let_def)
qed

lemma parse_blacklist_raw: "g_raw_ready (mtt_parse_blacklist_fast X w) = g_raw_ready w"
  by (simp add: mtt_parse_blacklist_fast_def Let_def split: option.split)

lemma init_locked_raw: "g_raw_ready (init_locked X c w) = g_raw_ready w"
  by (simp add: init_locked_def Let_def init_counters_def init_buckets_raw init_pool_raw parse_blacklist_raw)

lemma thread_get_raw: "mtt_thread_get X tid w = (c, v) \<Longrightarrow> g_raw_ready v = g_raw_ready w"
  by (rule thread_get_cases [of X tid w]) (auto simp: upd_slot_def)

lemma init_services_raw: "g_raw_ready (init_services X tid w) = g_raw_ready w"
proof -
  have f: "g_raw_ready (set_flags c h u) = g_raw_ready u" for c h and u :: "'a world"
    by (auto simp: set_flags_def upd_slot_def split: option.split)
  have s: "g_raw_ready (mtt_reporter_start X u) = g_raw_ready u"
    "g_raw_ready (snd (mtt_http_server_start X port u)) = g_raw_ready u"
    "g_raw_ready (mtt_signal_thread_start X u) = g_raw_ready u" for port and u :: "'a world"
    by (auto simp: mtt_reporter_start_def mtt_http_server_start_def
        mtt_signal_thread_start_def close_fd_def Let_def split: option.split)
  obtain c v where g: "mtt_thread_get X tid (mtt_ts_init w) = (c, v)" by fastforce
  have "g_raw_ready (mtt_ts_init w) = g_raw_ready w" by (simp add: mtt_ts_init_def)
  then have "g_raw_ready v = g_raw_ready w" using thread_get_raw [OF g] by simp
  then show ?thesis by (simp add: init_services_def g Let_def f s)
qed

text \<open>A first call in a process whose allocators are resolved.\<close>

lemma init_running:
  assumes "g_raw_ready w" "raw_malloc w = F_LIBC" "raw_calloc w = F_LIBC" "valid_heap X"
    and "\<not> s_initialized (g_state w)" "\<not> g_init_lock w"
    and "s_buckets (g_state (mtt_ensure_init X tid w)) \<noteq> None" "s_pool (g_state (mtt_ensure_init X tid w)) \<noteq> NULL"
  shows "running (setup_of (mtt_ensure_init X tid w)) (mtt_ensure_init X tid w) (\<lambda>_. [])"
proof -
  let ?w = "mtt_ensure_init X tid w"
  have i: "s_initialized (g_state ?w)" "recs ?w (\<lambda>_. []) {}" "fresh_counters (read_config X) (g_state ?w)"
    using ensure_init_spec [OF assms(1-6), of tid] assms(7) by auto
  have "tracked ?w (\<lambda>_. []) {}" unfolding tracked_def using i(2) by (intro exI [of _ "\<lambda>_. []"]) simp
  then have "books ?w (\<lambda>_. []) {}"
    using i(3) by (simp add: books_def fresh_counters_def live_bytes_def)
  moreover have "locks_free ?w" using i(3) by (simp add: locks_free_def fresh_counters_def free_locks_def fun_eq_iff)
  moreover have "g_raw_ready (env_globals X u) = g_raw_ready u" for u :: "'a world"
    by (auto simp: env_globals_def Let_def split: option.split)
  then have "g_raw_ready ?w"
    using assms(1,5) by (simp add: mtt_ensure_init_def Let_def init_services_raw init_locked_raw)
  ultimately show ?thesis using i(1) assms(8) by (simp add: running_def)
qed

end
