(* ===== verification/Hooks.thy ===== *)
theory Hooks
  imports Tracker_Api C_Format
begin

text \<open>
  The functions that \<^verbatim>\<open>hooks.c\<close> interposes on the C library. \<open>tid\<close> is the calling thread
  and \<open>lr\<close> the return address of the call; a call from one hook to another returns into the
  tracer (\<open>x_hook_pc\<close>). Every path of a hook that entered leaves through \<open>hook_leave\<close>.
\<close>

section \<open>Entering and leaving a hook\<close>

definition hook_name :: "rawfn \<Rightarrow> string" where
  "hook_name f =
     (case f of RF_malloc \<Rightarrow> ''malloc'' | RF_free \<Rightarrow> ''free'' | RF_calloc \<Rightarrow> ''calloc''
      | RF_realloc \<Rightarrow> ''realloc'' | RF_posix_memalign \<Rightarrow> ''posix_memalign'')"

text \<open>The message written to the error stream on the first call, and the flag it clears.\<close>

definition first_call_diag :: "'l ext \<Rightarrow> rawfn \<Rightarrow> 'l world \<Rightarrow> string option \<times> 'l world" where
  "first_call_diag X f w =
     (if g_first_diag w f then
        let w = w\<lparr>g_first_diag := (g_first_diag w)(f := False)\<rparr>;
            level = (case x_getenv X ''MTT_DEBUG'' of
                       None \<Rightarrow> MTT_DEBUG_DEFAULT
                     | Some v \<Rightarrow> let lv = atoi v in if lv < 0 then 0 else if lv > 2 then 2 else lv)
        in if level < 1 then (None, w)
           else
             let buf = ''[MTT] hook: '' @ hook_name f @ '' first call (pid='' @
                       int_string (x_getpid X (g_ext w)) @ '')'' @ [newline]
             in (if length buf < 128 then Some buf else None, w)
      else (None, w))"

text \<open>The end of every path: the depth decremented, the flag of the slot restored.\<close>

definition hook_leave :: "'l ext \<Rightarrow> int \<Rightarrow> nat \<Rightarrow> int \<Rightarrow> 'l world \<Rightarrow> 'l world" where
  "hook_leave X tid i saved_hook w =
     upd_slot i (\<lambda>t. t\<lparr>t_in_hook := saved_hook\<rparr>) (mtt_hook_dec_depth X tid w)"

text \<open>The start of a hook: recursive, no slot, or entered with slot and saved flag.\<close>

datatype hook_entry = HE_RECURSIVE | HE_NO_SLOT | HE_ENTERED nat int

definition hook_slot :: "'l ext \<Rightarrow> int \<Rightarrow> 'l world \<Rightarrow> (hook_entry + nat) \<times> 'l world" where
  "hook_slot X tid w =
     (let (depth, w) = mtt_hook_enter X tid w
      in if depth > 0 then (Inl HE_RECURSIVE, w)
         else
           let (ctx, w) = mtt_thread_get_cached X tid w
           in case ctx of None \<Rightarrow> (Inl HE_NO_SLOT, w) | Some i \<Rightarrow> (Inr i, w))"

definition hook_begin :: "'l ext \<Rightarrow> int \<Rightarrow> 'l world \<Rightarrow> hook_entry \<times> 'l world" where
  "hook_begin X tid w =
     (let (r, w) = hook_slot X tid w
      in case r of
           Inl h \<Rightarrow> (h, mtt_resolve_raw_allocators X tid w)
         | Inr i \<Rightarrow>
             let w = mtt_hook_inc_depth X tid w;
                 saved_hook = t_in_hook (g_threads w i);
                 w = upd_slot i (\<lambda>t. t\<lparr>t_in_hook := 1\<rparr>) w
             in (HE_ENTERED i saved_hook, mtt_resolve_raw_allocators X tid w))"

text \<open>A call passed through to the C library.\<close>

definition malloc_through :: "'l ext \<Rightarrow> size_t \<Rightarrow> 'l world \<Rightarrow> ptr \<times> 'l world" where
  "malloc_through X sz w = (if raw_malloc w \<noteq> F_NULL then call_malloc X sz w else (NULL, w))"

definition free_through :: "'l ext \<Rightarrow> ptr \<Rightarrow> 'l world \<Rightarrow> 'l world" where
  "free_through X p w = (if raw_free w \<noteq> F_NULL then call_free X p w else w)"

definition calloc_through :: "'l ext \<Rightarrow> size_t \<Rightarrow> size_t \<Rightarrow> 'l world \<Rightarrow> ptr \<times> 'l world" where
  "calloc_through X count sz w =
     (if raw_malloc w = F_NULL then (NULL, w)
      else if mul_overflows count sz then (NULL, w)
      else
        let total = count * sz;
            (p, w) = call_malloc X total w
        in (p, if p \<noteq> NULL then w\<lparr>g_mem := memset p 0 total (g_mem w)\<rparr> else w))"

definition realloc_through :: "'l ext \<Rightarrow> ptr \<Rightarrow> size_t \<Rightarrow> 'l world \<Rightarrow> ptr \<times> 'l world" where
  "realloc_through X p sz w =
     (if raw_realloc w \<noteq> F_NULL then call_realloc X p sz w
      else
        let (new_ptr, w) = malloc_through X sz w
        in if new_ptr = NULL then (NULL, w) else (new_ptr, free_through X p w))"

section \<open>malloc, free, calloc, realloc\<close>

definition malloc_entered :: "'l ext \<Rightarrow> int \<Rightarrow> nat \<Rightarrow> ptr \<Rightarrow> size_t \<Rightarrow> 'l world \<Rightarrow> ptr \<times> 'l world" where
  "malloc_entered X tid i lr sz w =
     (if mtt_is_lr_in_blacklist lr w then malloc_through X sz w
      else if t_tool_internal (g_threads w i) \<noteq> 0 then malloc_through X sz w
      else if raw_malloc w = F_NULL then (NULL, w)
      else if sz = 0 then call_malloc X 0 w
      else
        let w = mtt_ensure_init X tid w
        in if mtt_is_startup_phase w then call_malloc X sz w
           else if s_disabled (g_state w) then call_malloc X sz w
           else
             let (p, w) = call_malloc X sz w
             in if p = NULL then (NULL, w)
                else
                  let (track, s) = track_decision sz (g_state w);
                      w = w\<lparr>g_state := s\<rparr>
                  in if \<not> track then (p, w) else (p, track_block X tid False p sz w))"

definition malloc :: "'l ext \<Rightarrow> int \<Rightarrow> ptr \<Rightarrow> size_t \<Rightarrow> 'l world \<Rightarrow> ptr \<times> 'l world" where
  "malloc X tid lr sz w =
     (let (_, w) = first_call_diag X RF_malloc w;
          (h, w) = hook_begin X tid w
      in case h of
           HE_ENTERED i saved_hook \<Rightarrow>
             let (p, w) = malloc_entered X tid i lr sz w
             in (p, hook_leave X tid i saved_hook w)
         | _ \<Rightarrow> malloc_through X sz w)"

definition free_entered :: "'l ext \<Rightarrow> int \<Rightarrow> nat \<Rightarrow> ptr \<Rightarrow> ptr \<Rightarrow> 'l world \<Rightarrow> 'l world" where
  "free_entered X tid i lr p w =
     (if mtt_is_lr_in_blacklist lr w then free_through X p w
      else if t_tool_internal (g_threads w i) \<noteq> 0 then free_through X p w
      else if raw_free w = F_NULL then w
      else
        let w = mtt_ensure_init X tid w
        in if s_disabled (g_state w) then call_free X p w
           else call_free X p (untrack X forget_bytes note_lifetime p w))"

definition free :: "'l ext \<Rightarrow> int \<Rightarrow> ptr \<Rightarrow> ptr \<Rightarrow> 'l world \<Rightarrow> 'l world" where
  "free X tid lr p w =
     (let (_, w) = first_call_diag X RF_free w
      in if p = NULL then w
         else if mtt_pool_contains p w then w
         else
           let (h, w) = hook_begin X tid w
           in case h of
                HE_ENTERED i saved_hook \<Rightarrow> hook_leave X tid i saved_hook (free_entered X tid i lr p w)
              | _ \<Rightarrow> free_through X p w)"

text \<open>\<open>calloc\<close> does not enter: it decides by the slot and calls \<open>malloc\<close>.\<close>

definition calloc :: "'l ext \<Rightarrow> int \<Rightarrow> ptr \<Rightarrow> size_t \<Rightarrow> size_t \<Rightarrow> 'l world \<Rightarrow> ptr \<times> 'l world" where
  "calloc X tid lr count sz w =
     (let (_, w) = first_call_diag X RF_calloc w;
          (r, w) = hook_slot X tid w
      in case r of
           Inl _ \<Rightarrow> calloc_through X count sz (mtt_resolve_raw_allocators X tid w)
         | Inr i \<Rightarrow>
             if t_tool_internal (g_threads w i) \<noteq> 0
             then calloc_through X count sz (mtt_resolve_raw_allocators X tid w)
             else if mul_overflows count sz then (NULL, w)
             else
               let total = count * sz
               in if mtt_is_lr_in_blacklist lr w
                  then calloc_through X count sz (mtt_resolve_raw_allocators X tid w)
                  else
                    let (p, w) = malloc X tid (x_hook_pc X) total w
                    in (p, if p \<noteq> NULL then w\<lparr>g_mem := memset p 0 total (g_mem w)\<rparr> else w))"

definition realloc_entered :: "'l ext \<Rightarrow> int \<Rightarrow> nat \<Rightarrow> ptr \<Rightarrow> ptr \<Rightarrow> size_t \<Rightarrow> 'l world \<Rightarrow> ptr \<times> 'l world" where
  "realloc_entered X tid i lr p sz w =
     (if mtt_is_lr_in_blacklist lr w then realloc_through X p sz w
      else if t_tool_internal (g_threads w i) \<noteq> 0 then realloc_through X p sz w
      else if raw_malloc w = F_NULL then (NULL, w)
      else
        let w = mtt_ensure_init X tid w
        in if s_disabled (g_state w) then realloc_through X p sz w
           else if raw_realloc w \<noteq> F_NULL then realloc_raw X tid forget_bytes_moved False p sz w
           else realloc_copy X tid False p sz w)"

definition realloc :: "'l ext \<Rightarrow> int \<Rightarrow> ptr \<Rightarrow> ptr \<Rightarrow> size_t \<Rightarrow> 'l world \<Rightarrow> ptr \<times> 'l world" where
  "realloc X tid lr p sz w =
     (let (_, w) = first_call_diag X RF_realloc w
      in if p = NULL then malloc X tid (x_hook_pc X) sz w
         else if sz = 0 then (NULL, free X tid (x_hook_pc X) p w)
         else
           let (h, w) = hook_begin X tid w
           in case h of
                HE_ENTERED i saved_hook \<Rightarrow>
                  let (q, w) = realloc_entered X tid i lr p sz w
                  in (q, hook_leave X tid i saved_hook w)
              | _ \<Rightarrow> realloc_through X p sz w)"

section \<open>Aligned allocation\<close>

definition aligned_alloc :: "'l ext \<Rightarrow> int \<Rightarrow> size_t \<Rightarrow> size_t \<Rightarrow> 'l world \<Rightarrow> ptr \<times> 'l world" where
  "aligned_alloc X tid alignment sz w =
     (let w = mtt_resolve_raw_allocators X tid w
      in if alignment = 0 \<or> alignment AND (alignment - 1) \<noteq> 0 then (NULL, w)
         else
           let alignment = (if alignment < 8 then 8 else alignment);
               n = (if sz \<noteq> 0 then sz else 1)
           in if raw_posix_memalign w \<noteq> F_NULL then
                let (r, p, w) = call_posix_memalign X alignment n w
                in (if r \<noteq> 0 then NULL else p, w)
              else if raw_malloc w = F_NULL then (NULL, w)
              else call_malloc X n w)"

text \<open>The result, the pointer stored through \<open>memptr\<close> if one is, and the world.\<close>

definition posix_memalign ::
  "'l ext \<Rightarrow> int \<Rightarrow> size_t \<Rightarrow> size_t \<Rightarrow> 'l world \<Rightarrow> int \<times> ptr option \<times> 'l world" where
  "posix_memalign X tid alignment sz w =
     (let alignment = (if alignment < 8 then 8 else alignment)
      in if alignment AND (alignment - 1) \<noteq> 0 then (22, None, w)
         else
           let (p, w) = aligned_alloc X tid alignment sz w
           in if p = NULL then (12, None, w) else (0, Some p, w))"

text \<open>The value stored in \<open>errno\<close>, if any, the pointer, and the world.\<close>

definition reallocarray ::
  "'l ext \<Rightarrow> int \<Rightarrow> ptr \<Rightarrow> ptr \<Rightarrow> size_t \<Rightarrow> size_t \<Rightarrow> 'l world \<Rightarrow> int option \<times> ptr \<times> 'l world" where
  "reallocarray X tid lr p nmemb sz w =
     (if mul_overflows nmemb sz then (Some 12, NULL, w)
      else if mtt_is_lr_in_blacklist lr w then
        let w = mtt_resolve_raw_allocators X tid w
        in if raw_realloc w \<noteq> F_NULL then (None, call_realloc X p (nmemb * sz) w)
           else (None, realloc X tid (x_hook_pc X) p (nmemb * sz) w)
      else (None, realloc X tid (x_hook_pc X) p (nmemb * sz) w))"

definition memalign :: "'l ext \<Rightarrow> int \<Rightarrow> size_t \<Rightarrow> size_t \<Rightarrow> 'l world \<Rightarrow> ptr \<times> 'l world" where
  "memalign X tid alignment sz w = aligned_alloc X tid alignment sz w"

definition valloc :: "'l ext \<Rightarrow> int \<Rightarrow> size_t \<Rightarrow> 'l world \<Rightarrow> ptr \<times> 'l world" where
  "valloc X tid sz w = aligned_alloc X tid (x_page_size X) sz w"

section \<open>Strings\<close>

text \<open>\<open>strlen\<close> returns only where a terminator follows; \<open>strnlen\<close> always does.\<close>

partial_function (option) strlen :: "memory \<Rightarrow> ptr \<Rightarrow> size_t \<Rightarrow> size_t option" where
  "strlen m p n = (if m p = 0 then Some n else strlen m (p + 1) (n + 1))"

fun strnlen :: "memory \<Rightarrow> ptr \<Rightarrow> nat \<Rightarrow> size_t" where
  "strnlen m p 0 = 0"
| "strnlen m p (Suc n) = (if m p = 0 then 0 else strnlen m (p + 1) n + 1)"

text \<open>The allocation of a string function: past the hook for a call from a blacklisted library.\<close>

definition string_alloc :: "'l ext \<Rightarrow> int \<Rightarrow> ptr \<Rightarrow> size_t \<Rightarrow> 'l world \<Rightarrow> ptr \<times> 'l world" where
  "string_alloc X tid lr n w =
     (if mtt_is_lr_in_blacklist lr w then malloc_through X n (mtt_resolve_raw_allocators X tid w)
      else malloc X tid (x_hook_pc X) n w)"

text \<open>The length of a string that has no terminator, or of NULL, is never computed.\<close>

definition strdup :: "'l ext \<Rightarrow> int \<Rightarrow> ptr \<Rightarrow> ptr \<Rightarrow> 'l world \<Rightarrow> ptr \<times> 'l world" where
  "strdup X tid lr s w =
     (if mtt_is_lr_in_blacklist lr w \<and>
        (raw_malloc (mtt_resolve_raw_allocators X tid w) = F_NULL \<or> s = NULL)
      then (NULL, mtt_resolve_raw_allocators X tid w)
      else
        case (if s = NULL then None else strlen (g_mem w) s 0) of
          None \<Rightarrow> (NULL, w\<lparr>g_hung := True\<rparr>)
        | Some l \<Rightarrow>
            let len = l + 1;
                (p, w) = string_alloc X tid lr len w
            in (p, if p \<noteq> NULL then w\<lparr>g_mem := memcpy p s len (g_mem w)\<rparr> else w))"

definition strndup :: "'l ext \<Rightarrow> int \<Rightarrow> ptr \<Rightarrow> ptr \<Rightarrow> size_t \<Rightarrow> 'l world \<Rightarrow> ptr \<times> 'l world" where
  "strndup X tid lr s n w =
     (if mtt_is_lr_in_blacklist lr w \<and>
        (raw_malloc (mtt_resolve_raw_allocators X tid w) = F_NULL \<or> s = NULL)
      then (NULL, mtt_resolve_raw_allocators X tid w)
      else if s = NULL \<and> n \<noteq> 0 then (NULL, w\<lparr>g_hung := True\<rparr>)
      else
        let len = strnlen (g_mem w) s (unat n);
            (p, w) = string_alloc X tid lr (len + 1) w
        in (p, if p \<noteq> NULL then w\<lparr>g_mem := (memcpy p s len (g_mem w))(p + len := 0)\<rparr> else w))"

text \<open>
  \<open>vasprintf\<close>: \<open>len\<close> is the result of the measuring \<open>vsnprintf\<close>, \<open>written\<close> and \<open>bytes\<close> the
  result and the output of the second one. \<open>asprintf\<close> only collects the arguments, and its
  call returns into the tracer.
\<close>

definition vasprintf ::
  "'l ext \<Rightarrow> int \<Rightarrow> ptr \<Rightarrow> bool \<Rightarrow> int \<Rightarrow> int \<Rightarrow> memory \<Rightarrow> 'l world \<Rightarrow> int \<times> ptr option \<times> 'l world" where
  "vasprintf X tid lr strp_null len written bytes w =
     (if strp_null \<or> len < 0 then (- 1, None, w)
      else
        let (buf, w) = string_alloc X tid lr (of_int len + 1) w
        in if buf = NULL then (- 1, None, w)
           else
             let w = w\<lparr>g_mem := (\<lambda>a. if a - buf < of_int len + 1 then bytes (a - buf) else g_mem w a)\<rparr>
             in if written < 0 then (- 1, None, free X tid (x_hook_pc X) buf w)
                else (written, Some buf, w))"

definition asprintf ::
  "'l ext \<Rightarrow> int \<Rightarrow> bool \<Rightarrow> int \<Rightarrow> int \<Rightarrow> memory \<Rightarrow> 'l world \<Rightarrow> int \<times> ptr option \<times> 'l world" where
  "asprintf X tid strp_null len written bytes w =
     vasprintf X tid (x_hook_pc X) strp_null len written bytes w"

section \<open>Entering and leaving are invisible to the books\<close>

lemma thread_get_quiet: "mtt_thread_get X tid w = (r, w') \<Longrightarrow> quiet w w'"
  by (rule thread_get_cases [of X tid w]) auto

lemma cached_quiet: "mtt_thread_get_cached X tid w = (r, w') \<Longrightarrow> quiet w w'"
proof -
  assume c: "mtt_thread_get_cached X tid w = (r, w')"
  obtain r1 w1 where g: "mtt_thread_get X tid w = (r1, w1)" by fastforce
  have "w' = w \<or> (\<exists>a b. w' = w1\<lparr>g_tls_ctx := a, g_tls_cached_tid := b\<rparr>)"
    using c g by (auto simp: mtt_thread_get_cached_def Let_def split: option.splits if_splits)
  then show "quiet w w'"
    using thread_get_quiet [OF g] quiet_upd(4) quiet_trans [OF thread_get_quiet [OF g]] quiet_refl by metis
qed

lemma hook_enter_quiet: "mtt_hook_enter X tid w = (d, w') \<Longrightarrow> quiet w w'"
proof -
  assume e: "mtt_hook_enter X tid w = (d, w')"
  obtain r v where c: "mtt_thread_get_cached X tid w = (r, v)" by fastforce
  have "quiet v w'"
    using e c by (auto simp: mtt_hook_enter_def Let_def split: option.splits if_splits)
  then show "quiet w w'" by (rule quiet_trans [OF cached_quiet [OF c]])
qed

lemma hook_depth_quiet: "quiet w (mtt_hook_inc_depth X tid w)" "quiet w (mtt_hook_dec_depth X tid w)"
proof -
  obtain r v where c: "mtt_thread_get_cached X tid w = (r, v)" by fastforce
  have "quiet v (mtt_hook_inc_depth X tid w)" "quiet v (mtt_hook_dec_depth X tid w)"
    using c quiet_trans [OF quiet_upd(1) quiet_upd(1)]
    by (auto simp: mtt_hook_inc_depth_def mtt_hook_dec_depth_def Let_def split: option.splits)
  then show "quiet w (mtt_hook_inc_depth X tid w)" "quiet w (mtt_hook_dec_depth X tid w)"
    using quiet_trans [OF cached_quiet [OF c]] by blast+
qed

lemma hook_leave_quiet: "quiet w (hook_leave X tid i saved w)"
  unfolding hook_leave_def by (rule quiet_trans [OF hook_depth_quiet(2) quiet_upd(1)])

lemma first_call_quiet: "first_call_diag X f w = (d, w') \<Longrightarrow> quiet w w'"
  by (auto simp: first_call_diag_def Let_def split: if_splits)

lemma hook_slot_quiet: "hook_slot X tid w = (r, w') \<Longrightarrow> quiet w w'"
proof -
  assume h: "hook_slot X tid w = (r, w')"
  obtain d u where e: "mtt_hook_enter X tid w = (d, u)" by fastforce
  obtain c v where c: "mtt_thread_get_cached X tid u = (c, v)" by fastforce
  have "w' = u \<or> w' = v" using h e c by (auto simp: hook_slot_def split: if_splits option.splits)
  then show "quiet w w'"
    using hook_enter_quiet [OF e] quiet_trans [OF hook_enter_quiet [OF e] cached_quiet [OF c]] by blast
qed

lemma hook_begin_quiet:
  assumes "hook_begin X tid w = (h, w')" "running k w S"
  shows "quiet w w'"
proof -
  obtain r v where s: "hook_slot X tid w = (r, v)" by fastforce
  note v = hook_slot_quiet [OF s]
  have rv: "running k v S" by (rule quiet_running [OF v assms(2)])
  show ?thesis
  proof (cases r)
    case (Inl a)
    then show ?thesis using assms(1) s v rv by (simp add: hook_begin_def)
  next
    case (Inr i)
    define x where "x = upd_slot i (\<lambda>t. t\<lparr>t_in_hook := 1\<rparr>) (mtt_hook_inc_depth X tid v)"
    have q: "quiet w x" unfolding x_def
      by (rule quiet_trans [OF v quiet_trans [OF hook_depth_quiet(1) quiet_upd(1)]])
    have "w' = mtt_resolve_raw_allocators X tid x"
      using assms(1) s Inr by (simp add: hook_begin_def Let_def x_def)
    then show ?thesis using q resolve_running [OF quiet_running [OF q assms(2)]] by simp
  qed
qed

section \<open>The hooks keep the contract\<close>

lemma malloc_through_running: "running k w S \<Longrightarrow> malloc_through X sz w = (p, w') \<Longrightarrow> running k w' S"
  using call_malloc_running by (auto simp: malloc_through_def split: if_splits)

lemma free_through_running: "running k w S \<Longrightarrow> running k (free_through X p w) S"
  using call_free_running by (auto simp: free_through_def)

lemma calloc_through_running: "running k w S \<Longrightarrow> calloc_through X n sz w = (p, w') \<Longrightarrow> running k w' S"
proof -
  assume r: "running k w S" "calloc_through X n sz w = (p, w')"
  obtain q v where m: "call_malloc X (n * sz) w = (q, v)" by fastforce
  show "running k w' S" using r m call_malloc_running [OF r(1) m] mem_running
    by (auto simp: calloc_through_def split: if_splits)
qed

lemma realloc_through_running: "running k w S \<Longrightarrow> realloc_through X p sz w = (q, w') \<Longrightarrow> running k w' S"
proof -
  assume r: "running k w S" "realloc_through X p sz w = (q, w')"
  obtain a v where m: "malloc_through X sz w = (a, v)" by fastforce
  note v = malloc_through_running [OF r(1) m]
  show "running k w' S" using r m v call_realloc_running [OF r(1)] free_through_running [OF v]
    by (auto simp: realloc_through_def split: if_splits)
qed

lemma malloc_entered_law:
  assumes "running k w S" "live_bytes S + unat sz < 2 ^ 64" "malloc_entered X tid i lr sz w = (p, w')"
  shows "\<exists>S'. running k w' S' \<and> grew p sz S S'"
proof -
  define v where "v = mtt_ensure_init X tid w"
  have v: "running k v S" unfolding v_def by (rule quiet_running [OF ensure_init_quiet assms(1)]) (rule assms(1))
  obtain q u where m: "call_malloc X sz v = (q, u)" by fastforce
  have u: "running k u S" by (rule call_malloc_running [OF v m])
  obtain t s where d: "track_decision sz (g_state u) = (t, s)" by fastforce
  define x where "x = u\<lparr>g_state := s\<rparr>"
  have x: "running k x S" unfolding x_def by (rule decision_running(2) [OF u d])
  have "malloc_through X sz w = (p, w') \<or> w' = w \<or> call_malloc X 0 w = (p, w') \<or> w' = u \<or> w' = x \<or>
      sz \<noteq> 0 \<and> q \<noteq> NULL \<and> p = q \<and> w' = track_block X tid False q sz x"
    using assms(3) m d by (auto simp: malloc_entered_def Let_def v_def [symmetric] x_def split: if_splits)
  then show ?thesis
  proof (elim disjE conjE)
    assume "sz \<noteq> 0" "q \<noteq> NULL" "p = q" "w' = track_block X tid False q sz x"
    then show ?thesis using track_running [OF x _ assms(2)] by blast
  qed (use assms(1) u x call_malloc_running [OF assms(1)] malloc_through_running [OF assms(1)] grew_self in blast)+
qed

lemma malloc_law:
  assumes "running k w S" "live_bytes S + unat sz < 2 ^ 64" "malloc X tid lr sz w = (p, w')"
  shows "\<exists>S'. running k w' S' \<and> grew p sz S S'"
proof -
  obtain d u where f: "first_call_diag X RF_malloc w = (d, u)" by fastforce
  have u: "running k u S" by (rule quiet_running [OF first_call_quiet [OF f] assms(1)])
  obtain h v where b: "hook_begin X tid u = (h, v)" by fastforce
  have v: "running k v S" by (rule quiet_running [OF hook_begin_quiet [OF b u] u])
  show ?thesis
  proof (cases h)
    case (HE_ENTERED i saved)
    obtain q x where e: "malloc_entered X tid i lr sz v = (q, x)" by fastforce
    have "p = q" "w' = hook_leave X tid i saved x" using assms(3) f b e HE_ENTERED by (simp_all add: malloc_def)
    then show ?thesis using malloc_entered_law [OF v assms(2) e] quiet_running [OF hook_leave_quiet] by blast
  qed (use assms(3) f b malloc_through_running [OF v] in \<open>auto simp: malloc_def intro!: exI [of _ S]\<close>)
qed

lemma free_entered_law:
  assumes "running k w S" "p \<noteq> NULL"
  shows "\<exists>S'. running k (free_entered X tid i lr p w) S' \<and> shrank p S S'"
proof -
  define v where "v = mtt_ensure_init X tid w"
  have v: "running k v S" unfolding v_def by (rule quiet_running [OF ensure_init_quiet assms(1)]) (rule assms(1))
  have "free_entered X tid i lr p w \<in> {w, free_through X p w, call_free X p v} \<or>
      free_entered X tid i lr p w = call_free X p (untrack X forget_bytes note_lifetime p v)"
    by (simp add: free_entered_def Let_def v_def [symmetric])
  then show ?thesis
    using assms call_free_running [OF v] free_through_running [OF assms(1)]
      call_free_running [OF untrack_running [OF v assms(2) exact_forgets(1) lifetime_notes(2)]]
    unfolding shrank_def by (metis insertE singletonD)
qed

lemma free_law:
  assumes "running k w S"
  shows "\<exists>S'. running k (free X tid lr p w) S' \<and> shrank p S S'"
proof -
  obtain d u where f: "first_call_diag X RF_free w = (d, u)" by fastforce
  have u: "running k u S" by (rule quiet_running [OF first_call_quiet [OF f] assms])
  obtain h v where b: "hook_begin X tid u = (h, v)" by fastforce
  have v: "running k v S" by (rule quiet_running [OF hook_begin_quiet [OF b u] u])
  have self: "shrank p S S" by (simp add: shrank_def)
  have "free X tid lr p w \<in> {u, free_through X p v} \<or>
      p \<noteq> NULL \<and> (\<exists>i saved. free X tid lr p w = hook_leave X tid i saved (free_entered X tid i lr p v))"
    using f b by (cases h) (auto simp: free_def)
  then show ?thesis
  proof (elim disjE conjE exE)
    fix i saved
    assume "p \<noteq> NULL" "free X tid lr p w = hook_leave X tid i saved (free_entered X tid i lr p v)"
    then show ?thesis using free_entered_law [OF v, of p X tid i lr] quiet_running [OF hook_leave_quiet] by metis
  next
    assume "free X tid lr p w \<in> {u, free_through X p v}"
    then show ?thesis using u free_through_running [OF v, of X p] self by auto
  qed
qed

lemma calloc_law:
  assumes "running k w S" "live_bytes S + unat (n * sz) < 2 ^ 64" "calloc X tid lr n sz w = (p, w')"
  shows "\<exists>S'. running k w' S' \<and> grew p (n * sz) S S'"
proof -
  obtain d u where f: "first_call_diag X RF_calloc w = (d, u)" by fastforce
  have u: "running k u S" by (rule quiet_running [OF first_call_quiet [OF f] assms(1)])
  obtain r v where s: "hook_slot X tid u = (r, v)" by fastforce
  have v: "running k v S" by (rule quiet_running [OF hook_slot_quiet [OF s] u])
  obtain q x where m: "malloc X tid (x_hook_pc X) (n * sz) v = (q, x)" by fastforce
  have "calloc_through X n sz v = (p, w') \<or> w' = v \<or> p = q \<and> (w' = x \<or> (\<exists>m. w' = x\<lparr>g_mem := m\<rparr>))"
    using assms(3) f s m v by (auto simp: calloc_def Let_def split: sum.splits if_splits)
  then show ?thesis
    using v calloc_through_running [OF v] malloc_law [OF v assms(2) m] mem_running grew_self by metis
qed

lemma realloc_entered_law:
  assumes "running k w S" "live_bytes S + unat sz < 2 ^ 64" "p \<noteq> NULL" "sz \<noteq> 0"
    and "realloc_entered X tid i lr p sz w = (q, w')"
  shows "\<exists>S'. running k w' S' \<and> reshaped p q sz S S'"
proof -
  define v where "v = mtt_ensure_init X tid w"
  have v: "running k v S" unfolding v_def by (rule quiet_running [OF ensure_init_quiet assms(1)]) (rule assms(1))
  have same: "\<exists>S'. running k w' S' \<and> reshaped p q sz S S'" if "running k w' S"
    using that assms(3,4) by (auto simp: reshaped_def)
  have "w' = w \<or> realloc_through X p sz w = (q, w') \<or> realloc_through X p sz v = (q, w') \<or>
        realloc_raw X tid forget_bytes_moved False p sz v = (q, w') \<or> realloc_copy X tid False p sz v = (q, w')"
    using assms(5) by (auto simp: realloc_entered_def Let_def v_def [symmetric] split: if_splits)
  then consider "w' = w" | "realloc_through X p sz w = (q, w')" | "realloc_through X p sz v = (q, w')" |
      "realloc_raw X tid forget_bytes_moved False p sz v = (q, w')" | "realloc_copy X tid False p sz v = (q, w')"
    by blast
  then show ?thesis
  proof cases
    case 1
    then show ?thesis using same assms(1) by simp
  next
    case 2
    show ?thesis by (rule same [OF realloc_through_running [OF assms(1) 2]])
  next
    case 3
    show ?thesis by (rule same [OF realloc_through_running [OF v 3]])
  next
    case 4
    show ?thesis by (rule realloc_raw_running [OF v assms(3,4,2) exact_forgets(2) 4])
  next
    case 5
    show ?thesis by (rule realloc_copy_running [OF v assms(3,4,2) 5])
  qed
qed

lemma realloc_law:
  assumes "running k w S" "live_bytes S + unat sz < 2 ^ 64" "realloc X tid lr p sz w = (q, w')"
  shows "\<exists>S'. running k w' S' \<and> reshaped p q sz S S'"
proof -
  obtain d u where f: "first_call_diag X RF_realloc w = (d, u)" by fastforce
  have u: "running k u S" by (rule quiet_running [OF first_call_quiet [OF f] assms(1)])
  obtain h v where b: "hook_begin X tid u = (h, v)" by fastforce
  have v: "running k v S" by (rule quiet_running [OF hook_begin_quiet [OF b u] u])
  consider "p = NULL" | "p \<noteq> NULL" "sz = 0" | "p \<noteq> NULL" "sz \<noteq> 0" by blast
  then show ?thesis
  proof cases
    case 1
    then show ?thesis using assms(3) f malloc_law [OF u assms(2)] by (simp add: realloc_def reshaped_def)
  next
    case 2
    then show ?thesis using assms(3) f free_law [OF u, of X tid "x_hook_pc X" p] by (auto simp: realloc_def reshaped_def)
  next
    case 3
    have same: "\<exists>S'. running k w' S' \<and> reshaped p q sz S S'" if "running k w' S"
      using that 3 by (auto simp: reshaped_def)
    show ?thesis
    proof (cases h)
      case (HE_ENTERED i saved)
      obtain a x where e: "realloc_entered X tid i lr p sz v = (a, x)" by fastforce
      have "q = a" "w' = hook_leave X tid i saved x" using assms(3) f b e HE_ENTERED 3 by (simp_all add: realloc_def)
      then show ?thesis using realloc_entered_law [OF v assms(2) 3 e] quiet_running [OF hook_leave_quiet] by blast
    qed (use assms(3) f b 3 realloc_through_running [OF v] same in \<open>auto simp: realloc_def\<close>)
  qed
qed

interpretation hooks: traced_allocator "malloc X" "calloc X" "realloc X" "free X" for X :: "'l ext"
  by unfold_locales (rule malloc_law calloc_law realloc_law free_law; assumption)+

end
