(* ===== verification/Transparency.thy ===== *)
theory Transparency
  imports Hooks
begin

text \<open>
  The hooks against the C library alone. \<open>plain_call\<close> is a call in a process without the tracer: the
  function of the C library of that name, on the state of the allocator and the memory of the
  application. The hooks return the same pointers and leave the same allocator state and memory,
  whatever they record on the way.
\<close>

section \<open>The process without the tracer\<close>

fun plain_call :: "'l ext \<Rightarrow> heap_op \<Rightarrow> 'l \<times> memory \<Rightarrow> ptr \<times> 'l \<times> memory" where
  "plain_call X (OP_malloc tid lr sz) (l, m) = (let (p, l) = x_malloc X l sz in (p, l, m))"
| "plain_call X (OP_calloc tid lr n sz) (l, m) =
     (let (p, l) = x_calloc X l n sz in (p, l, if p = NULL then m else memset p 0 (n * sz) m))"
| "plain_call X (OP_realloc tid lr p sz) (l, m) = (let (q, m, l) = x_realloc X l m p sz in (q, l, m))"
| "plain_call X (OP_free tid lr p) (l, m) = (NULL, x_free X l p, m)"

text \<open>
  What the hooks rely on of the C library, which they do not call with the arguments they were called
  with: \<open>free\<close> of NULL does nothing, \<open>realloc\<close> of NULL is \<open>malloc\<close>, \<open>realloc\<close> to size 0 is \<open>free\<close> and
  returns NULL, \<open>calloc\<close> fails if the product overflows and otherwise allocates as \<open>malloc\<close> does (the
  block it returns is cleared, as \<open>plain_call\<close> says).
\<close>

definition libc_laws :: "'l ext \<Rightarrow> bool" where
  "libc_laws X \<longleftrightarrow>
     (\<forall>l. x_free X l NULL = l) \<and>
     (\<forall>l m n. x_realloc X l m NULL n = (let (p, l) = x_malloc X l n in (p, m, l))) \<and>
     (\<forall>l m p. p \<noteq> NULL \<longrightarrow> x_realloc X l m p 0 = (NULL, m, x_free X l p)) \<and>
     (\<forall>l n sz. x_calloc X l n sz = (if unat n * unat sz \<ge> 2 ^ 64 then (NULL, l) else x_malloc X l (n * sz)))"

text \<open>What the hooks ask of the C library.\<close>

fun asked_call :: "'l ext \<Rightarrow> heap_op \<Rightarrow> 'l \<times> memory \<Rightarrow> ptr \<times> 'l \<times> memory" where
  "asked_call X (OP_malloc tid lr sz) (l, m) =
     (let (p, l) = x_malloc X l sz in (p, l, m))"
| "asked_call X (OP_calloc tid lr n sz) (l, m) =
     (if mul_overflows n sz then (NULL, l, m)
      else let (p, l) = x_malloc X l (n * sz)
           in (p, l, if p = NULL then m else memset p 0 (n * sz) m))"
| "asked_call X (OP_realloc tid lr p sz) (l, m) =
     (if p = NULL then let (q, l) = x_malloc X l sz in (q, l, m)
      else if sz = 0 then (NULL, x_free X l p, m)
      else let (q, m, l) = x_realloc X l m p sz in (q, l, m))"
| "asked_call X (OP_free tid lr p) (l, m) =
     (NULL, if p = NULL then l else x_free X l p, m)"

lemma mul_overflows_iff: "mul_overflows n sz \<longleftrightarrow> unat n * unat sz \<ge> 2 ^ 64"
proof (cases "n = 0")
  case False
  then have "0 < unat n" by (simp add: unat_gt_0)
  then have "(2 ^ 64 - 1) div unat n < unat sz \<longleftrightarrow> 2 ^ 64 - 1 < unat sz * unat n" by (rule div_less_iff_less_mult)
  moreover have "unat SIZE_MAX = 2 ^ 64 - 1" by (simp add: unsigned_minus_1_eq_mask mask_eq_exp_minus_1)
  ultimately show ?thesis
    using False by (auto simp: mul_overflows_def word_less_nat_alt unat_div mult.commute word_neq_0_conv)
qed (simp add: mul_overflows_def)

lemma plain_asked: "libc_laws X \<Longrightarrow> plain_call X c h = asked_call X c h"
  by (cases c; cases h) (auto simp: libc_laws_def mul_overflows_iff case_prod_beta)

text \<open>A call of a hook, with the pointer it returns.\<close>

fun hook_call :: "'l ext \<Rightarrow> heap_op \<Rightarrow> 'l world \<Rightarrow> ptr \<times> 'l world" where
  "hook_call X (OP_malloc tid lr sz) w = malloc X tid lr sz w"
| "hook_call X (OP_calloc tid lr n sz) w = calloc X tid lr n sz w"
| "hook_call X (OP_realloc tid lr p sz) w = realloc X tid lr p sz w"
| "hook_call X (OP_free tid lr p) w = (NULL, free X tid lr p w)"

text \<open>The application never hands a record of the tracer back.\<close>

fun released :: "heap_op \<Rightarrow> ptr" where
  "released (OP_realloc _ _ p _) = p"
| "released (OP_free _ _ p) = p"
| "released _ = NULL"

section \<open>What recording leaves alone\<close>

definition heap_of :: "'l world \<Rightarrow> 'l \<times> memory" where
  "heap_of w = (g_ext w, g_mem w)"

lemma heap_of_upd [simp]:
  "heap_of (upd_entry a f w) = heap_of w" "heap_of (upd_state h w) = heap_of w"
  "heap_of (upd_slot i g w) = heap_of w" "heap_of (w\<lparr>g_state := s\<rparr>) = heap_of w"
  "heap_of (w\<lparr>g_hung := b\<rparr>) = heap_of w"
  "heap_of (mtt_stripe_lock p w) = heap_of w" "heap_of (mtt_stripe_unlock p w) = heap_of w"
  "heap_of (pool_lock j w) = heap_of w" "heap_of (pool_unlock j w) = heap_of w"
  "heap_of (write_link lk v w) = heap_of w"
  by (simp_all add: heap_of_def upd_entry_def mtt_stripe_lock_def mtt_stripe_unlock_def bucket_lock_def
      bucket_unlock_def pool_lock_def pool_unlock_def)
    (cases lk; simp add: write_link_def upd_entry_def)+

lemma quiet_heap: "quiet w w' \<Longrightarrow> heap_of w' = heap_of w"
  by (simp add: quiet_def heap_of_def)

lemma pool_take_heap: "pool_take i w = (e, w') \<Longrightarrow> heap_of w' = heap_of w"
  by (auto simp: pool_take_def Let_def split: if_splits)

lemma pool_scan_heap: "pool_scan idx ks w = (e, w') \<Longrightarrow> heap_of w' = heap_of w"
proof (induction ks arbitrary: w)
  case (Cons k ks)
  let ?j = "(idx + k) mod MTT_LOCK_STRIPES"
  obtain a w1 where t: "pool_take ?j (pool_lock ?j w) = (a, w1)" by fastforce
  show ?case
    using Cons.prems Cons.IH [of w] Cons.IH [of "pool_unlock ?j w1"] pool_take_heap [OF t]
    by (auto simp: Let_def t split: if_splits)
qed simp

lemma capture_heap: "e \<noteq> NULL \<Longrightarrow> heap_of (mtt_capture_stack X tid e w) = heap_of w"
  using capture_stack_frame(1) [of e w X tid] by (auto simp: only_frames_def heap_of_def)

lemma entry_new_heap:
  assumes "mtt_entry_new X tid p sz w = (e, w')" "s_pool (g_state w) \<noteq> NULL"
  shows "heap_of w' = heap_of w"
proof -
  let ?i = "stripe_at w p"
  obtain a w1 where t: "pool_take ?i (pool_lock ?i w) = (a, w1)" by fastforce
  obtain b w2 where b: "(if a = NULL then pool_scan ?i [1..<MTT_LOCK_STRIPES] (pool_unlock ?i w1)
      else (a, pool_unlock ?i w1)) = (b, w2)"
    by fastforce
  have h: "heap_of w2 = heap_of w"
    using b pool_scan_heap [of ?i _ "pool_unlock ?i w1" b w2] pool_take_heap [OF t] by (auto split: if_splits)
  have "mtt_entry_new X tid p sz w =
      (if b = NULL then (NULL, w2)
       else (b, mtt_capture_stack X tid b (upd_entry b (\<lambda>_. init_entry p sz w2) w2)))"
    using assms(2) t b by (simp add: mtt_entry_new_def Let_def)
  then show ?thesis using assms(1) h by (auto simp: capture_heap split: if_splits)
qed

lemma pool_return_heap: "heap_of (pool_return e w) = heap_of w"
  by (simp add: pool_return_def Let_def)

lemma entry_ops_heap:
  "heap_of (mtt_entry_add e w) = heap_of w"
  "s_pool (g_state w) \<noteq> NULL \<Longrightarrow> heap_of (mtt_entry_discard X e w) = heap_of w"
  "s_pool (g_state w) \<noteq> NULL \<Longrightarrow> heap_of (mtt_entry_remove X p w) = heap_of w"
  "mtt_entry_find p w = (e, w') \<Longrightarrow> heap_of w' = heap_of w"
proof -
  have pool: "s_pool (g_state (write_link lk v u)) = s_pool (g_state u)" for lk v and u :: "'l world"
    by (cases lk) (simp_all add: write_link_def upd_entry_def)
  show "heap_of (mtt_entry_add e w) = heap_of w"
    by (auto simp: mtt_entry_add_def Let_def split: option.split)
  show "s_pool (g_state w) \<noteq> NULL \<Longrightarrow> heap_of (mtt_entry_discard X e w) = heap_of w"
    by (simp add: mtt_entry_discard_def pool_return_heap)
  show "s_pool (g_state w) \<noteq> NULL \<Longrightarrow> heap_of (mtt_entry_remove X p w) = heap_of w"
    by (auto simp: mtt_entry_remove_def Let_def pool_return_heap pool split: option.split)
  show "mtt_entry_find p w = (e, w') \<Longrightarrow> heap_of w' = heap_of w"
    by (auto simp: mtt_entry_find_def Let_def split: option.splits if_splits)
qed

lemma record_alloc_heap: "heap_of (record_alloc always sz e w) = heap_of w"
  by (simp add: record_alloc_def Let_def entry_ops_heap(1))

lemma insert_heap:
  assumes "s_pool (g_state w) \<noteq> NULL"
  shows "heap_of (insert_entry X always p sz e w) = heap_of w" "heap_of (insert_moved X always p sz e w) = heap_of w"
  using assms by (simp_all add: insert_entry_def insert_moved_def Let_def record_alloc_heap entry_ops_heap(2)
      count_overcap_def)

lemma new_pool: "mtt_entry_new X tid p sz w = (e, w') \<Longrightarrow> s_pool (g_state w') = s_pool (g_state w)"
  using entry_new_step [of X tid p sz w e w'] table_only_fields(8) by (auto simp: table_step_def)

lemma track_block_heap:
  assumes "s_pool (g_state w) \<noteq> NULL"
  shows "heap_of (track_block X tid always p sz w) = heap_of w"
proof -
  obtain e v where n: "mtt_entry_new X tid p sz w = (e, v)" by fastforce
  show ?thesis
    using entry_new_heap [OF n assms] insert_heap(1) [of v X always p sz e] new_pool [OF n] assms
    by (simp add: track_block_def n)
qed

lemma retrack_heap:
  assumes "s_pool (g_state w) \<noteq> NULL"
  shows "heap_of (retrack X tid always q sz w) = heap_of w"
proof -
  obtain oc s where c: "mtt_is_over_capacity (g_state w) = (oc, s)" by fastforce
  have p: "s_pool s \<noteq> NULL" using capacity_frame [OF c] assms by (simp add: same_books_def table_fields_def)
  obtain e v where n: "mtt_entry_new X tid q sz (w\<lparr>g_state := s\<rparr>) = (e, v)" by fastforce
  show ?thesis
    using entry_new_heap [OF n] insert_heap(2) [of v X always q sz e] new_pool [OF n] p
    by (simp add: retrack_def c n Let_def)
qed

lemma untrack_heap:
  assumes "running k w S" "p \<noteq> NULL" "\<And>sz s. s_pool (forget sz s) = s_pool s" "\<And>r v s. s_pool (note r v s) = s_pool s"
  shows "heap_of (untrack X forget note p w) = heap_of w"
proof -
  obtain e v where f: "mtt_entry_find p (mtt_stripe_lock p w) = (e, v)" by fastforce
  have "tracked (mtt_stripe_lock p w) S {}"
    using books_tracked [of "mtt_stripe_lock p w" S "{}"] running_books [OF assms(1)] by simp
  then have v: "v = mtt_stripe_lock p w" using tracked_find [OF _ assms(2) f] by blast
  have "s_pool (g_state w) \<noteq> NULL" using assms(1) by (simp add: running_def)
  then show ?thesis
    using f by (simp add: untrack_def Let_def v entry_ops_heap(3) assms(3,4))
qed

lemma forget_pool [simp]:
  "s_pool (forget_bytes sz s) = s_pool s" "s_pool (forget_bytes_moved sz s) = s_pool s"
  "s_pool (no_note r v s) = s_pool s" "s_pool (note_lifetime r v s) = s_pool s"
  by (simp_all add: forget_bytes_def forget_bytes_moved_def no_note_def note_lifetime_def Let_def)

text \<open>The calls into the C library.\<close>

lemma call_malloc_heap:
  "raw_malloc w = F_LIBC \<Longrightarrow>
     call_malloc X n w = (p, w') \<longleftrightarrow> (\<exists>l. x_malloc X (g_ext w) n = (p, l) \<and> w' = w\<lparr>g_ext := l\<rparr>)"
  by (auto simp: call_malloc_def split: prod.splits)

lemma realloc_raw_heap:
  assumes "running k w S" "p \<noteq> NULL" "raw_realloc w = F_LIBC" "realloc_raw X tid forget always p sz w = (q, w')"
    and "\<And>sz s. s_pool (forget sz s) = s_pool s" "exact_forget forget"
  shows "(q, snd (heap_of w'), fst (heap_of w')) = x_realloc X (g_ext w) (g_mem w) p sz"
proof -
  let ?v = "mtt_stripe_lock p w"
  obtain e v where f: "mtt_entry_find p ?v = (e, v)" by fastforce
  have "tracked ?v S {}" using books_tracked [of ?v S "{}"] running_books [OF assms(1)] by simp
  then have v: "v = ?v" using tracked_find [OF _ assms(2) f] by blast
  define u where "u = mtt_stripe_unlock p ?v"
  have ku: "keeps w u"
    unfolding u_def by (rule stripe_keeps [OF keeps_refl]) (use assms(1) in \<open>simp add: running_def\<close>)
  have u: "running k u S"
    by (rule running_keeps [OF assms(1) ku]) (use running_books [OF assms(1)] in \<open>simp add: u_def\<close>)
  obtain a x where c: "call_realloc X p sz u = (a, x)" by fastforce
  have x: "running k x S" by (rule call_realloc_running [OF u c])
  have "heap_of u = heap_of w" by (simp add: u_def)
  then have hu: "g_ext u = g_ext w" "g_mem u = g_mem w" by (simp_all add: heap_of_def)
  have "raw_realloc u = F_LIBC" using ku assms(3) by (simp add: keeps_def)
  then have r: "(a, snd (heap_of x), fst (heap_of x)) = x_realloc X (g_ext w) (g_mem w) p sz"
    using c by (auto simp: call_realloc_def hu heap_of_def split: prod.splits)
  define y where "y = untrack X forget no_note p x"
  have y: "running k y (pop p S)" unfolding y_def by (rule untrack_running [OF x assms(2,6) lifetime_notes(1)])
  have hy: "heap_of y = heap_of x"
    unfolding y_def by (rule untrack_heap [OF x assms(2)]) (simp_all add: assms(5))
  have "s_pool (g_state y) \<noteq> NULL" using y by (simp add: running_def)
  note hr = retrack_heap [OF this, of X tid always a sz]
  have "q = a" "w' = (if a = NULL \<or> e = NULL then x else retrack X tid always a sz y)"
    using assms(4) by (auto simp: realloc_raw_def Let_def f v c y_def u_def [symmetric] split: if_splits)
  then show ?thesis using r hr hy by (cases "a = NULL \<or> e = NULL") simp_all
qed

section \<open>The simulation\<close>

text \<open>The tracker runs, and every allocator pointer is the C library's.\<close>

definition tracing :: "'l world \<Rightarrow> bool" where
  "tracing w \<longleftrightarrow> (\<exists>k S. running k w S) \<and>
     raw_malloc w = F_LIBC \<and> raw_free w = F_LIBC \<and> raw_realloc w = F_LIBC"

lemma quiet_tracing: "quiet w w' \<Longrightarrow> tracing w \<Longrightarrow> tracing w'"
  using quiet_running by (fastforce simp: tracing_def quiet_def keeps_def)

lemma tracing_init: "tracing w \<Longrightarrow> quiet w (mtt_ensure_init X tid w)"
  using ensure_init_quiet by (auto simp: tracing_def)

lemma tracing_begin: "tracing w \<Longrightarrow> hook_begin X tid w = (h, w') \<Longrightarrow> quiet w w'"
  using hook_begin_quiet by (auto simp: tracing_def)

text \<open>The request that reaches the C library, and its effect.\<close>

lemma through_heap:
  assumes "tracing w"
  shows "malloc_through X sz w = (p, w') \<Longrightarrow> (p, heap_of w') = asked_call X (OP_malloc t r sz) (heap_of w)"
    "call_malloc X sz w = (p, w') \<Longrightarrow> (p, heap_of w') = asked_call X (OP_malloc t r sz) (heap_of w)"
    "heap_of (free_through X q w) = (x_free X (g_ext w) q, g_mem w)"
    "heap_of (call_free X q w) = (x_free X (g_ext w) q, g_mem w)"
    "calloc_through X n sz w = (p, w') \<Longrightarrow> (p, heap_of w') = asked_call X (OP_calloc t r n sz) (heap_of w)"
    "realloc_through X q sz w = (p, w') \<Longrightarrow> q \<noteq> NULL \<Longrightarrow> sz \<noteq> 0 \<Longrightarrow>
       (p, heap_of w') = asked_call X (OP_realloc t r q sz) (heap_of w)"
proof -
  have r: "raw_malloc w = F_LIBC" "raw_free w = F_LIBC" "raw_realloc w = F_LIBC" using assms by (simp_all add: tracing_def)
  obtain l m where h: "heap_of w = (l, m)" "g_ext w = l" "g_mem w = m" by (simp add: heap_of_def)
  show m: "(p, heap_of w') = asked_call X (OP_malloc t r sz) (heap_of w)" if "call_malloc X sz w = (p, w')" for p w' sz
    using that r h by (simp add: call_malloc_def case_prod_beta) (auto simp: heap_of_def)
  show "(p, heap_of w') = asked_call X (OP_malloc t r sz) (heap_of w)" if "malloc_through X sz w = (p, w')"
    using that r m by (simp add: malloc_through_def)
  show f: "heap_of (call_free X q w) = (x_free X (g_ext w) q, g_mem w)"
    using r by (simp add: call_free_def heap_of_def)
  show "heap_of (free_through X q w) = (x_free X (g_ext w) q, g_mem w)"
    using r f by (simp add: free_through_def)
  show "(p, heap_of w') = asked_call X (OP_calloc t r n sz) (heap_of w)" if "calloc_through X n sz w = (p, w')"
  proof (cases "mul_overflows n sz")
    case True
    then show ?thesis using that r h by (simp add: calloc_through_def)
  next
    case False
    obtain a v where c: "call_malloc X (n * sz) w = (a, v)" by fastforce
    show ?thesis using m [OF c] that r h c False
      by (auto simp: calloc_through_def heap_of_def case_prod_beta Let_def)
  qed
  show "(p, heap_of w') = asked_call X (OP_realloc t r q sz) (heap_of w)"
    if "realloc_through X q sz w = (p, w')" "q \<noteq> NULL" "sz \<noteq> 0"
    using that r h by (simp add: realloc_through_def call_realloc_def case_prod_beta) (auto simp: heap_of_def)
qed

lemma malloc_entered_heap:
  assumes "tracing w" "malloc_entered X tid i lr sz w = (p, w')"
  shows "(p, heap_of w') = asked_call X (OP_malloc t r sz) (heap_of w)"
proof -
  define v where "v = mtt_ensure_init X tid w"
  have qv: "quiet w v" unfolding v_def by (rule tracing_init [OF assms(1)])
  have v: "tracing v" "heap_of v = heap_of w" using quiet_tracing [OF qv assms(1)] quiet_heap [OF qv] by simp_all
  obtain q u where m: "call_malloc X sz v = (q, u)" by fastforce
  have u: "(q, heap_of u) = asked_call X (OP_malloc t r sz) (heap_of w)"
    using through_heap(2) [OF v(1) m] v(2) by simp
  obtain b s where d: "track_decision sz (g_state u) = (b, s)" by fastforce
  define x where "x = u\<lparr>g_state := s\<rparr>"
  obtain k S where "running k v S" using v(1) by (auto simp: tracing_def)
  then have "running k x S" unfolding x_def by (rule decision_running(2) [OF call_malloc_running [OF _ m] d])
  then have "s_pool (g_state x) \<noteq> NULL" by (simp add: running_def)
  then have t: "heap_of (track_block X tid False q sz x) = heap_of u"
    by (simp add: track_block_heap) (simp add: x_def)
  have hx: "heap_of x = heap_of u" by (simp add: x_def)
  have "malloc_through X sz w = (p, w') \<or> sz = 0 \<and> call_malloc X 0 w = (p, w') \<or>
      p = q \<and> (w' = u \<or> w' = x \<or> w' = track_block X tid False q sz x)"
    using assms m d by (auto simp: malloc_entered_def Let_def v_def [symmetric] x_def tracing_def split: if_splits)
  then show ?thesis using u t hx through_heap(1) [OF assms(1)] through_heap(2) [OF assms(1)] by metis
qed

lemma malloc_heap:
  assumes "tracing w" "malloc X tid lr sz w = (p, w')"
  shows "(p, heap_of w') = asked_call X (OP_malloc t r sz) (heap_of w)"
proof -
  obtain d u where f: "first_call_diag X RF_malloc w = (d, u)" by fastforce
  note qu = first_call_quiet [OF f]
  note u = quiet_tracing [OF qu assms(1)]
  obtain h v where b: "hook_begin X tid u = (h, v)" by fastforce
  note qv = tracing_begin [OF u b]
  note v = quiet_tracing [OF qv u]
  have hv: "heap_of v = heap_of w" using quiet_heap [OF qu] quiet_heap [OF qv] by simp
  show ?thesis
  proof (cases h)
    case (HE_ENTERED i saved)
    obtain q x where e: "malloc_entered X tid i lr sz v = (q, x)" by fastforce
    have "p = q" "w' = hook_leave X tid i saved x" using assms(2) f b e HE_ENTERED by (simp_all add: malloc_def)
    then show ?thesis using malloc_entered_heap [OF v e, of t r] quiet_heap [OF hook_leave_quiet, of X tid i saved x] hv by simp
  qed (use assms(2) f b hv through_heap(1) [OF v, of X sz p w' t r] in \<open>auto simp: malloc_def\<close>)
qed

lemma free_heap:
  assumes "tracing w" "p \<noteq> NULL" "\<not> mtt_pool_contains p w"
  shows "heap_of (free X tid lr p w) = (x_free X (g_ext w) p, g_mem w)"
proof -
  obtain d u where f: "first_call_diag X RF_free w = (d, u)" by fastforce
  note qu = first_call_quiet [OF f]
  note u = quiet_tracing [OF qu assms(1)]
  have np: "\<not> mtt_pool_contains p u" using assms(3) qu by (simp add: mtt_pool_contains_def quiet_def)
  obtain h v where b: "hook_begin X tid u = (h, v)" by fastforce
  note qv = tracing_begin [OF u b]
  note v = quiet_tracing [OF qv u]
  have hv: "g_ext v = g_ext w" "g_mem v = g_mem w" using qu qv by (simp_all add: quiet_def)
  show ?thesis
  proof (cases h)
    case (HE_ENTERED i saved)
    define x where "x = mtt_ensure_init X tid v"
    have qx: "quiet v x" unfolding x_def by (rule tracing_init [OF v])
    note x = quiet_tracing [OF qx v]
    obtain k S where S: "running k x S" using x by (auto simp: tracing_def)
    define y where "y = untrack X forget_bytes note_lifetime p x"
    have "running k y (pop p S)" unfolding y_def by (rule untrack_running [OF S assms(2)]) simp_all
    moreover have hy: "heap_of y = heap_of x" unfolding y_def by (rule untrack_heap [OF S assms(2)]) simp_all
    moreover have "raw_malloc y = F_LIBC \<and> raw_free y = F_LIBC \<and> raw_realloc y = F_LIBC"
      using x untrack_books [OF running_books [OF S] assms(2) exact_forgets(1) lifetime_notes(2), of X] S
      by (simp add: tracing_def y_def keeps_def running_def)
    ultimately have y: "tracing y" "g_ext y = g_ext w" "g_mem y = g_mem w"
      using qx hv by (auto simp: tracing_def quiet_def heap_of_def)
    have "free_entered X tid i lr p v \<in> {free_through X p v, call_free X p x, call_free X p y}"
      using v by (auto simp: free_entered_def Let_def x_def y_def tracing_def)
    moreover have "g_ext x = g_ext w" "g_mem x = g_mem w" using qx hv by (simp_all add: quiet_def)
    ultimately have "heap_of (free_entered X tid i lr p v) = (x_free X (g_ext w) p, g_mem w)"
      using through_heap(3) [OF v, of X p] through_heap(4) [OF x, of X p] through_heap(4) [OF y(1), of X p] hv y(2,3) by auto
    then show ?thesis
      using f b np assms(2) HE_ENTERED by (simp add: free_def quiet_heap [OF hook_leave_quiet])
  qed (use f b np assms(2) hv through_heap(3) [OF v, of X p] in \<open>auto simp: free_def\<close>)
qed

lemma calloc_heap:
  assumes "tracing w" "calloc X tid lr n sz w = (p, w')"
  shows "(p, heap_of w') = asked_call X (OP_calloc t r n sz) (heap_of w)"
proof -
  obtain d u where f: "first_call_diag X RF_calloc w = (d, u)" by fastforce
  note qu = first_call_quiet [OF f]
  note u = quiet_tracing [OF qu assms(1)]
  obtain e v where s: "hook_slot X tid u = (e, v)" by fastforce
  note qv = hook_slot_quiet [OF s]
  note v = quiet_tracing [OF qv u]
  have hv: "heap_of v = heap_of w" using quiet_heap [OF qu] quiet_heap [OF qv] by simp
  obtain k S where S: "running k v S" using v by (auto simp: tracing_def)
  obtain q x where m: "malloc X tid (x_hook_pc X) (n * sz) v = (q, x)" by fastforce
  have hx: "(q, g_ext x, g_mem x) = asked_call X (OP_malloc t r (n * sz)) (heap_of w)"
    using malloc_heap [OF v m, of t r] hv by (simp add: heap_of_def)
  have "calloc_through X n sz v = (p, w') \<or> mul_overflows n sz \<and> p = NULL \<and> w' = v \<or>
      \<not> mul_overflows n sz \<and> p = q \<and> w' = (if q \<noteq> NULL then x\<lparr>g_mem := memset q 0 (n * sz) (g_mem x)\<rparr> else x)"
    using assms(2) f s m S by (auto simp: calloc_def Let_def split: sum.splits if_splits)
  then show ?thesis
  proof (elim disjE conjE)
    assume "calloc_through X n sz v = (p, w')"
    then show ?thesis using through_heap(5) [OF v] hv by simp
  next
    assume "mul_overflows n sz" "p = NULL" "w' = v"
    then show ?thesis using hv by (cases "heap_of w") simp
  next
    assume "\<not> mul_overflows n sz" "p = q" "w' = (if q \<noteq> NULL then x\<lparr>g_mem := memset q 0 (n * sz) (g_mem x)\<rparr> else x)"
    then show ?thesis using hx by (cases "heap_of w") (auto simp: heap_of_def split: prod.splits)
  qed
qed

lemma realloc_heap:
  assumes "tracing w" "\<not> mtt_pool_contains p w" "realloc X tid lr p sz w = (q, w')"
  shows "(q, heap_of w') = asked_call X (OP_realloc t r p sz) (heap_of w)"
proof -
  obtain d u where f: "first_call_diag X RF_realloc w = (d, u)" by fastforce
  note qu = first_call_quiet [OF f]
  note u = quiet_tracing [OF qu assms(1)]
  have hu: "heap_of u = heap_of w" by (rule quiet_heap [OF qu])
  obtain h v where b: "hook_begin X tid u = (h, v)" by fastforce
  note qv = tracing_begin [OF u b]
  note v = quiet_tracing [OF qv u]
  have hv: "heap_of v = heap_of w" using hu quiet_heap [OF qv] by simp
  consider "p = NULL" | "p \<noteq> NULL" "sz = 0" | "p \<noteq> NULL" "sz \<noteq> 0" by blast
  then show ?thesis
  proof cases
    case 1
    then have "malloc X tid (x_hook_pc X) sz u = (q, w')" using assms(3) f by (simp add: realloc_def)
    then show ?thesis using malloc_heap [OF u] hu 1 by (cases "heap_of w") simp
  next
    case 2
    then have "q = NULL" "w' = free X tid (x_hook_pc X) p u" using assms(3) f by (simp_all add: realloc_def)
    moreover have "\<not> mtt_pool_contains p u" using assms(2) qu by (simp add: mtt_pool_contains_def quiet_def)
    ultimately show ?thesis using free_heap [OF u 2(1)] hu 2 by (simp add: heap_of_def)
  next
    case 3
    show ?thesis
    proof (cases h)
      case (HE_ENTERED i saved)
      obtain a x where e: "realloc_entered X tid i lr p sz v = (a, x)" by fastforce
      define y where "y = mtt_ensure_init X tid v"
      have qy: "quiet v y" unfolding y_def by (rule tracing_init [OF v])
      note y = quiet_tracing [OF qy v]
      have hy: "heap_of y = heap_of w" using quiet_heap [OF qy] hv by simp
      obtain k S where S: "running k y S" using y by (auto simp: tracing_def)
      have "realloc_through X p sz v = (a, x) \<or> realloc_through X p sz y = (a, x) \<or>
          realloc_raw X tid forget_bytes_moved False p sz y = (a, x)"
        using e v y by (auto simp: realloc_entered_def Let_def y_def [symmetric] tracing_def split: if_splits)
      then have "(a, heap_of x) = asked_call X (OP_realloc t r p sz) (heap_of w)"
      proof (elim disjE)
        assume "realloc_raw X tid forget_bytes_moved False p sz y = (a, x)"
        then have "(a, snd (heap_of x), fst (heap_of x)) = x_realloc X (g_ext y) (g_mem y) p sz"
          using realloc_raw_heap [OF S 3(1)] y by (simp add: tracing_def)
        then show ?thesis using 3 hy by (auto simp: heap_of_def split: prod.splits)
      qed (use through_heap(6) [OF v _ 3, of X a x t r] through_heap(6) [OF y _ 3, of X a x t r] hv hy in simp_all)
      moreover have "q = a" "w' = hook_leave X tid i saved x"
        using assms(3) f b e HE_ENTERED 3 by (simp_all add: realloc_def)
      ultimately show ?thesis by (simp add: quiet_heap [OF hook_leave_quiet])
    qed (use assms(3) f b 3 hv through_heap(6) [OF v _ 3, of X q w' t r] in \<open>simp_all add: realloc_def\<close>)
  qed
qed

text \<open>Sequences of calls, with the pointers they return.\<close>

fun hook_run :: "'l ext \<Rightarrow> heap_op list \<Rightarrow> 'l world \<Rightarrow> ptr list \<times> 'l world" where
  "hook_run X [] w = ([], w)"
| "hook_run X (c # cs) w =
     (let (p, w) = hook_call X c w; (ps, w) = hook_run X cs w in (p # ps, w))"

fun plain_run :: "'l ext \<Rightarrow> heap_op list \<Rightarrow> 'l \<times> memory \<Rightarrow> ptr list \<times> 'l \<times> memory" where
  "plain_run X [] h = ([], h)"
| "plain_run X (c # cs) h =
     (let (p, h) = plain_call X c h; (ps, h) = plain_run X cs h in (p # ps, h))"

lemma hook_call_step: "snd (hook_call X c w) = hooks.heap_step X c w"
  by (cases c) simp_all

lemma hook_run_fold: "snd (hook_run X cs w) = fold (hooks.heap_step X) cs w"
  by (induction cs arbitrary: w) (simp_all add: case_prod_beta hook_call_step)

lemma hook_call_heap:
  assumes "tracing w" "\<not> mtt_pool_contains (released c) w" "hook_call X c w = (p, w')"
  shows "asked_call X c (heap_of w) = (p, heap_of w')"
proof (cases c)
  case (OP_free tid lr q)
  show ?thesis
  proof (cases "q = NULL")
    case True
    obtain d u where f: "first_call_diag X RF_free w = (d, u)" by fastforce
    show ?thesis using assms(3) OP_free True f quiet_heap [OF first_call_quiet [OF f]]
      by (auto simp: free_def heap_of_def)
  next
    case False
    then show ?thesis using assms OP_free free_heap [OF assms(1) False, of X tid lr] by (auto simp: heap_of_def)
  qed
qed (use assms malloc_heap calloc_heap realloc_heap in fastforce)+

lemma pool_contains_running:
  "running k w S \<Longrightarrow> running k w' S' \<Longrightarrow> mtt_pool_contains p w' = mtt_pool_contains p w"
  by (auto simp: running_def mtt_pool_contains_def setup_of_def Let_def)

lemma hook_run_heap:
  assumes laws: "libc_laws X" and "running k w S" "raw_malloc w = F_LIBC" "raw_free w = F_LIBC" "raw_realloc w = F_LIBC"
    and "live_bytes S + sum_list (map requested cs) < 2 ^ 64"
    and "\<forall>c \<in> set cs. \<not> mtt_pool_contains (released c) w" "hook_run X cs w = (ps, w')"
  shows "plain_run X cs (heap_of w) = (ps, heap_of w')"
  using assms(2-)
proof (induction cs arbitrary: w S ps)
  case (Cons c cs)
  obtain p u where c: "hook_call X c w = (p, u)" by fastforce
  obtain qs v where r: "hook_run X cs u = (qs, v)" by fastforce
  have e: "ps = p # qs" "w' = v" using Cons.prems(7) c r by auto
  have "tracing w" using Cons.prems(1-4) by (auto simp: tracing_def)
  then have h: "plain_call X c (heap_of w) = (p, heap_of u)"
    unfolding plain_asked [OF laws] using hook_call_heap Cons.prems(6) c by (metis list.set_intros(1))
  have u': "u = hooks.heap_step X c w" using hook_call_step [of X c w] c by simp
  obtain T where T: "running k u T" "live_bytes T \<le> live_bytes S + requested c"
    using hooks.step_running [OF Cons.prems(1), of c X] Cons.prems(5) u' by auto
  have raws: "raw_malloc u = F_LIBC" "raw_free u = F_LIBC" "raw_realloc u = F_LIBC"
    using T(1) Cons.prems(1-4) by (auto simp: running_def setup_of_def)
  have "plain_run X cs (heap_of u) = (qs, heap_of w')"
    by (rule Cons.IH [OF T(1) raws]) (use e T(2) Cons.prems(5,6) r pool_contains_running [OF Cons.prems(1) T(1)] in auto)
  then show ?case using h e by simp
qed simp

section \<open>A block on the books\<close>

lemma new_available:
  assumes "tracked w S H" "s_pool (g_state w) \<noteq> NULL" "mtt_entry_new X tid p sz w = (e, w')"
    and "s_pool_used (g_state w) < s_pool_capacity (g_state w)"
    and "unat (s_pool_capacity (g_state w)) * unat sizeof_mtt_entry \<le> 2 ^ 64"
  shows "e \<noteq> NULL"
proof
  assume e: "e = NULL"
  obtain bs fs where u: "pool_unlocked w" and t: "table_inv w bs fs H" using assms(1) by (rule tracked_elim)
  have "nodes fs = {}" using entry_new_NULL_iff [OF t u assms(2,3)] e by simp
  moreover have "unat (s_pool_capacity (g_state w)) * 560 \<le> 2 ^ 64" using assms(5) by (simp add: sizeof_mtt_entry_def)
  ultimately have "unat (s_pool_used (g_state w)) = unat (s_pool_capacity (g_state w))"
    using pool_partition [OF t assms(2)] by simp
  then show False using assms(4) by (simp add: word_less_nat_alt)
qed

lemma track_block_exact:
  assumes "running k w S" "sz \<noteq> 0" "live_bytes S + unat sz < 2 ^ 64" "s_entry_count (g_state w) < MTT_MAX_ENTRIES"
    and "s_pool_used (g_state w) < s_pool_capacity (g_state w)"
    and "unat (s_pool_capacity (g_state w)) * unat sizeof_mtt_entry \<le> 2 ^ 64"
  shows "running k (track_block X tid always p sz w) (push p sz S) \<and> keeps w (track_block X tid always p sz w)"
proof -
  have b: "books w S {}" "s_pool (g_state w) \<noteq> NULL" "locks_free w" using assms(1) by (simp_all add: running_def)
  obtain e v where n: "mtt_entry_new X tid p sz w = (e, v)" by fastforce
  have e: "e \<noteq> NULL" by (rule new_available [OF books_tracked [OF b(1)] b(2) n assms(5,6)])
  note nb = new_books [OF b(1,2) n]
  have v: "books v S {e}" "e_ptr (g_entries v e) = p" "e_size (g_entries v e) = sz" using nb(3) [OF e] by simp_all
  have "s_entry_count (g_state v) = s_entry_count (g_state w)"
    using tracked_count(2) [OF books_tracked [OF v(1)]] tracked_count(2) [OF books_tracked [OF b(1)]] by simp
  then have "\<not> MTT_MAX_ENTRIES \<le> s_entry_count (g_state v)" using assms(4) by simp
  then have "books (insert_entry X always p sz e v) (push p sz S) {}" "keeps v (insert_entry X always p sz e v)"
    using insert_entry_books [OF v(1) _ v(2,3) assms(2,3) locks_free_keeps [OF nb(1) b(3)], of X always] by simp_all
  then show ?thesis
    using running_keeps [OF assms(1) keeps_trans [OF nb(1)]] keeps_trans [OF nb(1)] n e by (simp add: track_block_def)
qed

lemma decision_keeps:
  assumes "track_decision sz (g_state w) = (b, s)"
  shows "keeps w (w\<lparr>g_state := s\<rparr>)"
proof -
  obtain t u where t: "mtt_should_track sz (g_state w) = (t, u)" by fastforce
  obtain c where c: "mtt_is_over_capacity u = (c, s)" using assms t by (auto simp: track_decision_def split: prod.splits)
  show ?thesis
    using sampling_frame [OF t] capacity_frame [OF c] by (simp add: keeps_def same_books_def table_fields_def)
qed

text \<open>What the decisions of a hook read stays the same up to the decision.\<close>

lemma quiet_reads:
  assumes "quiet w v"
  shows "mtt_is_lr_in_blacklist lr v = mtt_is_lr_in_blacklist lr w" "mtt_is_startup_phase v = mtt_is_startup_phase w"
    "g_state v = g_state w"
  using assms by (simp_all add: quiet_def keeps_def env_of_def mtt_is_lr_in_blacklist_def mtt_is_startup_phase_def)

lemma decision_room:
  assumes "track_decision sz s = (True, s')"
  shows "s_entry_count s' < MTT_MAX_ENTRIES \<and> s_entry_count s' = s_entry_count s \<and>
    s_pool_used s' = s_pool_used s \<and> s_pool_capacity s' = s_pool_capacity s"
proof -
  obtain t u where t: "mtt_should_track sz s = (t, u)" by fastforce
  have u: "\<not> s_entry_count u \<ge> MTT_MAX_ENTRIES" "s' = u"
    using assms t by (auto simp: track_decision_def mtt_is_over_capacity_def split: if_splits)
  then show ?thesis using sampling_frame [OF t] by (simp add: same_books_def table_fields_def not_le)
qed

lemma malloc_entered_exact:
  assumes "running k w S" "\<not> mtt_is_lr_in_blacklist lr w" "t_tool_internal (g_threads w i) = 0"
    and "\<not> mtt_is_startup_phase w" "\<not> s_disabled (g_state w)" "raw_malloc w = F_LIBC"
    and "fst (track_decision sz (g_state w))" "s_pool_used (g_state w) < s_pool_capacity (g_state w)"
    and "unat (s_pool_capacity (g_state w)) * unat sizeof_mtt_entry \<le> 2 ^ 64"
    and "sz \<noteq> 0" "live_bytes S + unat sz < 2 ^ 64"
    and m: "malloc_entered X tid i lr sz w = (p, w')" "p \<noteq> NULL"
  shows "running k w' (push p sz S) \<and> keeps w w'"
proof -
  define v where "v = mtt_ensure_init X tid w"
  have qv: "quiet w v" unfolding v_def by (rule ensure_init_quiet [OF assms(1)])
  note rd = quiet_reads [OF qv]
  have v: "running k v S" by (rule quiet_running [OF qv assms(1)])
  obtain q u where c: "call_malloc X sz v = (q, u)" by fastforce
  have u: "running k u S" "g_state u = g_state w" using call_malloc_running [OF v c] call_malloc_books(4) [OF c] rd(3) by simp_all
  obtain s where d: "track_decision sz (g_state u) = (True, s)" using assms(7) u(2) by (metis prod.collapse)
  define x where "x = u\<lparr>g_state := s\<rparr>"
  have x: "running k x S" unfolding x_def by (rule decision_running(2) [OF u(1) d])
  have eq: "p = q" "w' = track_block X tid False q sz x"
    using m assms(2-6,10) rd c d by (auto simp: malloc_entered_def Let_def v_def [symmetric] x_def split: if_splits)
  have "s_entry_count (g_state x) < MTT_MAX_ENTRIES" "s_pool_used (g_state x) = s_pool_used (g_state w)"
    "s_pool_capacity (g_state x) = s_pool_capacity (g_state w)"
    using decision_room [OF d] u(2) by (auto simp: x_def)
  then have "running k w' (push p sz S) \<and> keeps x w'"
    unfolding eq by (intro track_block_exact [OF x assms(10,11)]) (use assms(8,9) in simp_all)
  moreover have "keeps w x"
    unfolding x_def using qv call_malloc_books(2) [OF c] decision_keeps [OF d]
    by (metis keeps_trans quiet_def)
  ultimately show ?thesis using keeps_trans by blast
qed

text \<open>The slot that a call runs with when it is not nested: it entered the hook.\<close>

definition enters :: "'l ext \<Rightarrow> int \<Rightarrow> 'l world \<Rightarrow> bool" where
  "enters X tid w \<longleftrightarrow>
     (case hook_begin X tid w of (HE_ENTERED i _, v) \<Rightarrow> t_tool_internal (g_threads v i) = 0 | _ \<Rightarrow> False)"

lemma malloc_exact:
  assumes "running k w S" "enters X tid (snd (first_call_diag X RF_malloc w))" "\<not> mtt_is_lr_in_blacklist lr w"
    and "\<not> mtt_is_startup_phase w" "\<not> s_disabled (g_state w)" "raw_malloc w = F_LIBC"
    and "fst (track_decision sz (g_state w))" "s_pool_used (g_state w) < s_pool_capacity (g_state w)"
    and "unat (s_pool_capacity (g_state w)) * unat sizeof_mtt_entry \<le> 2 ^ 64"
    and "sz \<noteq> 0" "live_bytes S + unat sz < 2 ^ 64"
    and m: "malloc X tid lr sz w = (p, w')" "p \<noteq> NULL"
  shows "running k w' (push p sz S) \<and> keeps w w'"
proof -
  obtain d u where f: "first_call_diag X RF_malloc w = (d, u)" by fastforce
  note qu = first_call_quiet [OF f]
  have u: "running k u S" by (rule quiet_running [OF qu assms(1)])
  obtain i saved v where b: "hook_begin X tid u = (HE_ENTERED i saved, v)" and ti: "t_tool_internal (g_threads v i) = 0"
    using assms(2) f by (auto simp: enters_def split: prod.splits hook_entry.splits)
  have qv: "quiet w v" by (rule quiet_trans [OF qu hook_begin_quiet [OF b u]])
  have v: "running k v S" by (rule quiet_running [OF qv assms(1)])
  note rd = quiet_reads [OF qv]
  have raw: "raw_malloc v = F_LIBC" using qv assms(6) by (simp add: quiet_def keeps_def)
  obtain q x where e: "malloc_entered X tid i lr sz v = (q, x)" by fastforce
  have eq: "p = q" "w' = hook_leave X tid i saved x" using m(1) f b e by (simp_all add: malloc_def)
  have x: "running k x (push p sz S)" "keeps v x"
    using malloc_entered_exact [OF v _ ti _ _ raw _ _ _ assms(10,11) e] m(2) assms(3-5,7-9) rd eq by simp_all
  have l: "quiet x w'" unfolding eq by (rule hook_leave_quiet)
  have "keeps w w'" using qv x(2) l by (metis keeps_trans quiet_def)
  then show ?thesis using quiet_running [OF l x(1)] by simp
qed

lemma free_exact:
  assumes "running k w S" "p \<noteq> NULL" "\<not> mtt_pool_contains p w" "enters X tid (snd (first_call_diag X RF_free w))"
    and "\<not> mtt_is_lr_in_blacklist lr w" "\<not> s_disabled (g_state w)" "raw_free w = F_LIBC"
  shows "running k (free X tid lr p w) (pop p S)"
proof -
  obtain d u where f: "first_call_diag X RF_free w = (d, u)" by fastforce
  note qu = first_call_quiet [OF f]
  have u: "running k u S" by (rule quiet_running [OF qu assms(1)])
  have np: "\<not> mtt_pool_contains p u" using assms(3) quiet_reads(3) [OF qu] by (simp add: mtt_pool_contains_def)
  obtain i saved v where b: "hook_begin X tid u = (HE_ENTERED i saved, v)" and ti: "t_tool_internal (g_threads v i) = 0"
    using assms(4) f by (auto simp: enters_def split: prod.splits hook_entry.splits)
  have qv: "quiet w v" by (rule quiet_trans [OF qu hook_begin_quiet [OF b u]])
  have v: "running k v S" by (rule quiet_running [OF qv assms(1)])
  define x where "x = mtt_ensure_init X tid v"
  have qx: "quiet v x" unfolding x_def by (rule ensure_init_quiet [OF v])
  have x: "running k x S" by (rule quiet_running [OF qx v])
  have raw: "raw_free v = F_LIBC" using qv assms(7) by (simp add: quiet_def keeps_def)
  have "free_entered X tid i lr p v = call_free X p (untrack X forget_bytes note_lifetime p x)"
    using ti raw assms(5,6) quiet_reads [OF qv] quiet_reads(3) [OF qx] by (simp add: free_entered_def Let_def x_def [symmetric])
  then have "running k (free_entered X tid i lr p v) (pop p S)"
    using call_free_running [OF untrack_running [OF x assms(2) exact_forgets(1) lifetime_notes(2)]] by simp
  moreover have "free X tid lr p w = hook_leave X tid i saved (free_entered X tid i lr p v)"
    using f b np assms(2) by (simp add: free_def)
  ultimately show ?thesis using quiet_running [OF hook_leave_quiet] by simp
qed

section \<open>The slot of the thread\<close>

text \<open>The thread slots and the cached lookups.\<close>

definition slots_of :: "'l world \<Rightarrow> (nat \<Rightarrow> per_thread) \<times> (int \<Rightarrow> nat option) \<times> (int \<Rightarrow> int)" where
  "slots_of w = (g_threads w, g_tls_ctx w, g_tls_cached_tid w)"

lemma slots_of_upd [simp]:
  "slots_of (upd_entry a f w) = slots_of w" "slots_of (upd_state h w) = slots_of w"
  "slots_of (w\<lparr>g_state := s\<rparr>) = slots_of w" "slots_of (w\<lparr>g_hung := b\<rparr>) = slots_of w"
  "slots_of (w\<lparr>g_first_diag := d\<rparr>) = slots_of w" "slots_of (w\<lparr>g_ext := l\<rparr>) = slots_of w"
  "slots_of (mtt_stripe_lock p w) = slots_of w" "slots_of (mtt_stripe_unlock p w) = slots_of w"
  "slots_of (pool_lock j w) = slots_of w" "slots_of (pool_unlock j w) = slots_of w"
  "slots_of (write_link lk v w) = slots_of w"
  by (simp_all add: slots_of_def upd_entry_def mtt_stripe_lock_def mtt_stripe_unlock_def bucket_lock_def
      bucket_unlock_def pool_lock_def pool_unlock_def)
    (cases lk; simp add: write_link_def upd_entry_def)+

lemma slots_of_cong: "slots_of w' = slots_of w \<Longrightarrow> slot_ready tid i w' = slot_ready tid i w"
  by (simp add: slots_of_def slot_ready_def)

lemma pool_take_slots: "pool_take i w = (e, w') \<Longrightarrow> slots_of w' = slots_of w"
  by (auto simp: pool_take_def Let_def split: if_splits)

lemma pool_scan_slots: "pool_scan idx ks w = (e, w') \<Longrightarrow> slots_of w' = slots_of w"
proof (induction ks arbitrary: w)
  case (Cons k ks)
  let ?j = "(idx + k) mod MTT_LOCK_STRIPES"
  obtain a w1 where t: "pool_take ?j (pool_lock ?j w) = (a, w1)" by fastforce
  show ?case
    using Cons.prems Cons.IH [of w] Cons.IH [of "pool_unlock ?j w1"] pool_take_slots [OF t]
    by (auto simp: Let_def t split: if_splits)
qed simp

text \<open>A thread that owns its slot.\<close>

definition owns :: "int \<Rightarrow> nat \<Rightarrow> 'l world \<Rightarrow> bool" where
  "owns tid i w \<longleftrightarrow> slots_inv w \<and> tid \<noteq> 0 \<and> i < MTT_MAX_THREADS \<and> slot_ready tid i w"

lemma owns_cong: "slots_of w' = slots_of w \<Longrightarrow> owns tid i w' = owns tid i w"
  by (simp add: owns_def slots_inv_def slots_of_def slot_ready_def)

lemma capture_slots:
  assumes "e \<noteq> NULL" "owns tid i w"
  shows "slots_of (mtt_capture_stack X tid e w) = slots_of w"
proof -
  have g: "mtt_thread_get X tid w = (Some i, w)"
    using assms(2) by (intro thread_get_same) (simp_all add: owns_def slot_ready_def)
  have t: "g_threads (mtt_capture_stack X tid e w) = g_threads w" using capture_stack_frame(2) [OF assms(1), of X tid w] g by simp
  have "g_tls_ctx (mtt_capture_stack X tid e w) = g_tls_ctx w \<and>
      g_tls_cached_tid (mtt_capture_stack X tid e w) = g_tls_cached_tid w"
    by (rule capture_stack_shape [OF assms(1) g]) (simp_all add: upd_entry_def set_stack_def)
  with t show ?thesis by (simp add: slots_of_def)
qed

lemma entry_new_slots:
  assumes "mtt_entry_new X tid p sz w = (e, w')" "s_pool (g_state w) \<noteq> NULL" "owns tid i w"
  shows "slots_of w' = slots_of w"
proof -
  let ?i = "stripe_at w p"
  obtain a w1 where t: "pool_take ?i (pool_lock ?i w) = (a, w1)" by fastforce
  obtain b w2 where b: "(if a = NULL then pool_scan ?i [1..<MTT_LOCK_STRIPES] (pool_unlock ?i w1)
      else (a, pool_unlock ?i w1)) = (b, w2)"
    by fastforce
  have h: "slots_of w2 = slots_of w"
    using b pool_scan_slots [of ?i _ "pool_unlock ?i w1" b w2] pool_take_slots [OF t] by (auto split: if_splits)
  define w3 where "w3 = upd_entry b (\<lambda>_. init_entry p sz w2) w2"
  have h3: "slots_of w3 = slots_of w" using h by (simp add: w3_def)
  have "mtt_entry_new X tid p sz w = (if b = NULL then (NULL, w2) else (b, mtt_capture_stack X tid b w3))"
    using assms(2) t b by (simp add: mtt_entry_new_def Let_def w3_def)
  then show ?thesis
    using assms(1) h h3 capture_slots [of b tid i w3 X] owns_cong [OF h3] assms(3) by (auto split: if_splits)
qed

lemma insert_entry_slots:
  assumes "s_pool (g_state w) \<noteq> NULL"
  shows "slots_of (insert_entry X always p sz e w) = slots_of w"
proof -
  have r: "slots_of (pool_return e v) = slots_of v" for e and v :: "'a world"
    by (simp add: pool_return_def Let_def)
  have a: "slots_of (mtt_entry_add e v) = slots_of v" for e and v :: "'a world"
    by (auto simp: mtt_entry_add_def Let_def split: option.split)
  show ?thesis
    using assms by (simp add: insert_entry_def Let_def record_alloc_def mtt_entry_discard_def a r count_overcap_def)
qed

lemma track_block_slots:
  assumes "s_pool (g_state w) \<noteq> NULL" "owns tid i w"
  shows "slots_of (track_block X tid always p sz w) = slots_of w"
proof -
  obtain e v where n: "mtt_entry_new X tid p sz w = (e, v)" by fastforce
  show ?thesis
    using entry_new_slots [OF n assms] insert_entry_slots [of v X always p sz e] new_pool [OF n] assms(1)
    by (simp add: track_block_def n)
qed

lemma call_malloc_slots: "call_malloc X n w = (p, w') \<Longrightarrow> slots_of w' = slots_of w"
  by (simp add: call_malloc_def bootstrap_malloc_def slots_of_def Let_def case_prod_beta split: fnptr.splits if_splits)
    auto

lemma malloc_entered_slots:
  assumes "running k w S" "owns tid i w" "malloc_entered X tid i lr sz w = (p, w')"
  shows "slots_of w' = slots_of w"
proof -
  define v where "v = mtt_ensure_init X tid w"
  have v: "running k v S" unfolding v_def by (rule quiet_running [OF ensure_init_quiet assms(1)]) (rule assms(1))
  have sv: "slots_of v = slots_of w"
    using assms(1) by (simp add: v_def mtt_ensure_init_def running_def slots_of_def)
  obtain q u where m: "call_malloc X sz v = (q, u)" by fastforce
  have u: "running k u S" by (rule call_malloc_running [OF v m])
  obtain b s where d: "track_decision sz (g_state u) = (b, s)" by fastforce
  define x where "x = u\<lparr>g_state := s\<rparr>"
  have x: "running k x S" unfolding x_def by (rule decision_running(2) [OF u d])
  have sx: "slots_of u = slots_of w" "slots_of x = slots_of w" using call_malloc_slots [OF m] sv by (simp_all add: x_def)
  have t: "slots_of (track_block X tid False q sz x) = slots_of w"
    using track_block_slots [of x tid i X False q sz] x owns_cong [OF sx(2)] assms(2) sx(2) by (simp add: running_def)
  have "malloc_through X sz w = (p, w') \<or> w' = w \<or> call_malloc X 0 w = (p, w') \<or> w' = u \<or> w' = x \<or>
      w' = track_block X tid False q sz x"
    using assms(3) m d by (auto simp: malloc_entered_def Let_def v_def [symmetric] x_def split: if_splits)
  then show ?thesis using sx t call_malloc_slots [of X _ w p w'] by (auto simp: malloc_through_def split: if_splits)
qed

text \<open>The slot of a thread that is outside every hook.\<close>

definition outside :: "int \<Rightarrow> nat \<Rightarrow> 'l world \<Rightarrow> bool" where
  "outside tid i w \<longleftrightarrow> owns tid i w \<and> t_depth_inited (g_threads w i) = 0x2A \<and>
     t_hook_depth (g_threads w i) = 0 \<and> t_tool_internal (g_threads w i) = 0"

lemma first_call_slots: "first_call_diag X f w = (d, w') \<Longrightarrow> slots_of w' = slots_of w"
  by (auto simp: first_call_diag_def Let_def split: if_splits)

lemma outside_cong: "slots_of w' = slots_of w \<Longrightarrow> outside tid i w' = outside tid i w"
  using owns_cong by (auto simp: outside_def slots_of_def)

lemma hook_begin_outside:
  assumes "outside tid i w" "running k w S"
  shows "hook_begin X tid w = (HE_ENTERED i (t_in_hook (g_threads w i)),
    upd_slot i (\<lambda>t. t\<lparr>t_hook_depth := 1, t_in_hook := 1\<rparr>) w)"
proof -
  have r: "slot_ready tid i w" and d: "t_depth_inited (g_threads w i) = 0x2A" "t_hook_depth (g_threads w i) = 0"
    using assms(1) by (simp_all add: outside_def owns_def)
  have s: "hook_slot X tid w = (Inr i, w)"
    using d by (simp add: hook_slot_def hook_enter_ready [OF r] Let_def ready_cached [OF r] MTT_HOOK_DEPTH_MAX_def)
  have inc: "mtt_hook_inc_depth X tid w = upd_slot i (\<lambda>t. t\<lparr>t_hook_depth := 1\<rparr>) w"
    using hook_inc_ready [OF r d(1)] d(2) by (simp add: MTT_HOOK_DEPTH_MAX_def upd_slot_def)
  define x where "x = upd_slot i (\<lambda>t. t\<lparr>t_in_hook := 1\<rparr>) (upd_slot i (\<lambda>t. t\<lparr>t_hook_depth := 1\<rparr>) w)"
  have "quiet w x" unfolding x_def by (rule quiet_trans [OF quiet_upd(1) quiet_upd(1)])
  then have "mtt_resolve_raw_allocators X tid x = x" by (intro resolve_running) (rule quiet_running [OF _ assms(2)])
  then show ?thesis by (simp add: hook_begin_def s inc Let_def x_def)
qed

lemma outside_enters: "outside tid i w \<Longrightarrow> running k w S \<Longrightarrow> enters X tid w"
  using hook_begin_outside [of tid i w k S X] by (simp add: enters_def outside_def)

text \<open>Leaving puts the slot back as it was.\<close>

lemma hook_leave_slots:
  assumes "outside tid i w" "slots_of x = slots_of (upd_slot i (\<lambda>t. t\<lparr>t_hook_depth := 1, t_in_hook := 1\<rparr>) w)"
  shows "slots_of (hook_leave X tid i (t_in_hook (g_threads w i)) x) = slots_of w"
proof -
  have x: "g_threads x = (g_threads w)(i := (g_threads w i)\<lparr>t_hook_depth := 1, t_in_hook := 1\<rparr>)"
    "g_tls_ctx x = g_tls_ctx w" "g_tls_cached_tid x = g_tls_cached_tid w"
    using assms(2) by (simp_all add: slots_of_def)
  have r: "slot_ready tid i x"
    using assms(1) by (simp add: slot_ready_def x outside_def owns_def)
  have dec: "mtt_hook_dec_depth X tid x = upd_slot i (\<lambda>t. t\<lparr>t_hook_depth := t_hook_depth t - 1\<rparr>) x"
    by (rule hook_dec_ready [OF r]) (simp add: x)
  have "(g_threads w i)\<lparr>t_hook_depth := 0, t_in_hook := t_in_hook (g_threads w i)\<rparr> = g_threads w i"
    using assms(1) by (simp add: outside_def)
  then show ?thesis by (simp add: hook_leave_def dec slots_of_def x fun_upd_idem)
qed

lemma malloc_slots:
  assumes "running k w S" "outside tid i w" "malloc X tid lr sz w = (p, w')"
  shows "slots_of w' = slots_of w"
proof -
  obtain d u where f: "first_call_diag X RF_malloc w = (d, u)" by fastforce
  have u: "running k u S" by (rule quiet_running [OF first_call_quiet [OF f] assms(1)])
  have su: "slots_of u = slots_of w" by (rule first_call_slots [OF f])
  have o: "outside tid i u" using outside_cong [OF su] assms(2) by simp
  define v where "v = upd_slot i (\<lambda>t. t\<lparr>t_hook_depth := 1, t_in_hook := 1\<rparr>) u"
  have b: "hook_begin X tid u = (HE_ENTERED i (t_in_hook (g_threads u i)), v)"
    unfolding v_def by (rule hook_begin_outside [OF o u])
  have v: "running k v S" by (rule quiet_running [OF hook_begin_quiet [OF b u] u])
  have "owns tid i v" using o by (simp add: v_def outside_def owns_def)
  obtain q x where e: "malloc_entered X tid i lr sz v = (q, x)" by fastforce
  have "slots_of x = slots_of v" by (rule malloc_entered_slots [OF v \<open>owns tid i v\<close> e])
  then have "slots_of (hook_leave X tid i (t_in_hook (g_threads u i)) x) = slots_of u"
    using hook_leave_slots [OF o] by (simp add: v_def)
  then show ?thesis using assms(3) f b e su by (simp add: malloc_def)
qed

section \<open>A process for the examples\<close>

text \<open>A tracker in operation with a pool of two records and the bump allocator; thread 7 owns slot 0.\<close>

definition ready_world :: "ptr world" where
  "ready_world = pool_world\<lparr>raw_malloc := F_LIBC, raw_free := F_LIBC, raw_calloc := F_LIBC,
     raw_realloc := F_LIBC, g_raw_resolved := True, g_raw_ready := True,
     g_threads := (\<lambda>_. zero_slot)(0 := zero_slot\<lparr>t_tid := 7, t_depth_inited := 0x2A\<rparr>),
     g_tls_ctx := (\<lambda>_. None)(7 := Some 0), g_tls_cached_tid := (\<lambda>_. 0)(7 := 7),
     g_state := (g_state pool_world)\<lparr>s_initialized := True, s_pool_raw_size := 1120\<rparr>\<rparr>"

lemma ready_world_raw [simp]:
  "raw_malloc ready_world = F_LIBC" "raw_free ready_world = F_LIBC" "raw_realloc ready_world = F_LIBC"
  by (simp_all add: ready_world_def)

lemma ready_running: "running (setup_of ready_world) ready_world (\<lambda>_. [])"
proof -
  have "recs ready_world (\<lambda>_. []) {}"
    using pool_world_recs recs_fields [of ready_world pool_world] by (simp add: ready_world_def table_fields_def)
  then have "tracked ready_world (\<lambda>_. []) {}" unfolding tracked_def by (intro exI [of _ "\<lambda>_. []"]) simp
  then show ?thesis
    by (simp add: running_def books_def live_bytes_def locks_free_def)
      (simp add: ready_world_def pool_world_def zero_state_def)
qed

lemma live_bytes_empty [simp]: "live_bytes (\<lambda>_. []) = 0"
  by (simp add: live_bytes_def)

section \<open>Properties\<close>

text \<open>The bump allocator of the examples keeps the laws of the C library.\<close>

lemma demo_laws: "libc_laws demo_ext"
proof -
  have "demo_malloc l (n * s) = (NULL, l)" if "0x40000000 < unat n * unat s" "unat n * unat s < 2 ^ 64" for l n s
  proof -
    have "unat (n * s) = unat n * unat s" using that(2) by (simp add: unat_word_ariths)
    then have "n * s > 0x40000000" using that(1) by (simp add: word_less_nat_alt)
    then show ?thesis by (simp add: demo_malloc_def)
  qed
  then show ?thesis by (auto simp: libc_laws_def demo_ext_def Let_def case_prod_beta not_le)
qed



text \<open>C3. The books stay correct: after any sequence of calls by any threads the current usage is the sum
  of the recorded sizes, the number of records is the number of recorded allocations minus the recorded
  releases and equals the number of blocks in the table, the peak is at least the current usage, and the
  table still stores what it should.\<close>

theorem hooks_accounting:
  assumes "running k w S" "live_bytes S + sum_list (map requested cs) < 2 ^ 64"
    and w': "w' = snd (hook_run X cs w)"
  shows "\<exists>S'. tracked w' S' {} \<and> unat (mtt_get_current_usage w') = live_bytes S'
       \<and> s_entry_count (g_state w') = of_nat (live_count S')
       \<and> s_entry_count (g_state w') = mtt_get_alloc_count w' - mtt_get_free_count w'
       \<and> mtt_get_current_usage w' \<le> mtt_get_peak_usage w'
       \<and> live_bytes S' \<le> live_bytes S + sum_list (map requested cs)"
proof -
  obtain S' where r: "running k w' S'" "live_bytes S' \<le> live_bytes S + sum_list (map requested cs)"
    using hooks.run_running [OF assms(1,2)] by (auto simp: w' hook_run_fold)
  note b = running_books [OF r(1)]
  show ?thesis
    using b r(2) tracked_count(2) [OF books_tracked [OF b]]
    by (intro exI [of _ S']) (simp add: books_def mtt_get_current_usage_def mtt_get_alloc_count_def
        mtt_get_free_count_def mtt_get_peak_usage_def)
qed

theorem hooks_accounting_witness:
  "\<exists>S'. tracked (snd (hook_run demo_ext [OP_malloc 7 0x400000 24] ready_world)) S' {} \<and> live_bytes S' \<le> 24"
  using hooks_accounting [OF ready_running _ refl, of "[OP_malloc 7 0x400000 24]" demo_ext] by simp blast

text \<open>C8. Tracking a block and releasing it leaves no trace: when a thread that is outside every hook
  allocates a block that the sampling selects while the pool has a free record, the block is on the books
  with its size, the thread is outside every hook again, and releasing the block restores the books.\<close>

theorem malloc_free_recorded:
  assumes "running k w S" "outside tid i w" "\<not> mtt_is_lr_in_blacklist lr w"
    and "\<not> mtt_is_startup_phase w" "\<not> s_disabled (g_state w)" "raw_malloc w = F_LIBC" "raw_free w = F_LIBC"
    and "fst (track_decision sz (g_state w))" "s_pool_used (g_state w) < s_pool_capacity (g_state w)"
    and "unat (s_pool_capacity (g_state w)) * unat sizeof_mtt_entry \<le> 2 ^ 64"
    and "sz \<noteq> 0" "live_bytes S + unat sz < 2 ^ 64"
    and "malloc X tid lr sz w = (p, w')" "p \<noteq> NULL" "\<not> mtt_pool_contains p w"
  shows "running k w' (push p sz S) \<and> outside tid i w' \<and> running k (free X tid lr p w') S"
proof -
  obtain d u where f: "first_call_diag X RF_malloc w = (d, u)" by fastforce
  have "enters X tid u"
    using outside_enters [OF _ quiet_running [OF first_call_quiet [OF f] assms(1)]] outside_cong [OF first_call_slots [OF f]]
      assms(2) by blast
  then have "enters X tid (snd (first_call_diag X RF_malloc w))" using f by simp
  from malloc_exact [OF assms(1) this assms(3-6) assms(8-14)]
  have a: "running k w' (push p sz S)" "keeps w w'" by simp_all
  have o: "outside tid i w'" using outside_cong [OF malloc_slots [OF assms(1,2,13)]] assms(2) by simp
  obtain d' u' where f': "first_call_diag X RF_free w' = (d', u')" by fastforce
  have "enters X tid u'"
    using outside_enters [OF _ quiet_running [OF first_call_quiet [OF f'] a(1)]] outside_cong [OF first_call_slots [OF f']]
      o by blast
  then have e: "enters X tid (snd (first_call_diag X RF_free w'))" using f' by simp
  have "\<not> mtt_pool_contains p w'" "\<not> mtt_is_lr_in_blacklist lr w'" "\<not> s_disabled (g_state w')" "raw_free w' = F_LIBC"
    using assms(3,5,7,15) pool_contains_running [OF assms(1) a(1)] a(2)
    by (simp_all add: keeps_def env_of_def mtt_is_lr_in_blacklist_def)
  from free_exact [OF a(1) assms(14) this(1) e this(2-4)]
  have "running k (free X tid lr p w') (pop p (push p sz S))" .
  moreover have "pop p (push p sz S) = S" by (simp add: fun_eq_iff)
  ultimately show ?thesis using a(1) o by simp
qed

theorem malloc_free_recorded_witness:
  "outside 7 0 (snd (malloc demo_ext 7 0x400000 24 ready_world))
   \<and> running (setup_of ready_world) (free demo_ext 7 0x400000 0x10000000 (snd (malloc demo_ext 7 0x400000 24 ready_world)))
       (\<lambda>_. [])"
proof -
  obtain p w' where m: "malloc demo_ext 7 0x400000 24 ready_world = (p, w')" by fastforce
  have "tracing ready_world" using ready_running by (auto simp: tracing_def)
  from malloc_heap [OF this m] have p: "p = 0x10000000"
    by (simp add: heap_of_def ready_world_def pool_world_def demo_world_def demo_ext_def demo_malloc_def)
  have o: "outside 7 0 ready_world"
    by (simp add: outside_def owns_def slots_inv_def slot_ready_def ready_world_def zero_slot_def MTT_MAX_THREADS_def)
  show ?thesis
    using malloc_free_recorded [OF ready_running o _ _ _ _ _ _ _ _ _ _ m] p m
    by (simp add: ready_world_def pool_world_def zero_state_def demo_world_def mtt_is_lr_in_blacklist_def
        mtt_is_startup_phase_def track_decision_def mtt_should_track_def mtt_is_over_capacity_def
        MTT_MAX_ENTRIES_def MTT_BIG_ALLOC_THRESHOLD_def MTT_SAMPLE_EXEMPT_THRESHOLD_def
        mtt_pool_contains_def sizeof_mtt_entry_def)
qed

end
