(* ===== verification/Fork.thy ===== *)
theory Fork
  imports Transparency
begin

text \<open>
  \<open>fork\<close> of \<^verbatim>\<open>hooks.c\<close> and the three phases of \<^verbatim>\<open>tracker.c\<close>: the forking thread takes all
  stripe locks, the parent releases them, the child starts from an empty table and marks the
  tracker as not initialised, so that its next allocation initialises it again.
\<close>

section \<open>Definitions\<close>

definition mtt_fork_prepare :: "'l world \<Rightarrow> 'l world" where
  "mtt_fork_prepare w = fold bucket_lock [0..<MTT_LOCK_STRIPES] w"

definition mtt_fork_parent :: "'l world \<Rightarrow> 'l world" where
  "mtt_fork_parent w = fold bucket_unlock [0..<MTT_LOCK_STRIPES] w"

text \<open>The slots of all threads but \<open>my_tid\<close> are freed; the depth of the slot of \<open>my_tid\<close> is reset.\<close>

definition clear_slots :: "int \<Rightarrow> 'l world \<Rightarrow> 'l world" where
  "clear_slots my_tid w =
     w\<lparr>g_threads := (\<lambda>i. let t = g_threads w i in
         if i < MTT_MAX_THREADS \<and> t_tid t \<noteq> 0 \<and> t_tid t \<noteq> my_tid then t\<lparr>t_tid := 0\<rparr> else t)\<rparr>"

definition reset_own_slot :: "int \<Rightarrow> 'l world \<Rightarrow> 'l world" where
  "reset_own_slot my_tid w =
     (case find_slot (\<lambda>t. t_tid t = my_tid) w of
        None \<Rightarrow> w
      | Some i \<Rightarrow> upd_slot i (\<lambda>t. t\<lparr>t_hook_depth := 0, t_in_hook := 0\<rparr>) w)"

definition reset_locks :: "mtt_state \<Rightarrow> mtt_state" where
  "reset_locks s =
     s\<lparr>s_bucket_locks := (\<lambda>i. if i < MTT_LOCK_STRIPES then False else s_bucket_locks s i),
       s_pool_locks := (\<lambda>i. if i < MTT_LOCK_STRIPES then False else s_pool_locks s i)\<rparr>"

definition reset_counters :: "mtt_state \<Rightarrow> mtt_state" where
  "reset_counters s =
     s\<lparr>s_entry_count := 0, s_alloc_count := 0, s_free_count := 0, s_current_bytes := 0,
       s_total_bytes := 0, s_alloc_seq := 0, s_sample_bytes_accum := 0, s_skipped_sampled := 0,
       s_skipped_overcap := 0, s_pool_used := 0, s_peak_updated := False, s_peak_bytes := 0,
       s_leak_bytes_total := 0\<rparr>"

text \<open>The buckets are cleared through the array, which a failed initialisation left NULL.\<close>

definition clear_buckets :: "'l world \<Rightarrow> 'l world" where
  "clear_buckets w =
     (case s_buckets (g_state w) of
        None \<Rightarrow> w\<lparr>g_hung := (g_hung w \<or> s_bucket_count (g_state w) > 0)\<rparr>
      | Some b \<Rightarrow> upd_state (\<lambda>s. s\<lparr>s_buckets :=
          Some (\<lambda>j. if j < unat (s_bucket_count s) then NULL else b j)\<rparr>) w)"

definition rebuild_pool :: "'l world \<Rightarrow> 'l world" where
  "rebuild_pool w =
     (let w = upd_state (\<lambda>s. s\<lparr>s_pool_free_lists :=
            (\<lambda>i. if i < MTT_LOCK_STRIPES then NULL else s_pool_free_lists s i)\<rparr>) w
      in if s_pool (g_state w) \<noteq> NULL then pool_link (unat (s_pool_capacity (g_state w))) w else w)"

definition mtt_fork_child :: "int \<Rightarrow> 'l world \<Rightarrow> 'l world" where
  "mtt_fork_child my_tid w =
     (let w = mtt_reporter_reset_for_fork w;
          w = mtt_http_reset_for_fork w;
          w = (signal_reset_for_fork w)\<lparr>g_init_lock := False\<rparr>;
          w = clear_slots my_tid w;
          w = w\<lparr>g_tls_ctx := (g_tls_ctx w)(my_tid := None),
                g_tls_cached_tid := (g_tls_cached_tid w)(my_tid := 0)\<rparr>;
          w = reset_own_slot my_tid w;
          w = upd_state reset_locks w;
          w = upd_state reset_counters w;
          w = clear_buckets w;
          w = rebuild_pool w
      in upd_state (\<lambda>s. s\<lparr>s_initialized := False\<rparr>) w)"

text \<open>Who fails to find \<open>fork\<close> waits for a pointer that never appears.\<close>

definition resolve_raw_fork :: "'l ext \<Rightarrow> 'l world \<Rightarrow> 'l world" where
  "resolve_raw_fork X w =
     (let w = (if \<not> g_fork_resolved w
               then w\<lparr>g_fork_resolved := True, g_raw_fork := x_dlsym_fork X\<rparr> else w)
      in if \<not> g_raw_fork w \<and> g_fork_resolved w then w\<lparr>g_hung := True\<rparr> else w)"

text \<open>
  \<open>fork\<close> as one of the two processes sees it: \<open>x_fork\<close> returns 0 to the child, whose thread
  has the id \<open>child_tid\<close>. The first component is \<open>errno\<close> where it is set.
\<close>

definition fork :: "'l ext \<Rightarrow> int \<Rightarrow> 'l world \<Rightarrow> int option \<times> int \<times> 'l world" where
  "fork X child_tid w =
     (let w = resolve_raw_fork X w
      in if \<not> g_raw_fork w then (Some 38, - 1, w)
         else
           let w = mtt_fork_prepare w;
               (pid, l) = x_fork X (g_ext w);
               w = w\<lparr>g_ext := l\<rparr>
           in if pid = 0 then (None, pid, mtt_fork_child child_tid w)
              else (None, pid, mtt_fork_parent w))"

section \<open>The locks in the parent\<close>

lemma fold_lock:
  "s_bucket_locks (g_state (fold bucket_lock is w)) = (\<lambda>i. i \<in> set is \<or> s_bucket_locks (g_state w) i)"
  by (induction "is" arbitrary: w) (auto simp: bucket_lock_def fun_eq_iff)

lemma fold_lock_hung:
  "distinct is \<Longrightarrow> g_hung (fold bucket_lock is w) = (g_hung w \<or> (\<exists>i \<in> set is. s_bucket_locks (g_state w) i))"
  by (induction "is" arbitrary: w) (auto simp: bucket_lock_def)

lemma fold_lock_frame:
  "fold bucket_lock is w = w\<lparr>g_hung := g_hung (fold bucket_lock is w),
     g_state := (g_state w)\<lparr>s_bucket_locks := s_bucket_locks (g_state (fold bucket_lock is w))\<rparr>\<rparr>"
proof (induction "is" arbitrary: w)
  case (Cons i "is")
  show ?case using Cons.IH [of "bucket_lock i w"] by (simp add: bucket_lock_def)
qed simp

lemma fold_unlock:
  "fold bucket_unlock is w = w\<lparr>g_state := (g_state w)\<lparr>s_bucket_locks :=
     (\<lambda>i. i \<notin> set is \<and> s_bucket_locks (g_state w) i)\<rparr>\<rparr>"
proof (induction "is" arbitrary: w)
  case (Cons i "is")
  have "(\<lambda>j. j \<notin> set is \<and> ((s_bucket_locks (g_state w))(i := False)) j) =
      (\<lambda>j. j \<notin> set (i # is) \<and> s_bucket_locks (g_state w) j)" by auto
  then show ?case using Cons.IH [of "bucket_unlock i w"] by (simp add: bucket_unlock_def)
qed simp

lemma prepare_frame:
  "mtt_fork_prepare w = w\<lparr>g_hung := (g_hung w \<or> (\<exists>i < MTT_LOCK_STRIPES. s_bucket_locks (g_state w) i)),
     g_state := (g_state w)\<lparr>s_bucket_locks := (\<lambda>i. i < MTT_LOCK_STRIPES \<or> s_bucket_locks (g_state w) i)\<rparr>\<rparr>"
  unfolding mtt_fork_prepare_def
  by (subst fold_lock_frame) (simp add: fold_lock fold_lock_hung Bex_def)

text \<open>Preparing and releasing restores the world when no stripe was locked.\<close>

lemma prepare_parent:
  assumes "locks_free w"
  shows "mtt_fork_parent (mtt_fork_prepare w) = w"
proof -
  have l: "s_bucket_locks (g_state w) = (\<lambda>_. False)" using assms by (simp add: locks_free_def)
  have "(\<lambda>i. i \<notin> set [0..<MTT_LOCK_STRIPES] \<and> i < MTT_LOCK_STRIPES) = s_bucket_locks (g_state w)"
    by (auto simp: l fun_eq_iff)
  then show ?thesis by (simp add: mtt_fork_parent_def fold_unlock prepare_frame l)
qed

section \<open>The table of the child\<close>

lemma cleared_table:
  assumes "s_buckets (g_state w) = Some bk" "\<forall>j < unat (s_bucket_count (g_state w)). bk j = NULL"
    and "0 < s_bucket_count (g_state w)" "s_entry_count (g_state w) = 0" "fresh_pool w fs"
  shows "recs w (\<lambda>_. []) {}"
proof -
  have "table_inv w (\<lambda>_. []) fs {}"
    using assms by (auto simp: table_inv_def chains_inv_def counts_inv_def fresh_pool_def nodes_def split: if_splits)
  moreover have "records w (\<lambda>_. []) = (\<lambda>_. [])" by (simp add: records_def fun_eq_iff)
  ultimately show ?thesis using assms(5) unfolding recs_def fresh_pool_def by blast
qed

lemma rebuild_fresh:
  assumes "s_pool (g_state w) \<noteq> NULL \<Longrightarrow> pool_block (s_pool (g_state w)) (unat (s_pool_capacity (g_state w)))"
    and "pool_unlocked w" "s_pool_used (g_state w) = 0"
  shows "\<exists>fs fl. fresh_pool (rebuild_pool w) fs \<and> g_state (rebuild_pool w) = (g_state w)\<lparr>s_pool_free_lists := fl\<rparr>"
proof -
  define v where "v = upd_state (\<lambda>s. s\<lparr>s_pool_free_lists :=
            (\<lambda>i. if i < MTT_LOCK_STRIPES then NULL else s_pool_free_lists s i)\<rparr>) w"
  have v: "s_pool (g_state v) = s_pool (g_state w)" "s_pool_capacity (g_state v) = s_pool_capacity (g_state w)"
    by (simp_all add: v_def)
  show ?thesis
  proof (cases "s_pool (g_state w) = NULL")
    case True
    have "rebuild_pool w = v" using True by (simp add: rebuild_pool_def v_def Let_def)
    moreover have "fresh_pool v (\<lambda>_. [])"
      using True assms(2,3) by (simp add: fresh_pool_def v_def nodes_def pool_unlocked_def)
    moreover have "g_state v = (g_state w)\<lparr>s_pool_free_lists := s_pool_free_lists (g_state v)\<rparr>" by (simp add: v_def)
    ultimately show ?thesis by metis
  next
    case False
    let ?p = "s_pool (g_state w)" and ?n = "unat (s_pool_capacity (g_state w))"
    have pb: "pool_block ?p ?n" by (rule assms(1) [OF False])
    obtain fl where fl: "g_state (pool_link ?n v) = (g_state v)\<lparr>s_pool_free_lists := fl\<rparr>"
      "\<forall>i < MTT_LOCK_STRIPES. chain (nexts (pool_link ?n v)) (fl i) (link_list ?p ?n i)"
      using pool_link_spec [of v ?n ?n] pb v by (auto simp: v_def)
    let ?fs = "\<lambda>i. if i < MTT_LOCK_STRIPES then link_list ?p ?n i else []"
    have r: "rebuild_pool w = pool_link ?n v" using False by (simp add: rebuild_pool_def v_def Let_def)
    have "\<forall>i j. i \<noteq> j \<longrightarrow> set (?fs i) \<inter> set (?fs j) = {}" using link_lists_disjoint [OF pb] by auto
    then have "fresh_pool (rebuild_pool w) ?fs"
      using fl False link_lists_nodes [of ?p ?n] assms(2,3)
      unfolding fresh_pool_def r by (simp add: pool_slots_eq v_def pool_unlocked_def)
    moreover have "g_state (rebuild_pool w) = (g_state w)\<lparr>s_pool_free_lists := fl\<rparr>" using fl(1) by (simp add: r v_def)
    ultimately show ?thesis by blast
  qed
qed

text \<open>The state of the child just before the pool is rebuilt.\<close>

definition child_base :: "int \<Rightarrow> 'l world \<Rightarrow> 'l world" where
  "child_base my_tid w =
     (let w = mtt_reporter_reset_for_fork w;
          w = mtt_http_reset_for_fork w;
          w = (signal_reset_for_fork w)\<lparr>g_init_lock := False\<rparr>;
          w = clear_slots my_tid w;
          w = w\<lparr>g_tls_ctx := (g_tls_ctx w)(my_tid := None),
                g_tls_cached_tid := (g_tls_cached_tid w)(my_tid := 0)\<rparr>
      in reset_own_slot my_tid w)"

text \<open>What these resets leave alone.\<close>

definition core :: "'l world \<Rightarrow> mtt_state \<times> (ptr \<Rightarrow> mtt_entry) \<times> bool \<times> bool \<times> time_series" where
  "core w = (g_state w, g_entries w, g_hung w, g_unwind_mutex w, g_time_series w)"

lemma core_resets [simp]:
  "core (mtt_reporter_reset_for_fork w) = core w" "core (clear_slots t w) = core w"
  "core (signal_reset_for_fork w) = core w" "core (w\<lparr>g_init_lock := c\<rparr>) = core w"
  "core (w\<lparr>g_tls_ctx := d, g_tls_cached_tid := e\<rparr>) = core w"
  by (simp_all add: core_def mtt_reporter_reset_for_fork_def signal_reset_for_fork_def clear_slots_def)

lemma core_http_reset [simp]: "core (mtt_http_reset_for_fork w) = core w"
  by (simp add: core_def mtt_http_reset_for_fork_def close_fd_def Let_def)

lemma core_own_slot [simp]: "core (reset_own_slot t w) = core w"
  by (simp add: core_def reset_own_slot_def upd_slot_def split: option.split)

lemma child_base_core: "core (child_base t w) = core w"
  unfolding child_base_def Let_def by simp

lemma child_base_frame:
  "g_state (child_base t w) = g_state w" "g_entries (child_base t w) = g_entries w"
  "g_hung (child_base t w) = g_hung w" "g_unwind_mutex (child_base t w) = g_unwind_mutex w"
  "g_time_series (child_base t w) = g_time_series w"
  using child_base_core [of t w] by (simp_all add: core_def)

lemma child_base_slots:
  assumes "t \<noteq> 0" "i < MTT_MAX_THREADS"
  shows "t_tid (g_threads (child_base t w) i) \<in> {0, t}"
proof -
  have own: "t_tid (g_threads (reset_own_slot t v) i) = t_tid (g_threads v i)" for v :: "'a world"
    by (simp add: reset_own_slot_def split: option.split)
  have "t_tid (g_threads (clear_slots t v) i) \<in> {0, t}" for v :: "'a world"
    using assms(2) by (simp add: clear_slots_def Let_def)
  then show ?thesis unfolding child_base_def Let_def own by simp
qed

lemma fork_child_split:
  "mtt_fork_child t w = upd_state (\<lambda>s. s\<lparr>s_initialized := False\<rparr>)
     (rebuild_pool (clear_buckets (upd_state reset_counters (upd_state reset_locks (child_base t w)))))"
  by (simp add: mtt_fork_child_def child_base_def Let_def)

lemma rebuild_frame:
  "g_hung (rebuild_pool w) = g_hung w" "g_threads (rebuild_pool w) = g_threads w"
  "g_unwind_mutex (rebuild_pool w) = g_unwind_mutex w" "g_time_series (rebuild_pool w) = g_time_series w"
proof -
  have "g_unwind_mutex (pool_link n u) = g_unwind_mutex u \<and> g_time_series (pool_link n u) = g_time_series u"
    for n and u :: "'a world"
    by (induction n) (simp_all add: Let_def upd_entry_def)
  then show "g_hung (rebuild_pool w) = g_hung w" "g_threads (rebuild_pool w) = g_threads w"
    "g_unwind_mutex (rebuild_pool w) = g_unwind_mutex w" "g_time_series (rebuild_pool w) = g_time_series w"
    by (simp_all add: rebuild_pool_def Let_def)
qed

lemma clear_buckets_frame:
  "g_unwind_mutex (clear_buckets w) = g_unwind_mutex w" "g_time_series (clear_buckets w) = g_time_series w"
  "g_threads (clear_buckets w) = g_threads w"
  by (simp_all add: clear_buckets_def split: option.split)

section \<open>Properties\<close>

text \<open>C31. In the parent, and when \<open>fork\<close> fails, the hook leaves no trace: with \<open>fork\<close> resolved and no
  stripe locked, the call does not block and only the external state changes; in particular every lock
  taken before the fork is released.\<close>

theorem fork_parent_restores:
  assumes "g_raw_fork w" "locks_free w" "x_fork X (g_ext w) = (pid, l)" "pid \<noteq> 0" "g_fork_resolved w"
  shows "fork X child_tid w = (None, pid, w\<lparr>g_ext := l\<rparr>)"
proof -
  have r: "resolve_raw_fork X w = w" using assms(1,5) by (simp add: resolve_raw_fork_def)
  have g: "g_ext (mtt_fork_prepare w) = g_ext w" by (simp add: prepare_frame)
  have "(mtt_fork_prepare w)\<lparr>g_ext := l\<rparr> = mtt_fork_prepare (w\<lparr>g_ext := l\<rparr>)" by (simp add: prepare_frame)
  moreover have "locks_free (w\<lparr>g_ext := l\<rparr>)" using assms(2) by (simp add: locks_free_def)
  ultimately show ?thesis
    using assms(1,3,4) prepare_parent [of "w\<lparr>g_ext := l\<rparr>"] by (simp add: fork_def r g)
qed

theorem fork_parent_restores_witness:
  "fork demo_ext 100 (ready_world\<lparr>g_raw_fork := True, g_fork_resolved := True\<rparr>) =
     (None, 99, ready_world\<lparr>g_raw_fork := True, g_fork_resolved := True\<rparr>)"
proof -
  let ?w = "ready_world\<lparr>g_raw_fork := True, g_fork_resolved := True\<rparr>"
  have "locks_free ?w" by (simp add: locks_free_def ready_world_def pool_world_def zero_state_def)
  from fork_parent_restores [OF _ this, of demo_ext 99 "g_ext ?w" 100] show ?thesis
    by (simp add: demo_ext_def)
qed

text \<open>The counters that start again in the child, and those that go on.\<close>

definition child_counters :: "mtt_state \<Rightarrow> mtt_state \<Rightarrow> bool" where
  "child_counters s s' \<longleftrightarrow>
     s_entry_count s' = 0 \<and> s_alloc_count s' = 0 \<and> s_free_count s' = 0 \<and> s_current_bytes s' = 0 \<and>
     s_peak_bytes s' = 0 \<and> s_total_bytes s' = 0 \<and> s_alloc_seq s' = 0 \<and> s_skipped_sampled s' = 0 \<and>
     s_skipped_overcap s' = 0 \<and> s_sample_bytes_accum s' = 0 \<and> s_pool_used s' = 0 \<and>
     s_leak_bytes_total s' = 0 \<and> \<not> s_peak_updated s' \<and>
     s_sample_counter s' = s_sample_counter s \<and> s_temp_alloc_count s' = s_temp_alloc_count s \<and>
     s_expired_alloc_count s' = s_expired_alloc_count s \<and> s_free_expired_count s' = s_free_expired_count s"

text \<open>C32. The child starts with an empty table: in a process with a bucket array and, if any, a pool that does not
  wrap around the address space, whatever records the table held, whoever held them and whichever stripe
  and pool locks were taken at the time of the fork, after \<open>mtt_fork_child\<close> the table of the child is empty, its
  free lists hold every record of the pool, no stripe or pool lock is held, the slots belong to no other
  thread, and the tracker is not initialised. The counters of records, allocations, releases, current,
  peak and total bytes, sequence numbers, skipped blocks, sampled bytes, used pool records and leaked bytes are 0;
  the sample counter and the counters of temporary and expired blocks keep their values until the
  child initialises the tracker.\<close>

theorem fork_child_fresh:
  assumes "s_buckets (g_state w) \<noteq> None" "0 < s_bucket_count (g_state w)" "my_tid \<noteq> 0"
    and "s_pool (g_state w) \<noteq> NULL \<Longrightarrow> pool_block (s_pool (g_state w)) (unat (s_pool_capacity (g_state w)))"
    and "\<forall>i \<ge> MTT_LOCK_STRIPES. \<not> s_bucket_locks (g_state w) i \<and> \<not> s_pool_locks (g_state w) i"
    and w': "w' = mtt_fork_child my_tid w"
  shows "recs w' (\<lambda>_. []) {} \<and> books w' (\<lambda>_. []) {} \<and> locks_free w' \<and> pool_unlocked w' \<and>
       \<not> s_initialized (g_state w') \<and> child_counters (g_state w) (g_state w') \<and>
       g_hung w' = g_hung w \<and> (\<forall>i < MTT_MAX_THREADS. t_tid (g_threads w' i) \<in> {0, my_tid})"
proof -
  obtain b where bk: "s_buckets (g_state w) = Some b" using assms(1) by auto
  define u where "u = upd_state reset_counters (upd_state reset_locks (child_base my_tid w))"
  have gu: "g_state u = reset_counters (reset_locks (g_state w))" by (simp add: u_def child_base_frame)
  define v where "v = clear_buckets u"
  have gv: "g_state v = (g_state u)\<lparr>s_buckets := Some (\<lambda>j. if j < unat (s_bucket_count (g_state w)) then NULL else b j)\<rparr>"
    and hv: "g_hung v = g_hung w"
    using bk by (simp_all add: v_def clear_buckets_def gu reset_counters_def reset_locks_def)
      (simp add: u_def child_base_frame)
  have pv: "s_pool (g_state v) = s_pool (g_state w)" "s_pool_capacity (g_state v) = s_pool_capacity (g_state w)"
    "s_pool_used (g_state v) = 0" "pool_unlocked v"
    using assms(5) by (auto simp: gv gu reset_counters_def reset_locks_def pool_unlocked_def not_less)
  obtain gs fl where fp: "fresh_pool (rebuild_pool v) gs" and gr: "g_state (rebuild_pool v) = (g_state v)\<lparr>s_pool_free_lists := fl\<rparr>"
    using rebuild_fresh [of v] assms(4) pv by auto
  have eq: "w' = upd_state (\<lambda>s. s\<lparr>s_initialized := False\<rparr>) (rebuild_pool v)"
    by (simp add: w' fork_child_split v_def u_def)
  have gw: "g_state w' = (g_state v)\<lparr>s_pool_free_lists := fl, s_initialized := False\<rparr>" by (simp add: eq gr)
  have "fresh_pool w' gs"
    by (rule fresh_pool_cong [OF fp]) (simp_all add: eq)
  then have r: "recs w' (\<lambda>_. []) {}"
    by (intro cleared_table [of w' "\<lambda>j. if j < unat (s_bucket_count (g_state w)) then NULL else b j" gs])
      (use assms(2) in \<open>simp_all add: gw gv gu reset_counters_def reset_locks_def\<close>)
  then have "tracked w' (\<lambda>_. []) {}" unfolding tracked_def by (intro exI [of _ "\<lambda>_. []"]) simp
  then have "books w' (\<lambda>_. []) {}"
    by (simp add: books_def gw gv gu reset_counters_def)
  moreover have "locks_free w'"
    using assms(5) by (auto simp: locks_free_def gw gv gu reset_counters_def reset_locks_def fun_eq_iff not_less)
  moreover have "\<forall>i < MTT_MAX_THREADS. t_tid (g_threads w' i) \<in> {0, my_tid}"
    using child_base_slots [OF assms(3), of _ w] by (simp add: eq rebuild_frame v_def clear_buckets_frame u_def)
  moreover have "child_counters (g_state w) (g_state w')"
    by (simp add: child_counters_def gw gv gu reset_counters_def reset_locks_def)
  moreover have "pool_unlocked w'" using r by (simp add: recs_def)
  ultimately show ?thesis using r hv by (simp add: gw eq rebuild_frame)
qed

text \<open>A process in which another thread held stripe 3 when it forked.\<close>

theorem fork_child_fresh_witness:
  "recs (mtt_fork_child 100 (bucket_lock 3 ready_world)) (\<lambda>_. []) {} \<and>
   locks_free (mtt_fork_child 100 (bucket_lock 3 ready_world))"
  using fork_child_fresh [of "bucket_lock 3 ready_world" 100]
  by (simp add: bucket_lock_def ready_world_def pool_world_def zero_state_def pool_block_def sizeof_mtt_entry_def
      MTT_BUCKETS_def MTT_LOCK_STRIPES_def)

text \<open>Two locks are missed: if another thread of the parent was inside the unwinder, or writing a
  sample, when the process forked, the child keeps that mutex locked although no thread of it will ever
  release it.\<close>

theorem fork_child_stale_locks:
  "g_unwind_mutex (mtt_fork_child my_tid w) = g_unwind_mutex w
   \<and> ts_lock (g_time_series (mtt_fork_child my_tid w)) = ts_lock (g_time_series w)"
  by (simp add: fork_child_split rebuild_frame clear_buckets_frame child_base_frame)

end
