(* ===== verification/No_Hang.thy ===== *)
theory No_Hang
  imports Transparency
begin

text \<open>
  The hooks return. A thread of the model never returns when it locks a mutex that is held, follows a
  chain without an end, calls through a null pointer or dies of an unprotected fault; \<open>g_hung\<close> records
  it. From a tracker in operation with the unwinder idle no sequence of calls comes to that, and the
  unwinder is idle again after it.
\<close>

section \<open>Calm\<close>

text \<open>What a blocked thread would show: the flag, and the mutex and the flag of the unwinder.\<close>

definition prot_of :: "'l world \<Rightarrow> bool \<times> bool \<times> bool" where
  "prot_of w = (g_hung w, g_unwind_mutex w, g_in_unwind_call w)"

definition calm :: "'l world \<Rightarrow> bool" where
  "calm w \<longleftrightarrow> \<not> g_hung w \<and> prot_idle w"

text \<open>The \<open>backtrace\<close> of the C library, which \<open>mtt_capture_stack\<close> calls unprotected, does not fault.\<close>

definition bt_safe :: "'l ext \<Rightarrow> bool" where
  "bt_safe X \<longleftrightarrow> (\<forall>l m sig. x_backtrace X l m \<noteq> BT_CRASH sig)"

lemma calm_prot: "prot_of w' = prot_of w \<Longrightarrow> calm w' = calm w"
  by (simp add: prot_of_def calm_def prot_idle_def)

lemma quiet_prot: "quiet w w' \<Longrightarrow> prot_of w' = prot_of w"
  by (simp add: quiet_def prot_of_def)

lemma quiet_calm: "quiet w w' \<Longrightarrow> calm w' = calm w"
  by (rule calm_prot [OF quiet_prot])

lemma prot_of_upd [simp]:
  "prot_of (upd_entry a f w) = prot_of w" "prot_of (upd_state h w) = prot_of w" "prot_of (upd_slot i g w) = prot_of w"
  "prot_of (w\<lparr>g_state := s\<rparr>) = prot_of w" "prot_of (w\<lparr>g_ext := l\<rparr>) = prot_of w" "prot_of (w\<lparr>g_mem := m\<rparr>) = prot_of w"
  "prot_of (w\<lparr>g_exec_ranges := rs, g_exec_once := q\<rparr>) = prot_of w"
  "prot_of (mtt_stripe_unlock p w) = prot_of w" "prot_of (pool_unlock j w) = prot_of w"
  "prot_of (write_link lk v w) = prot_of w"
  by (simp_all add: prot_of_def upd_entry_def upd_slot_def mtt_stripe_unlock_def bucket_unlock_def pool_unlock_def)
    (cases lk; simp add: write_link_def upd_entry_def)+

lemma stripe_lock_prot: "locks_free w \<Longrightarrow> prot_of (mtt_stripe_lock p w) = prot_of w"
  by (simp add: prot_of_def mtt_stripe_lock_def bucket_lock_def locks_free_def)

lemma pool_lock_prot: "\<not> s_pool_locks (g_state w) j \<Longrightarrow> prot_of (pool_lock j w) = prot_of w"
  by (simp add: prot_of_def pool_lock_def)

lemma books_unlocked: "books w S H \<Longrightarrow> pool_unlocked w"
  using books_tracked by (auto simp: tracked_def recs_def)

section \<open>Stack capture\<close>

lemma capture_libunwind_calm:
  assumes "capture_libunwind X tid st w = (r, st', d, w')" "calm w"
  shows "calm w'"
proof -
  obtain n st1 w1 where c: "mtt_libunwind_capture X tid st (g_max_stack_frames w) w = (n, st1, w1)" by (metis prod_cases3)
  have "w' = w \<or> w' = w1" using assms(1) c by (auto simp: capture_libunwind_def Let_def split: if_splits)
  then show ?thesis using static_unw.cap_idle [OF _ c] assms(2) by (auto simp: calm_def)
qed

lemma capture_backtrace_calm:
  assumes "capture_backtrace X d st w = (n, st', w')" "calm w" "bt_safe X"
  shows "calm w'"
proof -
  obtain m s1 w1 where b: "mtt_safe_backtrace X st (g_max_stack_frames w) w = (m, s1, w1)" by (metis prod_cases3)
  obtain j s2 w2 where t: "backtrace X st (g_max_stack_frames w) w = (j, s2, w2)" by (metis prod_cases3)
  have "w2 = w" using t assms(3) by (auto simp: backtrace_def bt_safe_def split: bt_result.splits)
  moreover have "w' = w2 \<or> w' = w1"
    using assms(1) b t by (auto simp: capture_backtrace_def Let_def split: if_splits)
  ultimately show ?thesis using safe_bt.cap_idle [OF _ b] assms(2) by (auto simp: calm_def)
qed

lemma capture_calm:
  assumes "calm w" "bt_safe X"
  shows "calm (mtt_capture_stack X tid e w)"
proof -
  obtain c v where g: "mtt_thread_get X tid w = (c, v)" by fastforce
  have v: "calm v" using quiet_calm [OF thread_get_quiet [OF g]] assms(1) by simp
  consider "e = NULL" | "e \<noteq> NULL" "\<nexists>i. c = Some i \<and> t_in_capture (g_threads v i) = 0"
    | i where "e \<noteq> NULL" "c = Some i" "t_in_capture (g_threads v i) = 0" by blast
  then show ?thesis
  proof cases
    case 1
    then show ?thesis using assms(1) by (simp add: mtt_capture_stack_def)
  next
    case 2
    then have "mtt_capture_stack X tid e w = upd_entry e (\<lambda>r. r\<lparr>e_stack_frames := 0\<rparr>) v"
      using g by (auto simp: mtt_capture_stack_def split: option.splits)
    then show ?thesis using v calm_prot [of "upd_entry e (\<lambda>r. r\<lparr>e_stack_frames := 0\<rparr>) v" v] by simp
  next
    case (3 i)
    define wa where "wa = upd_slot i (\<lambda>t. t\<lparr>t_in_capture := 1\<rparr>) v"
    have wa: "calm wa" using v calm_prot [of wa v] by (simp add: wa_def)
    obtain r st1 d wb where cl: "capture_libunwind X tid (e_stack (g_entries wa e)) wa = (r, st1, d, wb)"
      by (metis prod_cases4)
    note wb = capture_libunwind_calm [OF cl wa]
    obtain n st wc where cb: "capture_backtrace X d st1 wb = (n, st, wc)" by (metis prod_cases3)
    note wc = capture_backtrace_calm [OF cb wb assms(2)]
    define fw where "fw = (if n = 0 then fp_chain X MTT_STACK_DEPTH (x_frame_address X (g_ext wc)) wc else ([], wc))"
    have fw: "prot_of (snd fw) = prot_of wc"
      using fp_chain_frame [of X MTT_STACK_DEPTH "x_frame_address X (g_ext wc)" wc] by (auto simp: fw_def)
    have "prot_of (mtt_capture_stack X tid e w) = prot_of (case r of None \<Rightarrow> snd fw | Some _ \<Rightarrow> wb)"
      using 3 g cl cb
      by (simp add: mtt_capture_stack_def wa_def [symmetric] Let_def fw_def [symmetric] set_stack_def case_prod_beta
          split: option.split prod.split)
    then show ?thesis using calm_prot fw wb wc by (cases r) (auto dest: calm_prot)
  qed
qed

section \<open>The table\<close>

lemma pool_take_prot: "pool_take i w = (e, w') \<Longrightarrow> prot_of w' = prot_of w"
  by (auto simp: pool_take_def Let_def split: if_splits)

lemma pool_scan_prot: "pool_scan idx ks w = (e, w') \<Longrightarrow> prot_of w' = prot_of w"
proof (induction ks arbitrary: w)
  case (Cons k ks)
  let ?j = "(idx + k) mod MTT_LOCK_STRIPES"
  obtain a w1 where t: "pool_take ?j (pool_lock ?j w) = (a, w1)" by fastforce
  show ?case
    using Cons.prems Cons.IH [of w] Cons.IH [of "pool_unlock ?j w1"] pool_take_prot [OF t] pool_lock_prot [of w ?j]
    by (auto simp: Let_def t split: if_splits)
qed simp

lemma entry_new_calm:
  assumes "mtt_entry_new X tid p sz w = (e, w')" "s_pool (g_state w) \<noteq> NULL" "pool_unlocked w" "calm w" "bt_safe X"
  shows "calm w'"
proof -
  let ?i = "stripe_at w p"
  obtain a w1 where t: "pool_take ?i (pool_lock ?i w) = (a, w1)" by fastforce
  have l: "\<not> s_pool_locks (g_state w) ?i" using assms(3) stripe_at_less by (auto simp: pool_unlocked_def)
  obtain b w2 where b: "(if a = NULL then pool_scan ?i [1..<MTT_LOCK_STRIPES] (pool_unlock ?i w1)
      else (a, pool_unlock ?i w1)) = (b, w2)"
    by fastforce
  have h: "prot_of w2 = prot_of w"
    using b pool_scan_prot [of ?i _ "pool_unlock ?i w1" b w2] pool_take_prot [OF t] pool_lock_prot [of w ?i, OF l]
    by (auto split: if_splits)
  have "mtt_entry_new X tid p sz w =
      (if b = NULL then (NULL, w2)
       else (b, mtt_capture_stack X tid b (upd_entry b (\<lambda>_. init_entry p sz w2) w2)))"
    using assms(2) t b by (simp add: mtt_entry_new_def Let_def)
  moreover have "calm w2" "calm (upd_entry b (\<lambda>_. init_entry p sz w2) w2)"
    using assms(4) calm_prot [OF h] calm_prot [of "upd_entry b (\<lambda>_. init_entry p sz w2) w2" w2] by simp_all
  ultimately show ?thesis using assms(1,5) capture_calm by (auto split: if_splits)
qed

lemma pool_return_prot: "pool_unlocked w \<Longrightarrow> prot_of (pool_return e w) = prot_of w"
  by (simp add: pool_return_eq) (simp add: prot_of_def)

lemma entry_add_prot [simp]: "prot_of (mtt_entry_add e w) = prot_of w"
  by (auto simp: mtt_entry_add_def Let_def split: option.split)

lemma record_alloc_prot [simp]: "prot_of (record_alloc always sz e w) = prot_of w"
  by (simp add: record_alloc_def Let_def)

lemma discard_prot: "pool_unlocked w \<Longrightarrow> s_pool (g_state w) \<noteq> NULL \<Longrightarrow> prot_of (mtt_entry_discard X e w) = prot_of w"
  by (simp add: mtt_entry_discard_def pool_return_prot)

lemma remove_prot:
  assumes "tracked w S H" "p \<noteq> NULL" "s_pool (g_state w) \<noteq> NULL"
  shows "prot_of (mtt_entry_remove X p w) = prot_of w"
proof -
  obtain R bs fs where r: "pool_unlocked w" "table_inv w bs fs H" "records w bs = R"
    using assms(1) by (auto simp: tracked_def recs_def)
  have c: "chains_inv w bs fs" using r(2) by (simp add: table_inv_def)
  show ?thesis
  proof (cases "records w bs p")
    case Nil
    then show ?thesis by (simp add: entry_remove_absent [OF c])
  next
    case (Cons a as)
    then have f: "filter (\<lambda>a. e_ptr (g_entries w a) = p) (bs (bucket_at w p)) = a # as" by (simp add: records_def)
    obtain us vs where sp: "bs (bucket_at w p) = us @ a # vs" "\<forall>u \<in> set us. e_ptr (g_entries w u) \<noteq> p"
      "e_ptr (g_entries w a) = p"
      using filter_split [OF f] by blast
    define w1 where "w1 = upd_state (\<lambda>s. s\<lparr>s_entry_count := s_entry_count s - 1\<rparr>)
        (write_link (pred_link (bucket_at w p) us) (e_next (g_entries w a)) w)"
    have k: "s_pool (g_state w1) = s_pool (g_state w)" "s_pool_locks (g_state w1) = s_pool_locks (g_state w)"
      by (cases "pred_link (bucket_at w p) us"; simp add: w1_def write_link_def upd_entry_def)+
    have "mtt_entry_remove X p w = pool_return a w1"
      using entry_remove_eq [OF c assms(2) sp, of X] k(1) assms(3) by (simp add: w1_def [symmetric] Let_def)
    moreover have "pool_unlocked w1" using r(1) k(2) by (simp add: pool_unlocked_def)
    moreover have "prot_of w1 = prot_of w" by (simp add: w1_def)
    ultimately show ?thesis by (simp add: pool_return_prot)
  qed
qed

section \<open>Recording\<close>

lemma insert_prot:
  assumes "books w S H" "s_pool (g_state w) \<noteq> NULL" "locks_free w"
  shows "prot_of (insert_entry X always p sz e w) = prot_of w" "prot_of (insert_moved X always p sz e w) = prot_of w"
proof -
  let ?v = "upd_state count_overcap (mtt_stripe_lock p w)"
  have u: "pool_unlocked (mtt_stripe_unlock p ?v)" "pool_unlocked ?v"
    using books_unlocked [of "mtt_stripe_unlock p ?v" S H] books_unlocked [of ?v S H] assms(1) by simp_all
  have s: "s_pool (g_state (mtt_stripe_unlock p ?v)) \<noteq> NULL" "s_pool (g_state ?v) \<noteq> NULL"
    using assms(2) by (simp_all add: count_overcap_def)
  note d = discard_prot [OF u(1) s(1), of X e] discard_prot [OF u(2) s(2), of X e]
  show "prot_of (insert_entry X always p sz e w) = prot_of w" "prot_of (insert_moved X always p sz e w) = prot_of w"
    using d by (simp_all add: insert_entry_def insert_moved_def Let_def stripe_lock_prot [OF assms(3)])
qed

lemma track_block_calm:
  assumes "running k w S" "calm w" "bt_safe X"
  shows "calm (track_block X tid always p sz w)"
proof -
  have b: "books w S {}" "s_pool (g_state w) \<noteq> NULL" "locks_free w" using assms(1) by (simp_all add: running_def)
  obtain e v where n: "mtt_entry_new X tid p sz w = (e, v)" by fastforce
  have v: "calm v" by (rule entry_new_calm [OF n b(2) books_unlocked [OF b(1)] assms(2,3)])
  note nb = new_books [OF b(1,2) n]
  show ?thesis
  proof (cases "e = NULL")
    case True
    then show ?thesis using v n by (simp add: track_block_def)
  next
    case False
    have "s_pool (g_state v) \<noteq> NULL" using new_pool [OF n] b(2) by simp
    from insert_prot(1) [OF _ this locks_free_keeps [OF nb(1) b(3)]] nb(3) [OF False]
    have "prot_of (insert_entry X always p sz e v) = prot_of v" by blast
    from calm_prot [OF this] show ?thesis using v n False by (simp add: track_block_def)
  qed
qed

lemma retrack_calm:
  assumes "running k w S" "calm w" "bt_safe X"
  shows "calm (retrack X tid always q sz w)"
proof -
  obtain oc s where c: "mtt_is_over_capacity (g_state w) = (oc, s)" by fastforce
  define u where "u = w\<lparr>g_state := s\<rparr>"
  have u: "running k u S"
    using counter_books [OF capacity_frame [OF c]] running_keeps [OF assms(1)] running_books [OF assms(1)]
    unfolding u_def by blast
  have cu: "calm u" using calm_prot [of u w] assms(2) by (simp add: u_def)
  have b: "books u S {}" "s_pool (g_state u) \<noteq> NULL" "locks_free u" using u by (simp_all add: running_def)
  obtain e v where n: "mtt_entry_new X tid q sz u = (e, v)" by fastforce
  have v: "calm v" by (rule entry_new_calm [OF n b(2) books_unlocked [OF b(1)] cu assms(3)])
  note nb = new_books [OF b(1,2) n]
  have "prot_of (insert_moved X always q sz e v) = prot_of v" if "e \<noteq> NULL"
  proof -
    have "s_pool (g_state v) \<noteq> NULL" using new_pool [OF n] b(2) by simp
    from insert_prot(2) [OF _ this locks_free_keeps [OF nb(1) b(3)]] nb(3) [OF that] show ?thesis by blast
  qed
  then show ?thesis using cu v calm_prot c n by (auto simp: retrack_def u_def Let_def)
qed

lemma untrack_prot:
  assumes "running k w S" "p \<noteq> NULL" "exact_forget forget" "lifetime_note note"
  shows "prot_of (untrack X forget note p w) = prot_of w"
proof -
  let ?v = "mtt_stripe_lock p w"
  have l: "prot_of ?v = prot_of w" using stripe_lock_prot assms(1) by (auto simp: running_def)
  have bv: "books ?v S {}" using running_books [OF assms(1)] by simp
  note tv = books_tracked [OF bv]
  obtain e v' where f: "mtt_entry_find p ?v = (e, v')" by fastforce
  have v': "v' = ?v" and e1: "e \<noteq> NULL \<Longrightarrow> S p = e_size (g_entries ?v e) # tl (S p)"
    using tracked_find [OF tv assms(2) f] by blast+
  show ?thesis
  proof (cases "e = NULL")
    case True
    then show ?thesis using l f v' by (simp add: untrack_def)
  next
    case False
    let ?r = "g_entries ?v e"
    define v1 where "v1 = upd_state (\<lambda>s. s\<lparr>s_free_count := s_free_count s + 1\<rparr>) (upd_state (forget (e_size ?r)) ?v)"
    define v2 where "v2 = upd_state (note ?r v1) v1"
    have eq: "untrack X forget note p w = mtt_stripe_unlock p (mtt_entry_remove X p v2)"
      using False f v' by (simp add: untrack_def Let_def v2_def v1_def comp_assoc)
    have S: "S p = e_size ?r # tl (S p)" using e1 [OF False] .
    have "0 \<notin> set (S p)" using bv by (simp add: books_def)
    with S have nz: "0 < e_size ?r" by (metis list.set_intros(1) word_neq_0_conv)
    have "live_bytes S = live_bytes (pop p S) + unat (e_size ?r)"
      by (rule live_pop(1) [OF tracked_count(1) [OF tv] S])
    then have le: "e_size ?r \<le> s_current_bytes (g_state ?v)" using bv by (simp add: books_def word_le_nat_alt)
    note us = untrack_state [OF assms(3,4) nz le, of ?r, folded v1_def, folded v2_def]
    have t2: "tracked v2 S {}" using tracked_fields [OF us(3,2)] tv by simp
    have "s_pool (g_state v2) = s_pool (g_state ?v)" using us(1) by (simp add: keeps_def)
    then have "s_pool (g_state v2) \<noteq> NULL" using assms(1) by (simp add: running_def)
    from remove_prot [OF t2 assms(2) this, of X] have "prot_of (mtt_entry_remove X p v2) = prot_of v2" .
    then show ?thesis using l by (simp add: eq v2_def v1_def)
  qed
qed

lemma calls_prot:
  "raw_malloc w \<noteq> F_NULL \<Longrightarrow> call_malloc X n w = (p, w') \<Longrightarrow> prot_of w' = prot_of w"
  "raw_free w \<noteq> F_NULL \<Longrightarrow> prot_of (call_free X p w) = prot_of w"
  "raw_realloc w = F_LIBC \<Longrightarrow> call_realloc X p n w = (q, w') \<Longrightarrow> prot_of w' = prot_of w"
  by (auto simp: call_malloc_def bootstrap_malloc_def call_free_def bootstrap_free_def call_realloc_def prot_of_def Let_def
      split: fnptr.splits prod.splits if_splits)

lemma realloc_raw_calm:
  assumes "running k w S" "p \<noteq> NULL" "raw_realloc w = F_LIBC" "calm w" "bt_safe X" "exact_forget forget"
    and "realloc_raw X tid forget always p sz w = (q, w')"
  shows "calm w'"
proof -
  let ?v = "mtt_stripe_lock p w"
  obtain e v where f: "mtt_entry_find p ?v = (e, v)" by fastforce
  have "tracked ?v S {}" using books_tracked [of ?v S "{}"] running_books [OF assms(1)] by simp
  then have v: "v = ?v" using tracked_find [OF _ assms(2) f] by blast
  define u where "u = mtt_stripe_unlock p ?v"
  have ku: "keeps w u"
    unfolding u_def by (rule stripe_keeps [OF keeps_refl]) (use assms(1) in \<open>simp add: running_def\<close>)
  have u: "running k u S"
    by (rule running_keeps [OF assms(1) ku]) (use running_books [OF assms(1)] in \<open>simp add: u_def\<close>)
  have "prot_of u = prot_of w" using stripe_lock_prot [of w p] assms(1) by (simp add: u_def running_def)
  note cu = calm_prot [OF this]
  obtain a x where c: "call_realloc X p sz u = (a, x)" by fastforce
  have x: "running k x S" by (rule call_realloc_running [OF u c])
  have "raw_realloc u = F_LIBC" using ku assms(3) by (simp add: keeps_def)
  note cx = calm_prot [OF calls_prot(3) [OF this c]]
  define y where "y = untrack X forget no_note p x"
  have y: "running k y (pop p S)" unfolding y_def by (rule untrack_running [OF x assms(2,6) lifetime_notes(1)])
  have cy: "calm y = calm x" unfolding y_def by (rule calm_prot [OF untrack_prot [OF x assms(2,6) lifetime_notes(1)]])
  have "w' = (if a = NULL \<or> e = NULL then x else retrack X tid always a sz y)"
    using assms(7) by (auto simp: realloc_raw_def Let_def f v c y_def u_def [symmetric] split: if_splits)
  then show ?thesis using retrack_calm [OF y _ assms(5), of tid always a sz] cy cx cu assms(4) by simp
qed

section \<open>The hooks\<close>

lemma tracing_raws: "tracing w \<Longrightarrow> raw_malloc w \<noteq> F_NULL \<and> raw_free w \<noteq> F_NULL \<and> raw_realloc w = F_LIBC"
  by (simp add: tracing_def)

lemma hook_leave_calm [simp]: "calm (hook_leave X tid i saved w) = calm w"
  by (rule quiet_calm [OF hook_leave_quiet])

lemma through_calm:
  assumes "tracing w"
  shows "malloc_through X sz w = (p, w') \<Longrightarrow> calm w' = calm w" "call_malloc X sz w = (p, w') \<Longrightarrow> calm w' = calm w"
    "calm (free_through X q w) = calm w" "calm (call_free X q w) = calm w"
    "calloc_through X n sz w = (p, w') \<Longrightarrow> calm w' = calm w" "realloc_through X q sz w = (p, w') \<Longrightarrow> calm w' = calm w"
proof -
  note r = tracing_raws [OF assms]
  show m: "calm w' = calm w" if "call_malloc X sz w = (p, w')" for p w' sz
    using calm_prot calls_prot(1) that r by blast
  show "calm w' = calm w" if "malloc_through X sz w = (p, w')" using that m r by (simp add: malloc_through_def)
  show f: "calm (call_free X q w) = calm w" using calm_prot calls_prot(2) r by blast
  then show "calm (free_through X q w) = calm w" by (simp add: free_through_def)
  show "calm w' = calm w" if "calloc_through X n sz w = (p, w')"
  proof -
    obtain a v where c: "call_malloc X (n * sz) w = (a, v)" by fastforce
    have "calm (v\<lparr>g_mem := y\<rparr>) = calm v" for y by (rule calm_prot) simp
    then show ?thesis using that r c m [OF c] by (auto simp: calloc_through_def Let_def split: if_splits)
  qed
  show "calm w' = calm w" if "realloc_through X q sz w = (p, w')"
    using that r calm_prot [OF calls_prot(3) [of w X q sz p w']] by (simp add: realloc_through_def)
qed

lemma malloc_entered_calm:
  assumes "tracing w" "calm w" "bt_safe X" "malloc_entered X tid i lr sz w = (p, w')"
  shows "calm w'"
proof -
  define v where "v = mtt_ensure_init X tid w"
  have qv: "quiet w v" unfolding v_def by (rule tracing_init [OF assms(1)])
  have v: "tracing v" "calm v" using quiet_tracing [OF qv assms(1)] quiet_calm [OF qv] assms(2) by simp_all
  obtain q u where m: "call_malloc X sz v = (q, u)" by fastforce
  have u: "calm u" using through_calm(2) [OF v(1) m] v(2) by simp
  obtain b s where d: "track_decision sz (g_state u) = (b, s)" by fastforce
  define x where "x = u\<lparr>g_state := s\<rparr>"
  obtain k S where "running k v S" using v(1) by (auto simp: tracing_def)
  then have "running k x S" unfolding x_def by (rule decision_running(2) [OF call_malloc_running [OF _ m] d])
  moreover have x: "calm x" using calm_prot [of x u] u by (simp add: x_def)
  ultimately have t: "calm (track_block X tid False q sz x)" using track_block_calm assms(3) by blast
  have "malloc_through X sz w = (p, w') \<or> sz = 0 \<and> call_malloc X 0 w = (p, w') \<or>
      w' = u \<or> w' = x \<or> w' = track_block X tid False q sz x"
    using assms(1,4) m d by (auto simp: malloc_entered_def Let_def v_def [symmetric] x_def tracing_def split: if_splits)
  then show ?thesis using u x t through_calm(1,2) [OF assms(1)] assms(2) by metis
qed

lemma malloc_calm:
  assumes "tracing w" "calm w" "bt_safe X" "malloc X tid lr sz w = (p, w')"
  shows "calm w'"
proof -
  obtain d u where f: "first_call_diag X RF_malloc w = (d, u)" by fastforce
  note qu = first_call_quiet [OF f]
  note u = quiet_tracing [OF qu assms(1)]
  obtain h v where b: "hook_begin X tid u = (h, v)" by fastforce
  note qv = tracing_begin [OF u b]
  note v = quiet_tracing [OF qv u]
  have cv: "calm v" using quiet_calm [OF qu] quiet_calm [OF qv] assms(2) by simp
  show ?thesis
  proof (cases h)
    case (HE_ENTERED i saved)
    obtain q x where e: "malloc_entered X tid i lr sz v = (q, x)" by fastforce
    have "w' = hook_leave X tid i saved x" using assms(4) f b e HE_ENTERED by (simp add: malloc_def)
    then show ?thesis using malloc_entered_calm [OF v cv assms(3) e] by simp
  qed (use assms(4) f b cv through_calm(1) [OF v, of X sz p w'] in \<open>auto simp: malloc_def\<close>)
qed

lemma free_calm:
  assumes "tracing w" "calm w"
  shows "calm (free X tid lr p w)"
proof -
  obtain d u where f: "first_call_diag X RF_free w = (d, u)" by fastforce
  note qu = first_call_quiet [OF f]
  note u = quiet_tracing [OF qu assms(1)]
  obtain h v where b: "hook_begin X tid u = (h, v)" by fastforce
  note qv = tracing_begin [OF u b]
  note v = quiet_tracing [OF qv u]
  have cu: "calm u" using quiet_calm [OF qu] assms(2) by simp
  then have cv: "calm v" using quiet_calm [OF qv] by simp
  have "calm (free_entered X tid i lr p v)" if "p \<noteq> NULL" for i
  proof -
    define x where "x = mtt_ensure_init X tid v"
    have qx: "quiet v x" unfolding x_def by (rule tracing_init [OF v])
    note x = quiet_tracing [OF qx v]
    have cx: "calm x" using quiet_calm [OF qx] cv by simp
    obtain k S where S: "running k x S" using x by (auto simp: tracing_def)
    define y where "y = untrack X forget_bytes note_lifetime p x"
    have cy: "calm y = calm x"
      unfolding y_def by (rule calm_prot [OF untrack_prot [OF S that exact_forgets(1) lifetime_notes(2)]])
    have "running k y (pop p S)" unfolding y_def by (rule untrack_running [OF S that]) simp_all
    then have "raw_free y \<noteq> F_NULL" using S tracing_raws [OF x] by (auto simp: running_def setup_of_def)
    then have "calm (call_free X p y) = calm y" using calm_prot calls_prot(2) by blast
    moreover have "free_entered X tid i lr p v \<in> {free_through X p v, call_free X p x, call_free X p y}"
      using v by (auto simp: free_entered_def Let_def x_def y_def tracing_def)
    ultimately show ?thesis using through_calm(3) [OF v, of X p] through_calm(4) [OF x, of X p] cv cx cy by auto
  qed
  then show ?thesis
    using f b cu cv through_calm(3) [OF v, of X p]
    by (cases h) (auto simp: free_def)
qed

lemma calloc_calm:
  assumes "tracing w" "calm w" "bt_safe X" "calloc X tid lr n sz w = (p, w')"
  shows "calm w'"
proof -
  obtain d u where f: "first_call_diag X RF_calloc w = (d, u)" by fastforce
  note qu = first_call_quiet [OF f]
  note u = quiet_tracing [OF qu assms(1)]
  obtain e v where s: "hook_slot X tid u = (e, v)" by fastforce
  note qv = hook_slot_quiet [OF s]
  note v = quiet_tracing [OF qv u]
  have cv: "calm v" using quiet_calm [OF qu] quiet_calm [OF qv] assms(2) by simp
  obtain k S where S: "running k v S" using v by (auto simp: tracing_def)
  obtain q x where m: "malloc X tid (x_hook_pc X) (n * sz) v = (q, x)" by fastforce
  have x: "calm x" by (rule malloc_calm [OF v cv assms(3) m])
  have "calm (x\<lparr>g_mem := y\<rparr>) = calm x" for y by (rule calm_prot) simp
  moreover have "calloc_through X n sz v = (p, w') \<or> w' = v \<or> w' = x \<or> (\<exists>y. w' = x\<lparr>g_mem := y\<rparr>)"
    using assms(4) f s m S by (auto simp: calloc_def Let_def split: sum.splits if_splits)
  ultimately show ?thesis using x cv through_calm(5) [OF v, of X n sz p w'] by auto
qed

lemma realloc_entered_calm:
  assumes "tracing w" "calm w" "bt_safe X" "p \<noteq> NULL" "realloc_entered X tid i lr p sz w = (q, w')"
  shows "calm w'"
proof -
  define y where "y = mtt_ensure_init X tid w"
  have qy: "quiet w y" unfolding y_def by (rule tracing_init [OF assms(1)])
  note y = quiet_tracing [OF qy assms(1)]
  have cy: "calm y" using quiet_calm [OF qy] assms(2) by simp
  obtain k S where S: "running k y S" using y by (auto simp: tracing_def)
  have "realloc_through X p sz w = (q, w') \<or> realloc_through X p sz y = (q, w') \<or>
      realloc_raw X tid forget_bytes_moved False p sz y = (q, w')"
    using assms(1,5) y by (auto simp: realloc_entered_def Let_def y_def [symmetric] tracing_def split: if_splits)
  then show ?thesis
    using through_calm(6) [OF assms(1)] through_calm(6) [OF y] assms(2) cy
      realloc_raw_calm [OF S assms(4) _ cy assms(3) exact_forgets(2)] tracing_raws [OF y] by blast
qed

lemma realloc_calm:
  assumes "tracing w" "calm w" "bt_safe X" "realloc X tid lr p sz w = (q, w')"
  shows "calm w'"
proof -
  obtain d u where f: "first_call_diag X RF_realloc w = (d, u)" by fastforce
  note qu = first_call_quiet [OF f]
  note u = quiet_tracing [OF qu assms(1)]
  have cu: "calm u" using quiet_calm [OF qu] assms(2) by simp
  obtain h v where b: "hook_begin X tid u = (h, v)" by fastforce
  note qv = tracing_begin [OF u b]
  note v = quiet_tracing [OF qv u]
  have cv: "calm v" using quiet_calm [OF qv] cu by simp
  consider "p = NULL" | "p \<noteq> NULL" "sz = 0" | "p \<noteq> NULL" "sz \<noteq> 0" by blast
  then show ?thesis
  proof cases
    case 1
    then show ?thesis using assms(4) f malloc_calm [OF u cu assms(3)] by (simp add: realloc_def)
  next
    case 2
    then show ?thesis using assms(4) f free_calm [OF u cu] by (auto simp: realloc_def)
  next
    case 3
    show ?thesis
    proof (cases h)
      case (HE_ENTERED i saved)
      obtain a x where e: "realloc_entered X tid i lr p sz v = (a, x)" by fastforce
      have "w' = hook_leave X tid i saved x" using assms(4) f b e HE_ENTERED 3 by (simp add: realloc_def)
      then show ?thesis using realloc_entered_calm [OF v cv assms(3) 3(1) e] by simp
    qed (use assms(4) f b 3 cv through_calm(6) [OF v, of X p sz q w'] in \<open>simp_all add: realloc_def\<close>)
  qed
qed

lemma hook_call_calm:
  assumes "tracing w" "calm w" "bt_safe X"
  shows "calm (snd (hook_call X c w))"
proof (cases c)
  case (OP_free tid lr q)
  then show ?thesis using free_calm [OF assms(1,2)] by simp
next
  case (OP_malloc tid lr sz)
  then show ?thesis using malloc_calm [OF assms, of tid lr sz] by (cases "malloc X tid lr sz w") simp
next
  case (OP_calloc tid lr n sz)
  then show ?thesis using calloc_calm [OF assms, of tid lr n sz] by (cases "calloc X tid lr n sz w") simp
next
  case (OP_realloc tid lr p sz)
  then show ?thesis using realloc_calm [OF assms, of tid lr p sz] by (cases "realloc X tid lr p sz w") simp
qed

lemma ready_calm: "calm ready_world"
  by (simp add: calm_def prot_idle_def ready_world_def pool_world_def demo_world_def)

lemma demo_bt_safe: "bt_safe demo_ext"
  by (simp add: bt_safe_def demo_ext_def)

section \<open>Strings\<close>

text \<open>The search for the terminator ends where there is one.\<close>

lemma strlen_returns:
  assumes "m (p + of_nat k) = 0" "\<forall>j < k. m (p + of_nat j) \<noteq> 0"
  shows "strlen m p n = Some (n + of_nat k)"
  using assms
proof (induction k arbitrary: p n)
  case 0
  then show ?case by (subst strlen.simps) simp
next
  case (Suc k)
  have nz: "m p \<noteq> 0" using Suc.prems(2) [rule_format, of 0] by simp
  have "strlen m (p + 1) (n + 1) = Some (n + 1 + of_nat k)"
  proof (rule Suc.IH)
    show "m (p + 1 + of_nat k) = 0" using Suc.prems(1) by (simp add: add.assoc)
    show "\<forall>j < k. m (p + 1 + of_nat j) \<noteq> 0"
    proof (intro allI impI)
      fix j assume "j < k"
      then show "m (p + 1 + of_nat j) \<noteq> 0" using Suc.prems(2) [rule_format, of "Suc j"] by (simp add: add.assoc)
    qed
  qed
  then show ?case using nz by (subst strlen.simps) (simp add: add.assoc)
qed

section \<open>Properties\<close>

text \<open>C2. Every call returns: with the tracker initialised and working from its record pool, its mutexes
  free, the raw pointers resolved to the C library and the unwinder idle, no sequence of calls of malloc,
  calloc, realloc and free, by any threads, makes a thread block on a mutex, follow a chain of records
  without an end or die in the unwinder, and afterwards the tracker is in operation and the unwinder idle
  again. The \<open>backtrace\<close> of the C library does not fault (the tracer calls it unprotected), and less than
  \<open>2\<^sup>6\<^sup>4\<close> bytes are asked for in all.\<close>

theorem hooks_return:
  assumes "running k w S" "raw_malloc w = F_LIBC" "raw_free w = F_LIBC" "raw_realloc w = F_LIBC"
    and "live_bytes S + sum_list (map requested cs) < 2 ^ 64" "bt_safe X" "\<not> g_hung w" "prot_idle w"
  shows "\<not> g_hung (snd (hook_run X cs w)) \<and> prot_idle (snd (hook_run X cs w)) \<and>
    (\<exists>S'. running k (snd (hook_run X cs w)) S')"
  using assms
proof (induction cs arbitrary: w S)
  case (Cons c cs)
  define u where "u = hooks.heap_step X c w"
  obtain T where T: "running k u T" "live_bytes T \<le> live_bytes S + requested c"
    using hooks.step_running [OF Cons.prems(1), of c X] Cons.prems(5) by (auto simp: u_def)
  have raws: "raw_malloc u = F_LIBC" "raw_free u = F_LIBC" "raw_realloc u = F_LIBC"
    using T(1) Cons.prems(1-4) by (auto simp: running_def setup_of_def)
  have "tracing w" "calm w" using Cons.prems by (auto simp: tracing_def calm_def)
  from hook_call_calm [OF this Cons.prems(6), of c] have c: "\<not> g_hung u" "prot_idle u"
    by (simp_all add: u_def hook_call_step calm_def)
  have "live_bytes T + sum_list (map requested cs) < 2 ^ 64" using T(2) Cons.prems(5) by simp
  from Cons.IH [OF T(1) raws this Cons.prems(6) c] show ?case
    by (simp add: case_prod_beta hook_call_step u_def)
qed auto

theorem hooks_return_witness:
  "\<not> g_hung (snd (hook_run demo_ext [OP_malloc 7 0x400000 24, OP_realloc 7 0x400000 0x10000000 48] ready_world))"
  using hooks_return [OF ready_running, of "[OP_malloc 7 0x400000 24, OP_realloc 7 0x400000 0x10000000 48]" demo_ext]
    ready_calm demo_bt_safe by (simp add: calm_def)

text \<open>C28. \<open>strdup\<close> returns a copy: with the tracker initialised and working from its record pool, its
  mutexes free, the raw pointers resolved to the C library and the unwinder idle, for a call from outside the
  blacklisted libraries and a string whose terminator is \<open>k\<close> bytes on, the search for the terminator ends, the
  C library is asked for \<open>k + 1\<close> bytes, and if it has them the call returns that block, holding a copy of the
  string with its terminator, without blocking or dying on the way. The \<open>backtrace\<close> of the C library does
  not fault.\<close>

theorem strdup_copies:
  assumes "tracing w" "\<not> mtt_is_lr_in_blacklist lr w" "s \<noteq> NULL" "k < 2 ^ 64 - 1"
    and "g_mem w (s + of_nat k) = 0" "\<forall>j < k. g_mem w (s + of_nat j) \<noteq> 0"
    and "fst (x_malloc X (g_ext w) (of_nat k + 1)) = p" "p \<noteq> NULL"
    and "bt_safe X" "\<not> g_hung w" "prot_idle w"
  shows "\<exists>w'. strdup X tid lr s w = (p, w') \<and> \<not> g_hung w' \<and>
    (\<forall>j \<le> k. g_mem w' (p + of_nat j) = g_mem w (s + of_nat j))"
proof -
  have len: "strlen (g_mem w) s 0 = Some (of_nat k)" using strlen_returns [of "g_mem w" s k 0] assms(5,6) by simp
  obtain q v where m: "malloc X tid (x_hook_pc X) (of_nat k + 1) w = (q, v)" by fastforce
  have "(q, g_ext v, g_mem v) = asked_call X (OP_malloc 0 0 (of_nat k + 1)) (g_ext w, g_mem w)"
    using malloc_heap [OF assms(1) m] by (simp add: heap_of_def)
  then have q: "q = p" "g_mem v = g_mem w" using assms(7) by (auto simp: case_prod_beta)
  define w' where "w' = v\<lparr>g_mem := memcpy p s (of_nat k + 1) (g_mem w)\<rparr>"
  have r: "strdup X tid lr s w = (p, w')"
    unfolding strdup_def string_alloc_def w'_def Let_def using assms(2,3,8) len m q by simp
  have "g_mem w' (p + of_nat j) = g_mem w (s + of_nat j)" if "j \<le> k" for j
  proof -
    have "unat (of_nat (k + 1) :: size_t) = k + 1" "unat (of_nat j :: size_t) = j"
      using assms(4) that by (simp_all only: unat_of_nat) simp_all
    then have "(of_nat j :: size_t) < of_nat k + 1" using that unfolding word_less_nat_alt by (simp add: add.commute)
    then show ?thesis by (simp add: w'_def memcpy_def)
  qed
  moreover have "calm v" using malloc_calm [OF assms(1) _ assms(9) m] assms(10,11) by (simp add: calm_def)
  then have "\<not> g_hung w'" by (simp add: w'_def calm_def)
  ultimately show ?thesis using r by blast
qed

theorem strdup_copies_witness:
  "fst (strdup demo_ext 7 0x400000 0x5000 (ready_world\<lparr>g_mem := (\<lambda>_. 0)(0x5000 := 65)\<rparr>)) = 0x10000000
   \<and> \<not> g_hung (snd (strdup demo_ext 7 0x400000 0x5000 (ready_world\<lparr>g_mem := (\<lambda>_. 0)(0x5000 := 65)\<rparr>)))"
proof -
  let ?w = "ready_world\<lparr>g_mem := (\<lambda>_. 0)(0x5000 := 65)\<rparr>"
  have "tracing ?w" using mem_running [OF ready_running] by (auto simp: tracing_def)
  moreover have "\<not> mtt_is_lr_in_blacklist 0x400000 ?w"
    by (simp add: mtt_is_lr_in_blacklist_def ready_world_def pool_world_def demo_world_def)
  moreover note demo_bt_safe
  ultimately have "\<exists>w'. strdup demo_ext 7 0x400000 0x5000 ?w = (0x10000000, w') \<and> \<not> g_hung w' \<and>
      (\<forall>j \<le> 1. g_mem w' (0x10000000 + of_nat j) = g_mem ?w (0x5000 + of_nat j))"
    by (intro strdup_copies)
      (simp_all add: prot_idle_def ready_world_def pool_world_def demo_world_def demo_ext_def demo_malloc_def)
  then show ?thesis by auto
qed

end
