(* ===== verification/Stack_Cache.thy ===== *)
theory Stack_Cache
  imports Raw_Alloc Proc_Maps
begin

text \<open>
  \<^verbatim>\<open>stack_cache.c\<close>: the hash of a call stack, the cache of stacks with their symbols, the
  cache of symbols by address, and the resolution of a frame to text. Frames are the 64-bit
  words of the array, so the branches of the hash for a remainder of less than 8 bytes do not
  arise. A bucket of the stack cache is the list of its nodes, newest first. The build is a C
  build, without \<^verbatim>\<open>cxxabi.h\<close> and with \<^verbatim>\<open>backtrace_symbols\<close>; the block that function
  returns is released by its caller and left out.
\<close>

section \<open>The hash of a stack\<close>

definition XXH_PRIME64_1 :: u64 where "XXH_PRIME64_1 = 0x9E3779B185EBCA87"
definition XXH_PRIME64_2 :: u64 where "XXH_PRIME64_2 = 0xC2B2AE3D27D4EB4F"
definition XXH_PRIME64_3 :: u64 where "XXH_PRIME64_3 = 0x165667B19E3779F9"
definition XXH_PRIME64_4 :: u64 where "XXH_PRIME64_4 = 0x85EBCA77C2B2AE63"
definition XXH_PRIME64_5 :: u64 where "XXH_PRIME64_5 = 0x27D4EB2F165667C5"

definition rotl :: "nat \<Rightarrow> u64 \<Rightarrow> u64" where
  "rotl k a = push_bit k a OR drop_bit (64 - k) a"

definition xxhash64_round :: "u64 \<Rightarrow> u64 \<Rightarrow> u64" where
  "xxhash64_round acc input = rotl 31 (acc + input * XXH_PRIME64_2) * XXH_PRIME64_1"

text \<open>Blocks of four words, and the words that remain.\<close>

fun xxh_blocks :: "u64 \<times> u64 \<times> u64 \<times> u64 \<Rightarrow> ptr list \<Rightarrow> (u64 \<times> u64 \<times> u64 \<times> u64) \<times> ptr list" where
  "xxh_blocks (v1, v2, v3, v4) (k1 # k2 # k3 # k4 # ks) =
     xxh_blocks (xxhash64_round v1 k1, xxhash64_round v2 k2, xxhash64_round v3 k3, xxhash64_round v4 k4) ks"
| "xxh_blocks v ks = (v, ks)"

fun xxh_words :: "u64 \<Rightarrow> ptr list \<Rightarrow> u64" where
  "xxh_words h64 [] = h64"
| "xxh_words h64 (k # ks) =
     (let k1 = rotl 31 (k * XXH_PRIME64_2) * XXH_PRIME64_1;
          h64 = h64 XOR k1
      in xxh_words (rotl 27 h64 * XXH_PRIME64_1 + XXH_PRIME64_4) ks)"

definition xxh_mix :: "u64 \<Rightarrow> u64" where
  "xxh_mix h64 =
     (let h64 = h64 XOR drop_bit 33 h64;
          h64 = h64 * XXH_PRIME64_2;
          h64 = h64 XOR drop_bit 29 h64;
          h64 = h64 * XXH_PRIME64_3
      in h64 XOR drop_bit 32 h64)"

text \<open>What is added is the length that remains after the blocks.\<close>

definition xxhash64_frames :: "ptr list \<Rightarrow> u64 \<Rightarrow> u64" where
  "xxhash64_frames frames seed =
     (if frames = [] then 0
      else
        let (h64, rest) =
              (if length frames \<ge> 4 then
                 let ((v1, v2, v3, v4), rest) =
                       xxh_blocks (seed + XXH_PRIME64_1 + XXH_PRIME64_2, seed + XXH_PRIME64_2, seed + 0,
                                   seed - XXH_PRIME64_1) frames;
                     h64 = rotl 1 v1 + rotl 7 v2 + rotl 12 v3 + rotl 18 v4;
                     h64 = xxhash64_round h64 v1;
                     h64 = xxhash64_round h64 v2;
                     h64 = xxhash64_round h64 v3
                 in (xxhash64_round h64 v4, rest)
               else (seed + XXH_PRIME64_5, frames))
        in xxh_mix (xxh_words (h64 + of_nat (8 * length rest)) rest))"

definition mtt_stack_hash_compute :: "ptr list \<Rightarrow> int \<Rightarrow> u64" where
  "mtt_stack_hash_compute frames frame_count =
     (if frame_count \<le> 0 then 0
      else
        let start = (if frame_count > 1 then 1 else 0);
            count = nat frame_count - start
        in xxhash64_frames (map MTT_FIX_THUMB_ADDR (take count (drop start frames))) 0x9e3779b97f4a7c15)"

section \<open>Symbols by address\<close>

definition ADDR_CACHE_BUCKETS :: nat where "ADDR_CACHE_BUCKETS = 512"

definition addr_bucket :: "ptr \<Rightarrow> nat" where
  "addr_bucket addr = unat ((drop_bit 3 addr * 11400714819323198485) AND (of_nat ADDR_CACHE_BUCKETS - 1))"

definition addr_slot :: "ptr \<Rightarrow> nat \<Rightarrow> nat" where
  "addr_slot addr i = (addr_bucket addr + i) mod ADDR_CACHE_BUCKETS"

definition addr_cache_lookup :: "ptr \<Rightarrow> nat \<Rightarrow> 'l world \<Rightarrow> string option" where
  "addr_cache_lookup addr out_size w =
     (if addr = NULL \<or> out_size = 0 then None
      else
        case find (\<lambda>i. fst (g_addr_cache w (addr_slot addr i)) = addr) [0..<4] of
          None \<Rightarrow> None
        | Some i \<Rightarrow> Some (copy_trunc out_size (snd (g_addr_cache w (addr_slot addr i)))))"

definition addr_cache_insert :: "ptr \<Rightarrow> string \<Rightarrow> 'l world \<Rightarrow> 'l world" where
  "addr_cache_insert addr symbol w =
     (if addr = NULL then w
      else
        let idx = (case find (\<lambda>i. fst (g_addr_cache w (addr_slot addr i)) \<in> {NULL, addr}) [0..<4] of
                     None \<Rightarrow> addr_bucket addr
                   | Some i \<Rightarrow> addr_slot addr i)
        in w\<lparr>g_addr_cache := (g_addr_cache w)(idx := (addr, copy_trunc MTT_SYMBOL_MAX symbol))\<rparr>)"

definition demangle_symbol :: "string \<Rightarrow> nat \<Rightarrow> string" where
  "demangle_symbol mangled buf_size = copy_trunc buf_size mangled"

section \<open>The stack cache\<close>

definition sizeof_stack_entry :: size_t where "sizeof_stack_entry = 16920"

text \<open>An entry for these frames.\<close>

definition stack_match :: "u64 \<Rightarrow> ptr list \<Rightarrow> int \<Rightarrow> stack_entry \<Rightarrow> bool" where
  "stack_match hash frames frame_count e \<longleftrightarrow>
     k_hash e = hash \<and> k_frame_count e = frame_count \<and>
     take (nat frame_count) (k_frames e) = map MTT_FIX_THUMB_ADDR (take (nat frame_count) frames)"

definition new_stack_entry :: "u64 \<Rightarrow> ptr list \<Rightarrow> int \<Rightarrow> stack_entry" where
  "new_stack_entry hash frames frame_count =
     (let n = nat frame_count
      in \<lparr>k_hash = hash,
          k_frames = map MTT_FIX_THUMB_ADDR (take n frames) @ replicate (MTT_STACK_DEPTH - n) NULL,
          k_frame_count = frame_count, k_resolved = replicate MTT_STACK_DEPTH [], k_is_resolved = False\<rparr>)"

definition stack_bucket :: "u64 \<Rightarrow> nat" where
  "stack_bucket hash = unat (hash AND (of_nat MTT_STACK_CACHE_SIZE - 1))"

definition sc_lock_set :: "bool \<Rightarrow> 'l world \<Rightarrow> 'l world" where
  "sc_lock_set b w = w\<lparr>g_stack_cache := (g_stack_cache w)\<lparr>sc_lock := b\<rparr>\<rparr>"

definition mtt_stack_cache_lookup :: "'l ext \<Rightarrow> ptr list \<Rightarrow> int \<Rightarrow> 'l world \<Rightarrow> ptr \<times> 'l world" where
  "mtt_stack_cache_lookup X frames frame_count w =
     (if frame_count \<le> 0 then (NULL, w)
      else
        let hash = mtt_stack_hash_compute frames frame_count;
            bucket = stack_bucket hash;
            w = sc_lock_set True (w\<lparr>g_hung := (g_hung w \<or> sc_lock (g_stack_cache w))\<rparr>)
        in case find (\<lambda>a. stack_match hash frames frame_count (g_stack_heap w a))
                  (sc_entries (g_stack_cache w) bucket) of
             Some e \<Rightarrow> (e, sc_lock_set False w)
           | None \<Rightarrow>
               if sc_count (g_stack_cache w) \<ge> of_nat MTT_STACK_CACHE_SIZE then (NULL, sc_lock_set False w)
               else
                 let (new_entry, w) = call_malloc X sizeof_stack_entry w
                 in if new_entry = NULL then (NULL, sc_lock_set False w)
                    else
                      let w = w\<lparr>g_stack_heap := (g_stack_heap w)(new_entry := new_stack_entry hash frames frame_count)\<rparr>;
                          c = g_stack_cache w;
                          c = c\<lparr>sc_entries := (sc_entries c)(bucket := new_entry # sc_entries c bucket),
                                sc_count := sc_count c + 1\<rparr>
                      in (new_entry, sc_lock_set False (w\<lparr>g_stack_cache := c\<rparr>)))"


section \<open>The address for addr2line\<close>

definition main_is_non_pie :: "'l ext \<Rightarrow> 'l world \<Rightarrow> int \<times> 'l world" where
  "main_is_non_pie X w =
     (if g_non_pie_cached w \<ge> 0 then (g_non_pie_cached w, w)
      else
        let w = w\<lparr>g_non_pie_cached := 0\<rparr>
        in case x_exe_header X (g_ext w) of
             None \<Rightarrow> (g_non_pie_cached w, w)
           | Some bytes \<Rightarrow>
               let hdr = take 64 bytes
               in if length hdr < 20 then (g_non_pie_cached w, w)
                  else if take 4 hdr = [0x7f, 0x45, 0x4c, 0x46] \<and> hdr ! 16 + 256 * (hdr ! 17) = 2
                  then (1, w\<lparr>g_non_pie_cached := 1\<rparr>)
                  else (g_non_pie_cached w, w))"

definition is_main_exe_path :: "'l ext \<Rightarrow> string \<Rightarrow> 'l world \<Rightarrow> bool \<times> 'l world" where
  "is_main_exe_path X fname w =
     (if fname = [] then (False, w)
      else if g_exe_path w = [] then
        (case x_readlink_exe X (g_ext w) of
           None \<Rightarrow> (False, w)
         | Some target \<Rightarrow>
             if target = [] then (False, w)
             else (fname = take 511 target, w\<lparr>g_exe_path := take 511 target\<rparr>))
      else (fname = g_exe_path w, w))"

definition frame_addr2line_addr :: "'l ext \<Rightarrow> ptr \<Rightarrow> string \<Rightarrow> ptr \<Rightarrow> 'l world \<Rightarrow> u64 \<times> 'l world" where
  "frame_addr2line_addr X addr fname dli_fbase w =
     (let (non_pie, w) = main_is_non_pie X w;
          (is_main, w) = (if non_pie \<noteq> 0 then is_main_exe_path X fname w else (False, w))
      in if is_main then (addr, w)
         else if dli_fbase \<noteq> NULL then (addr - dli_fbase, w)
         else (addr, w))"

section \<open>The text of a frame\<close>

text \<open>\<open>strtoul (s, NULL, 16)\<close> and \<open>%#tx\<close>.\<close>

definition strtoul16 :: "string \<Rightarrow> u64" where
  "strtoul16 s =
     (let s = skip_ws s;
          neg = (s \<noteq> [] \<and> hd s = CHR ''-'');
          s = (if s \<noteq> [] \<and> hd s \<in> {CHR ''-'', CHR ''+''} then tl s else s);
          s = (if (starts_with ''0x'' s \<or> starts_with ''0X'' s) \<and> length s > 2 \<and> is_hex (s ! 2)
               then drop 2 s else s);
          n = hex_value (takeWhile is_hex s)
      in if n > 2 ^ 64 - 1 then - 1 else if neg then - of_nat n else of_nat n)"

definition alt_hex :: "u64 \<Rightarrow> string" where
  "alt_hex v = (if v = 0 then ''0'' else ''0x'' @ hex_string (unat v))"

text \<open>
  The positions of \<open>(\<close>, and from there of \<open>+\<close> and of \<open>)\<close>, in a string that
  \<open>backtrace_symbols\<close> returned; the characters between two positions.
\<close>

record sym_marks =
  m_paren :: "nat option"
  m_plus :: "nat option"
  m_rparen :: "nat option"

definition sym_marks_of :: "string \<Rightarrow> sym_marks" where
  "sym_marks_of s =
     (case strchr s (CHR ''('') of
        None \<Rightarrow> \<lparr>m_paren = None, m_plus = None, m_rparen = None\<rparr>
      | Some i \<Rightarrow>
          \<lparr>m_paren = Some i,
           m_plus = map_option ((+) i) (strchr (drop i s) (CHR ''+'')),
           m_rparen = map_option ((+) i) (strchr (drop i s) (CHR '')''))\<rparr>)"

definition between :: "nat \<Rightarrow> nat \<Rightarrow> string \<Rightarrow> string" where
  "between i j s = take (j - i - 1) (drop (Suc i) s)"

text \<open>The three forms the code tells apart: a name with an offset, a name alone, neither.\<close>

datatype sym_form = SYM_OFFSET string u64 | SYM_NAME string | SYM_NONE

definition sym_form_of :: "string \<Rightarrow> sym_form" where
  "sym_form_of s =
     (let m = sym_marks_of s
      in case (m_paren m, m_plus m, m_rparen m) of
           (Some i, Some j, Some k) \<Rightarrow>
             if j > i \<and> j < k then SYM_OFFSET (between i j s) (strtoul16 (drop (Suc j) s))
             else if k > Suc i then SYM_NAME (between i k s) else SYM_NONE
         | (Some i, None, Some k) \<Rightarrow> if k > Suc i then SYM_NAME (between i k s) else SYM_NONE
         | _ \<Rightarrow> SYM_NONE)"

text \<open>
  The binary before the parenthesis, without \<open>./\<close>, where \<open>brackets\<close> without a leading
  \<open>[0xADDR]\<close> too, and without trailing blanks. The empty string stands for none.
\<close>

definition sym_binary :: "bool \<Rightarrow> string \<Rightarrow> string" where
  "sym_binary brackets s =
     (case m_paren (sym_marks_of s) of
        None \<Rightarrow> []
      | Some i \<Rightarrow>
          if i = 0 then []
          else
            let start = (if starts_with ''./'' s then 2 else 0);
                start = (if brackets \<and> starts_with ''['' (drop start s)
                         then (case strchr (drop start s) (CHR '' '') of Some sp \<Rightarrow> start + sp + 1 | None \<Rightarrow> start)
                         else start)
            in rev (dropWhile is_blank (rev (take (i - start) (drop start s)))))"

text \<open>
  The three uses of that string: to correct a frame that \<open>dladdr\<close> attributed to the
  tracer itself, to find the name where \<open>dladdr\<close> found none, and where \<open>dladdr\<close> failed.
  Each returns the function name, the offset and the library name.
\<close>

definition own_library :: "string \<Rightarrow> bool" where
  "own_library lib \<longleftrightarrow> strstr lib ''libmemorytracetool'' \<noteq> None"

definition correct_frame :: "string option \<Rightarrow> string \<times> u64 \<times> string \<Rightarrow> string \<times> u64 \<times> string" where
  "correct_frame syms info =
     (case info of (func_name, func_off, lib_name) \<Rightarrow>
        let (func_name, func_off, lib_name) =
              (case syms of
                 None \<Rightarrow> (func_name, func_off, lib_name)
               | Some s \<Rightarrow>
                   let bin = sym_binary False s;
                       lib_name = (if bin \<noteq> [] then copy_trunc 256 bin else lib_name)
                   in case sym_form_of s of
                        SYM_OFFSET f off \<Rightarrow> (if length f > 0 \<and> length f < 256 then f else [], off, lib_name)
                      | SYM_NAME f \<Rightarrow>
                          (if length f > 0 \<and> length f < 256 then f else func_name, func_off, lib_name)
                      | SYM_NONE \<Rightarrow> ([], func_off, lib_name))
        in (if func_name = [] then ''??'' else func_name, func_off, lib_name))"

definition name_frame :: "string option \<Rightarrow> u64 \<Rightarrow> string \<Rightarrow> string \<times> u64 \<times> string" where
  "name_frame syms func_off lib_name =
     (let (func_name, func_off, lib_name) =
            (case syms of
               None \<Rightarrow> ([], func_off, lib_name)
             | Some s \<Rightarrow>
                 let bin = sym_binary True s;
                     lib_name = (if bin \<noteq> [] \<and> own_library lib_name then copy_trunc 256 bin else lib_name)
                 in case sym_form_of s of
                      SYM_OFFSET f off \<Rightarrow> (copy_trunc 256 f, off, lib_name)
                    | SYM_NAME f \<Rightarrow> (copy_trunc 256 f, func_off, lib_name)
                    | SYM_NONE \<Rightarrow> ([], func_off, lib_name))
      in (if func_name = [] then ''??'' else func_name, func_off, lib_name))"

definition lost_frame :: "string option \<Rightarrow> ptr \<Rightarrow> string \<times> u64 \<times> string" where
  "lost_frame syms addr =
     (let (func_name, func_off) =
            (case syms of
               None \<Rightarrow> ([], 0)
             | Some s \<Rightarrow>
                 case sym_form_of s of
                   SYM_OFFSET f off \<Rightarrow> (copy_trunc 256 f, off)
                 | SYM_NAME f \<Rightarrow> (copy_trunc 256 f, 0)
                 | SYM_NONE \<Rightarrow> ([], 0))
      in (if func_name = [] then alt_hex addr else func_name, func_off, ''??''))"

text \<open>A difference that is negative as a \<open>ptrdiff_t\<close> becomes 0.\<close>

definition non_negative :: "u64 \<Rightarrow> u64" where
  "non_negative v = (if sint v < 0 then 0 else v)"

text \<open>The name, the offset in the function, the library and the offset in the file, for a frame that is not cached.\<close>

definition locate_frame :: "'l ext \<Rightarrow> ptr \<Rightarrow> 'l world \<Rightarrow> (string \<times> u64 \<times> string \<times> u64) \<times> 'l world" where
  "locate_frame X addr w =
     (let syms = x_backtrace_symbol X (g_ext w) addr
      in case x_dladdr X (g_ext w) addr of
           Some (dli_fname, dli_fbase, dli_sname, dli_saddr) \<Rightarrow>
             let full_fname = (case dli_fname of Some f \<Rightarrow> f | None \<Rightarrow> []);
                 lib_name = basename full_fname;
                 (file_off, w) = (if dli_fbase \<noteq> NULL
                                  then let (v, w) = frame_addr2line_addr X addr full_fname dli_fbase w
                                       in (non_negative v, w)
                                  else (0, w));
                 (func_name, func_off, lib_name) =
                   (case dli_sname of
                      Some sname \<Rightarrow>
                        let func_name = copy_trunc 256 sname;
                            func_off = (if dli_saddr \<noteq> NULL
                                        then non_negative (addr - MTT_FIX_THUMB_ADDR dli_saddr) else 0)
                        in if own_library lib_name then correct_frame syms (func_name, func_off, lib_name)
                           else (func_name, func_off, lib_name)
                    | None \<Rightarrow>
                        name_frame syms (if dli_fbase \<noteq> NULL then non_negative (addr - dli_fbase) else 0) lib_name)
             in ((func_name, func_off, lib_name, file_off), w)
         | None \<Rightarrow>
             let (func_name, func_off, lib_name) = lost_frame syms addr
             in ((func_name, func_off, lib_name, 0), w))"

text \<open>\<open>None\<close> where the buffer is not written.\<close>

definition resolve_one_frame :: "'l ext \<Rightarrow> ptr \<Rightarrow> nat \<Rightarrow> 'l world \<Rightarrow> string option \<times> 'l world" where
  "resolve_one_frame X addr out_size w =
     (if addr = NULL \<or> out_size = 0 then (None, w)
      else
        case addr_cache_lookup addr out_size w of
          Some s \<Rightarrow> (Some s, w)
        | None \<Rightarrow>
            let ((func_name, func_off, lib_name, file_off), w) = locate_frame X addr w;
                out = copy_trunc out_size (demangle_symbol func_name 256 @ ''+'' @ alt_hex func_off @ '' ('' @
                                           lib_name @ ''+'' @ alt_hex file_off @ '')'')
            in (Some out, addr_cache_insert addr out w))"

definition resolve_into :: "'l ext \<Rightarrow> ptr \<Rightarrow> nat \<Rightarrow> 'l world \<Rightarrow> 'l world" where
  "resolve_into X e i w =
     (case resolve_one_frame X (k_frames (g_stack_heap w e) ! i) MTT_SYMBOL_MAX w of
        (None, w) \<Rightarrow> w
      | (Some s, w) \<Rightarrow>
          w\<lparr>g_stack_heap := (g_stack_heap w)(e := (g_stack_heap w e)
              \<lparr>k_resolved := (k_resolved (g_stack_heap w e))[i := s]\<rparr>)\<rparr>)"

definition mtt_stack_resolve :: "'l ext \<Rightarrow> ptr \<Rightarrow> 'l world \<Rightarrow> 'l world" where
  "mtt_stack_resolve X e w =
     (if e = NULL \<or> k_is_resolved (g_stack_heap w e) then w
      else
        let w = fold (resolve_into X e) [0..<nat (k_frame_count (g_stack_heap w e))] w
        in w\<lparr>g_stack_heap := (g_stack_heap w)(e := (g_stack_heap w e)\<lparr>k_is_resolved := True\<rparr>)\<rparr>)"


section \<open>The address cache as a map\<close>

text \<open>
  The slots before the one that holds an address are in use, for other addresses: an address
  is in at most one of its four slots, and before any free one. The entry of a slot is read
  back by \<open>addr_cache_lookup\<close> whatever the other addresses with slots in common.
\<close>

definition addr_cache_ok :: "'l world \<Rightarrow> bool" where
  "addr_cache_ok w \<longleftrightarrow>
     (\<forall>a i j. a \<noteq> NULL \<and> i < 4 \<and> j < i \<and> fst (g_addr_cache w (addr_slot a i)) = a \<longrightarrow>
              fst (g_addr_cache w (addr_slot a j)) \<notin> {NULL, a})"

lemma find_upt_Some:
  "find P [0..<n] = Some i \<longleftrightarrow> i < n \<and> P i \<and> (\<forall>j<i. \<not> P j)"
  by (auto simp: find_Some_iff)

lemma find_upt_None: "find P [0..<n] = None \<longleftrightarrow> (\<forall>i<n. \<not> P i)"
  by (auto simp: find_None_iff)

lemma mod_shift_le:
  assumes "j < n" "i \<le> j" "(b + i) mod n = (b + j) mod (n :: nat)"
  shows "i = j"
proof -
  obtain q where "b + j = b + i + n * q" using mod_eq_nat1E [OF assms(3) [symmetric]] assms(2) by auto
  then have "j = i + n * q" by simp
  then show ?thesis using assms(1) by (cases q) auto
qed

lemma addr_slot_inj: "i < 4 \<Longrightarrow> j < 4 \<Longrightarrow> addr_slot a i = addr_slot a j \<longleftrightarrow> i = j"
  using mod_shift_le [of j ADDR_CACHE_BUCKETS i "addr_bucket a"] mod_shift_le [of i ADDR_CACHE_BUCKETS j "addr_bucket a"]
  by (fastforce simp: addr_slot_def ADDR_CACHE_BUCKETS_def)

lemma addr_bucket_less: "addr_bucket a < ADDR_CACHE_BUCKETS"
proof -
  let ?h = "drop_bit 3 a * 11400714819323198485 :: u64"
  have "unat (?h AND 511) \<le> unat (511 :: u64)"
    using word_and_le1 [of ?h 511] by (simp add: word_le_nat_alt)
  then show ?thesis by (simp add: addr_bucket_def ADDR_CACHE_BUCKETS_def)
qed

lemma addr_slot_0 [simp]: "addr_slot a 0 = addr_bucket a"
  using addr_bucket_less [of a] by (simp add: addr_slot_def)

text \<open>The slot an insertion writes: the first free or matching one, or the first where there is none.\<close>

lemma addr_cache_insert_slot:
  assumes "a \<noteq> NULL"
  obtains i where "i < 4"
    and "addr_cache_insert a s w =
           w\<lparr>g_addr_cache := (g_addr_cache w)(addr_slot a i := (a, copy_trunc MTT_SYMBOL_MAX s))\<rparr>"
    and "\<And>j. j < i \<Longrightarrow> fst (g_addr_cache w (addr_slot a j)) \<notin> {NULL, a}"
    and "fst (g_addr_cache w (addr_slot a i)) \<in> {NULL, a} \<or>
         (\<forall>j<4. fst (g_addr_cache w (addr_slot a j)) \<noteq> a)"
proof (cases "find (\<lambda>i. fst (g_addr_cache w (addr_slot a i)) \<in> {NULL, a}) [0..<4]")
  case None
  then have "\<forall>j<4. fst (g_addr_cache w (addr_slot a j)) \<noteq> a" by (simp add: find_upt_None)
  then show ?thesis using None assms by (intro that [of 0]) (simp_all add: addr_cache_insert_def)
next
  case (Some i)
  then show ?thesis
    using assms Some [unfolded find_upt_Some] by (intro that [of i]) (auto simp: addr_cache_insert_def)
qed

lemma addr_cache_lookup_Some:
  assumes "a \<noteq> NULL" "0 < n" "i < 4" "fst (g_addr_cache w (addr_slot a i)) = a"
    and "\<And>j. j < i \<Longrightarrow> fst (g_addr_cache w (addr_slot a j)) \<noteq> a"
  shows "addr_cache_lookup a n w = Some (copy_trunc n (snd (g_addr_cache w (addr_slot a i))))"
proof -
  have "find (\<lambda>i. fst (g_addr_cache w (addr_slot a i)) = a) [0..<4] = Some i"
    using assms by (simp add: find_upt_Some)
  then show ?thesis using assms by (simp add: addr_cache_lookup_def)
qed

lemma addr_cache_lookup_None:
  assumes "\<forall>i<4. fst (g_addr_cache w (addr_slot a i)) \<noteq> a"
  shows "addr_cache_lookup a n w = None"
proof -
  have "find (\<lambda>i. fst (g_addr_cache w (addr_slot a i)) = a) [0..<4] = None"
    using assms by (simp add: find_upt_None)
  then show ?thesis by (simp add: addr_cache_lookup_def)
qed

text \<open>A symbol is found again after its insertion, whatever the cache held.\<close>

lemma addr_cache_insert_lookup:
  assumes "a \<noteq> NULL" "0 < n"
  shows "addr_cache_lookup a n (addr_cache_insert a s w) = Some (copy_trunc n (copy_trunc MTT_SYMBOL_MAX s))"
proof -
  obtain i where i: "i < 4"
    "addr_cache_insert a s w =
       w\<lparr>g_addr_cache := (g_addr_cache w)(addr_slot a i := (a, copy_trunc MTT_SYMBOL_MAX s))\<rparr>"
    "\<And>j. j < i \<Longrightarrow> fst (g_addr_cache w (addr_slot a j)) \<notin> {NULL, a}"
    using addr_cache_insert_slot [OF assms(1), of s w] by metis
  then show ?thesis
    using addr_cache_lookup_Some [OF assms, of i "addr_cache_insert a s w"]
    by (simp add: addr_slot_inj)
qed

lemma addr_cache_insert_ok:
  assumes ok: "addr_cache_ok w"
  shows "addr_cache_ok (addr_cache_insert a s w)"
proof (cases "a = NULL")
  case True
  then show ?thesis using ok by (simp add: addr_cache_insert_def)
next
  case False
  obtain i where i: "i < 4"
    "addr_cache_insert a s w =
       w\<lparr>g_addr_cache := (g_addr_cache w)(addr_slot a i := (a, copy_trunc MTT_SYMBOL_MAX s))\<rparr>"
    "\<And>j. j < i \<Longrightarrow> fst (g_addr_cache w (addr_slot a j)) \<notin> {NULL, a}"
    "fst (g_addr_cache w (addr_slot a i)) \<in> {NULL, a} \<or>
       (\<forall>j<4. fst (g_addr_cache w (addr_slot a j)) \<noteq> a)"
    using addr_cache_insert_slot [OF False, of s w] by metis
  let ?f = "(g_addr_cache w)(addr_slot a i := (a, copy_trunc MTT_SYMBOL_MAX s))"
  have step: "fst (?f (addr_slot b j)) \<notin> {NULL, b}"
    if h: "b \<noteq> NULL" "k < 4" "j < k" "fst (?f (addr_slot b k)) = b" for b k j
  proof (cases "b = a")
    case True
    have "k = i"
    proof (rule ccontr)
      assume "k \<noteq> i"
      then have k: "fst (g_addr_cache w (addr_slot a k)) = a" using h i(1) True by (simp add: addr_slot_inj)
      then have "fst (g_addr_cache w (addr_slot a l)) \<notin> {NULL, a}" if "l < k" for l
        using ok h(1,2) that True unfolding addr_cache_ok_def by blast
      then have "\<not> i < k" using i(4) k h(2) by blast
      then have "k < i" using \<open>k \<noteq> i\<close> by simp
      then show False using i(3) k by blast
    qed
    then show ?thesis using h i(1,3) True by (simp add: addr_slot_inj)
  next
    case False
    then have "fst (g_addr_cache w (addr_slot b k)) = b" using h(4) by (auto split: if_splits)
    then have "fst (g_addr_cache w (addr_slot b j)) \<notin> {NULL, b}"
      using ok h(1,2,3) unfolding addr_cache_ok_def by blast
    then show ?thesis using \<open>a \<noteq> NULL\<close> False by simp
  qed
  have eq: "g_addr_cache (addr_cache_insert a s w) = ?f" by (simp add: i(2))
  show ?thesis unfolding addr_cache_ok_def eq using step by blast
qed

text \<open>What an insertion does to the symbol of another address: it stays, or it is dropped.\<close>

lemma addr_cache_insert_other:
  assumes ok: "addr_cache_ok w" and "b \<noteq> a"
  shows "addr_cache_lookup b n (addr_cache_insert a s w) \<in> {addr_cache_lookup b n w, None}"
proof (cases "a = NULL \<or> b = NULL \<or> n = 0")
  case True
  then show ?thesis by (auto simp: addr_cache_insert_def addr_cache_lookup_def)
next
  case False
  then obtain i where i: "addr_cache_insert a s w =
       w\<lparr>g_addr_cache := (g_addr_cache w)(addr_slot a i := (a, copy_trunc MTT_SYMBOL_MAX s))\<rparr>"
    using addr_cache_insert_slot [of a s w] by metis
  let ?w = "addr_cache_insert a s w"
  show ?thesis
  proof (cases "\<exists>k<4. fst (g_addr_cache ?w (addr_slot b k)) = b")
    case True
    then obtain k where k: "k < 4" "fst (g_addr_cache ?w (addr_slot b k)) = b" by blast
    then have same: "g_addr_cache ?w (addr_slot b k) = g_addr_cache w (addr_slot b k)"
      using \<open>b \<noteq> a\<close> by (auto simp: i split: if_splits)
    have "fst (g_addr_cache u (addr_slot b j)) \<noteq> b"
      if "addr_cache_ok u" "fst (g_addr_cache u (addr_slot b k)) = b" "j < k" for u :: "'a world" and j
      using that k(1) False unfolding addr_cache_ok_def by blast
    then show ?thesis
      using k same False ok addr_cache_insert_ok [OF ok, of a s]
      by (simp add: addr_cache_lookup_Some [of b n k])
  next
    case no: False
    then show ?thesis by (simp add: addr_cache_lookup_None)
  qed
qed

section \<open>Resolving a frame\<close>

lemma copy_trunc_idem [simp]: "copy_trunc n (copy_trunc n s) = copy_trunc n s"
  by (simp add: copy_trunc_def min_def)

lemma copy_trunc_symbol: "length (copy_trunc MTT_SYMBOL_MAX s) < MTT_SYMBOL_MAX"
  by (simp add: copy_trunc_def mtt_limits)

lemma locate_frame_addr_cache [simp]: "g_addr_cache (snd (locate_frame X a w)) = g_addr_cache w"
  by (simp add: locate_frame_def frame_addr2line_addr_def main_is_non_pie_def is_main_exe_path_def
      Let_def case_prod_beta split: option.splits prod.splits)


lemma locate_frame_stack [simp]:
  "g_stack_heap (snd (locate_frame X a w)) = g_stack_heap w"
  "g_stack_cache (snd (locate_frame X a w)) = g_stack_cache w"
  "g_hung (snd (locate_frame X a w)) = g_hung w"
  by (simp_all add: locate_frame_def frame_addr2line_addr_def main_is_non_pie_def is_main_exe_path_def
      Let_def case_prod_beta split: option.splits prod.splits)

lemma addr_cache_insert_stack [simp]:
  "g_stack_heap (addr_cache_insert a s w) = g_stack_heap w"
  "g_stack_cache (addr_cache_insert a s w) = g_stack_cache w"
  "g_hung (addr_cache_insert a s w) = g_hung w" "g_ext (addr_cache_insert a s w) = g_ext w"
  "g_non_pie_cached (addr_cache_insert a s w) = g_non_pie_cached w"
  "g_exe_path (addr_cache_insert a s w) = g_exe_path w"
  by (simp_all add: addr_cache_insert_def Let_def)

lemma resolve_one_frame_stack [simp]:
  "g_stack_heap (snd (resolve_one_frame X a n w)) = g_stack_heap w"
  "g_stack_cache (snd (resolve_one_frame X a n w)) = g_stack_cache w"
  "g_hung (snd (resolve_one_frame X a n w)) = g_hung w"
  by (simp_all add: resolve_one_frame_def Let_def case_prod_beta split: option.splits)

text \<open>
  A frame that is not NULL gets a text shorter than its buffer, and resolving the frame
  again returns that text from the cache, with nothing changed.
\<close>

lemma resolve_one_frame_hit:
  "addr_cache_lookup a n w = Some s \<Longrightarrow> resolve_one_frame X a n w = (Some s, w)"
  by (auto simp: resolve_one_frame_def addr_cache_lookup_def split: if_splits)

lemma resolve_one_frame_again:
  assumes "a \<noteq> NULL"
  obtains s where "fst (resolve_one_frame X a MTT_SYMBOL_MAX w) = Some s" "length s < MTT_SYMBOL_MAX"
    "resolve_one_frame X a MTT_SYMBOL_MAX (snd (resolve_one_frame X a MTT_SYMBOL_MAX w)) =
       (Some s, snd (resolve_one_frame X a MTT_SYMBOL_MAX w))"
proof (cases "addr_cache_lookup a MTT_SYMBOL_MAX w")
  case (Some s)
  have "length s < MTT_SYMBOL_MAX"
    using Some by (auto simp: addr_cache_lookup_def copy_trunc_def mtt_limits split: if_splits option.splits)
  then show ?thesis
    using resolve_one_frame_hit [OF Some] by (intro that [of s]) simp_all
next
  case None
  let ?out = "the (fst (resolve_one_frame X a MTT_SYMBOL_MAX w))"
  have out: "copy_trunc MTT_SYMBOL_MAX ?out = ?out" "fst (resolve_one_frame X a MTT_SYMBOL_MAX w) = Some ?out"
    "snd (resolve_one_frame X a MTT_SYMBOL_MAX w) = addr_cache_insert a ?out (snd (locate_frame X a w))"
    using None assms by (simp_all add: resolve_one_frame_def Let_def case_prod_beta mtt_limits)
  have pos: "0 < MTT_SYMBOL_MAX" by (simp add: mtt_limits)
  have "length ?out < MTT_SYMBOL_MAX"
    using copy_trunc_symbol [of ?out] out(1) by simp
  moreover have "addr_cache_lookup a MTT_SYMBOL_MAX (snd (resolve_one_frame X a MTT_SYMBOL_MAX w)) = Some ?out"
    by (subst out(3)) (simp add: addr_cache_insert_lookup [OF assms pos] out(1))
  ultimately show ?thesis
    using out(2) by (intro that [of ?out] resolve_one_frame_hit)
qed


section \<open>The stack cache as a map\<close>

text \<open>
  The stacks in the cache with the addresses of their entries. A cache is well formed when its
  entries are distinct nodes, each in the bucket of its hash and with the hash of its frames,
  no two for the same stack, and as many as its counter says.
\<close>

definition stack_key :: "stack_entry \<Rightarrow> ptr list" where
  "stack_key e = take (nat (k_frame_count e)) (k_frames e)"

definition stacks :: "'l world \<Rightarrow> (ptr list \<times> ptr) set" where
  "stacks w = {(stack_key (g_stack_heap w a), a) | a b. a \<in> set (sc_entries (g_stack_cache w) b)}"

definition stack_entry_ok :: "stack_entry \<Rightarrow> bool" where
  "stack_entry_ok e \<longleftrightarrow>
     0 < k_frame_count e \<and> k_frame_count e \<le> int MTT_STACK_DEPTH \<and> length (k_frames e) = MTT_STACK_DEPTH \<and>
     length (k_resolved e) = MTT_STACK_DEPTH \<and> k_hash e = mtt_stack_hash_compute (k_frames e) (k_frame_count e)"

definition stack_cache_ok :: "'l world \<Rightarrow> bool" where
  "stack_cache_ok w \<longleftrightarrow>
     (\<forall>b. distinct (sc_entries (g_stack_cache w) b)) \<and>
     (\<forall>b. \<forall>a \<in> set (sc_entries (g_stack_cache w) b).
        a \<noteq> NULL \<and> stack_bucket (k_hash (g_stack_heap w a)) = b \<and> stack_entry_ok (g_stack_heap w a)) \<and>
     (\<forall>k a a'. (k, a) \<in> stacks w \<and> (k, a') \<in> stacks w \<longrightarrow> a = a') \<and>
     (\<Sum>b<MTT_STACK_CACHE_SIZE. length (sc_entries (g_stack_cache w) b)) = unat (sc_count (g_stack_cache w)) \<and>
     unat (sc_count (g_stack_cache w)) \<le> MTT_STACK_CACHE_SIZE \<and> \<not> sc_lock (g_stack_cache w)"

lemma stack_bucket_less: "stack_bucket h < MTT_STACK_CACHE_SIZE"
proof -
  have "unat (h AND 4095) \<le> unat (4095 :: u64)"
    using word_and_le1 [of h 4095] by (simp add: word_le_nat_alt)
  then show ?thesis by (simp add: stack_bucket_def MTT_STACK_CACHE_SIZE_def)
qed

text \<open>The hash does not see the Thumb bits, nor what lies beyond the frames.\<close>

lemma stack_hash_key:
  assumes "map MTT_FIX_THUMB_ADDR (take (nat n) fs) = map MTT_FIX_THUMB_ADDR (take (nat n) gs)"
  shows "mtt_stack_hash_compute fs n = mtt_stack_hash_compute gs n"
proof -
  have "map MTT_FIX_THUMB_ADDR (take (nat n - st) (drop st hs)) = drop st (map MTT_FIX_THUMB_ADDR (take (nat n) hs))" for hs st
    by (simp add: drop_map drop_take)
  then show ?thesis using assms by (simp add: mtt_stack_hash_compute_def Let_def)
qed

lemma new_stack_entry_key:
  assumes "0 < n" "n \<le> int MTT_STACK_DEPTH" "nat n \<le> length fs"
  shows "stack_key (new_stack_entry (mtt_stack_hash_compute fs n) fs n) = map MTT_FIX_THUMB_ADDR (take (nat n) fs)"
    and "stack_entry_ok (new_stack_entry (mtt_stack_hash_compute fs n) fs n)"
proof -
  let ?gs = "map MTT_FIX_THUMB_ADDR (take (nat n) fs) @ replicate (MTT_STACK_DEPTH - nat n) NULL"
  have t: "take (nat n) ?gs = map MTT_FIX_THUMB_ADDR (take (nat n) fs)" using assms by simp
  then show "stack_key (new_stack_entry (mtt_stack_hash_compute fs n) fs n) = map MTT_FIX_THUMB_ADDR (take (nat n) fs)"
    by (simp add: stack_key_def new_stack_entry_def Let_def)
  have "mtt_stack_hash_compute ?gs n = mtt_stack_hash_compute fs n"
    by (rule stack_hash_key) (subst t, simp add: comp_def)
  then show "stack_entry_ok (new_stack_entry (mtt_stack_hash_compute fs n) fs n)"
    using assms by (simp add: stack_entry_ok_def new_stack_entry_def Let_def nat_le_iff)
qed


lemma stack_match_iff:
  assumes ok: "stack_cache_ok w" and n: "0 < n" "nat n \<le> length fs"
    and key: "key = map MTT_FIX_THUMB_ADDR (take (nat n) fs)"
  shows "a \<in> set (sc_entries (g_stack_cache w) (stack_bucket (mtt_stack_hash_compute fs n))) \<and>
         stack_match (mtt_stack_hash_compute fs n) fs n (g_stack_heap w a) \<longleftrightarrow> (key, a) \<in> stacks w"
    (is "?L \<longleftrightarrow> ?R")
proof
  assume ?L
  then show ?R by (auto simp: stacks_def stack_match_def stack_key_def key)
next
  assume ?R
  then obtain b where b: "a \<in> set (sc_entries (g_stack_cache w) b)" and k: "stack_key (g_stack_heap w a) = key"
    by (auto simp: stacks_def)
  let ?e = "g_stack_heap w a"
  have e: "stack_bucket (k_hash ?e) = b" "stack_entry_ok ?e" using ok b by (auto simp: stack_cache_ok_def)
  then have "length (stack_key ?e) = nat (k_frame_count ?e)"
    by (simp add: stack_key_def stack_entry_ok_def nat_le_iff)
  moreover have "length key = nat n" using n by (simp add: key)
  ultimately have cnt: "k_frame_count ?e = n" using k n e(2) by (simp add: stack_entry_ok_def)
  then have fr: "take (nat n) (k_frames ?e) = key" using k by (simp add: stack_key_def)
  have "mtt_stack_hash_compute (k_frames ?e) n = mtt_stack_hash_compute fs n"
    by (rule stack_hash_key) (simp add: fr key comp_def)
  then have "k_hash ?e = mtt_stack_hash_compute fs n" using e(2) cnt by (simp add: stack_entry_ok_def)
  then show ?L using b e(1) fr cnt by (simp add: stack_match_def key)
qed

lemma stack_lookup_found:
  assumes ok: "stack_cache_ok w" and n: "0 < n" "nat n \<le> length fs"
    and key: "(map MTT_FIX_THUMB_ADDR (take (nat n) fs), a) \<in> stacks w"
  shows "mtt_stack_cache_lookup X fs n w = (a, w)"
proof -
  let ?h = "mtt_stack_hash_compute fs n"
  let ?es = "sc_entries (g_stack_cache w) (stack_bucket ?h)"
  note iff = stack_match_iff [OF ok n refl]
  have a: "a \<in> set ?es" "stack_match ?h fs n (g_stack_heap w a)" using iff [of a] key by simp_all
  obtain c where c: "find (\<lambda>a. stack_match ?h fs n (g_stack_heap w a)) ?es = Some c"
    using a by (metis find_None_iff option.exhaust)
  then have "c \<in> set ?es" "stack_match ?h fs n (g_stack_heap w c)" by (auto simp: find_Some_iff)
  then have "c = a" using iff [of c] key ok unfolding stack_cache_ok_def by blast
  moreover have "\<not> sc_lock (g_stack_cache w)" using ok by (simp add: stack_cache_ok_def)
  ultimately show ?thesis using n c by (simp add: mtt_stack_cache_lookup_def sc_lock_set_def Let_def)
qed

lemma stack_lookup_missing:
  assumes ok: "stack_cache_ok w" and n: "0 < n" "nat n \<le> length fs" and raw: "raw_malloc w = F_LIBC"
    and key: "map MTT_FIX_THUMB_ADDR (take (nat n) fs) \<notin> Domain (stacks w)"
    and m: "x_malloc X (g_ext w) sizeof_stack_entry = (p, l)"
    and h: "h = mtt_stack_hash_compute fs n"
  shows "mtt_stack_cache_lookup X fs n w =
    (if sc_count (g_stack_cache w) \<ge> of_nat MTT_STACK_CACHE_SIZE then (NULL, w)
     else if p = NULL then (NULL, w\<lparr>g_ext := l\<rparr>)
     else (p, w\<lparr>g_ext := l, g_stack_heap := (g_stack_heap w)(p := new_stack_entry h fs n),
                g_stack_cache := (g_stack_cache w)
                  \<lparr>sc_entries := (sc_entries (g_stack_cache w))
                     (stack_bucket h := p # sc_entries (g_stack_cache w) (stack_bucket h)),
                   sc_count := sc_count (g_stack_cache w) + 1\<rparr>\<rparr>))"
proof -
  have "find (\<lambda>a. stack_match h fs n (g_stack_heap w a)) (sc_entries (g_stack_cache w) (stack_bucket h)) = None"
    using stack_match_iff [OF ok n refl] key by (auto simp: find_None_iff h Domain_iff)
  moreover have "\<not> sc_lock (g_stack_cache w)" using ok by (simp add: stack_cache_ok_def)
  ultimately show ?thesis
    using n raw m by (simp add: mtt_stack_cache_lookup_def sc_lock_set_def call_malloc_def Let_def h)
qed

lemma ext_stacks [simp]: "stacks (w\<lparr>g_ext := l\<rparr>) = stacks w"
  by (simp add: stacks_def)

lemma ext_stack_cache_ok [simp]: "stack_cache_ok (w\<lparr>g_ext := l\<rparr>) = stack_cache_ok w"
  by (simp add: stack_cache_ok_def)

text \<open>The node that an insertion adds.\<close>

lemma stack_insert_ok:
  assumes ok: "stack_cache_ok w" and n: "0 < n" "n \<le> int MTT_STACK_DEPTH" "nat n \<le> length fs"
    and key: "key = map MTT_FIX_THUMB_ADDR (take (nat n) fs)" "key \<notin> Domain (stacks w)"
    and p: "p \<noteq> NULL" "p \<notin> Range (stacks w)"
    and h: "h = mtt_stack_hash_compute fs n"
    and room: "sc_count (g_stack_cache w) < of_nat MTT_STACK_CACHE_SIZE"
    and w': "w' = w\<lparr>g_ext := l, g_stack_heap := (g_stack_heap w)(p := new_stack_entry h fs n),
                g_stack_cache := (g_stack_cache w)
                  \<lparr>sc_entries := (sc_entries (g_stack_cache w))
                     (stack_bucket h := p # sc_entries (g_stack_cache w) (stack_bucket h)),
                   sc_count := sc_count (g_stack_cache w) + 1\<rparr>\<rparr>"
  shows "stack_cache_ok w'" "stacks w' = insert (key, p) (stacks w)"
proof -
  let ?es = "sc_entries (g_stack_cache w)"
  let ?e = "new_stack_entry h fs n"
  have ek: "stack_key ?e = key" "stack_entry_ok ?e" "k_hash ?e = h"
    using new_stack_entry_key [OF n] by (simp_all add: h key(1) new_stack_entry_def Let_def)
  have old: "p \<notin> set (?es b)" for b using p(2) by (auto simp: stacks_def Range_iff)
  have heap: "g_stack_heap w' a = (if a = p then ?e else g_stack_heap w a)" for a by (simp add: w')
  have es: "sc_entries (g_stack_cache w') b = (if b = stack_bucket h then p # ?es b else ?es b)" for b
    by (simp add: w')
  show st: "stacks w' = insert (key, p) (stacks w)"
  proof -
    have mem: "a \<in> set (sc_entries (g_stack_cache w') b) \<longleftrightarrow> a \<in> set (?es b) \<or> a = p \<and> b = stack_bucket h" for a b
      by (auto simp: es)
    have "(k, a) \<in> stacks w' \<longleftrightarrow> (k, a) = (key, p) \<or> (k, a) \<in> stacks w" for k a
      using old ek(1) by (auto simp: stacks_def heap mem split: if_splits)
    then show ?thesis by auto
  qed
  have cnt: "unat (sc_count (g_stack_cache w)) < MTT_STACK_CACHE_SIZE"
    using room by (simp add: word_less_nat_alt MTT_STACK_CACHE_SIZE_def)
  have c1: "unat (sc_count (g_stack_cache w')) = Suc (unat (sc_count (g_stack_cache w)))"
    using cnt by (simp add: w' MTT_STACK_CACHE_SIZE_def unat_word_ariths)
  have "(\<Sum>b<MTT_STACK_CACHE_SIZE. length (sc_entries (g_stack_cache w') b)) =
        (\<Sum>b<MTT_STACK_CACHE_SIZE. length (?es b) + (if b = stack_bucket h then 1 else 0))"
    by (rule sum.cong) (simp_all add: es)
  also have "\<dots> = (\<Sum>b<MTT_STACK_CACHE_SIZE. length (?es b)) + 1"
    using stack_bucket_less [of h] by (simp add: sum.distrib)
  finally have sum: "(\<Sum>b<MTT_STACK_CACHE_SIZE. length (sc_entries (g_stack_cache w') b)) =
      unat (sc_count (g_stack_cache w'))"
    using ok c1 by (simp add: stack_cache_ok_def)
  have nodes: "a \<noteq> NULL \<and> stack_bucket (k_hash (g_stack_heap w' a)) = b \<and> stack_entry_ok (g_stack_heap w' a)"
    if "a \<in> set (sc_entries (g_stack_cache w') b)" for a b
    using that ok p(1) ek(2,3) old by (auto simp: heap es stack_cache_ok_def split: if_splits)
  have uniq: "a = a'" if "(k, a) \<in> stacks w'" "(k, a') \<in> stacks w'" for k a a'
    using that key(2) ok unfolding st stack_cache_ok_def by blast
  have dist: "distinct (sc_entries (g_stack_cache w') b)" for b
    using ok old by (simp add: es stack_cache_ok_def)
  have "\<not> sc_lock (g_stack_cache w')" using ok by (simp add: w' stack_cache_ok_def)
  then show "stack_cache_ok w'"
    unfolding stack_cache_ok_def using nodes uniq dist sum c1 cnt by (metis Suc_leI)
qed


text \<open>C35. The stack cache is a map from stacks to entries. In a well-formed cache a stack that is
  already known gets its entry back and nothing changes; an unknown one gets a new entry with
  its frames, or NULL when the cache is full or \<open>malloc\<close> fails, and then no entry changes;
  in every case the cache is well formed again, and asking once more for the same stack returns
  the same entry and leaves the process as it is. The block \<open>malloc\<close> returns is not in use.
\<close>

theorem stack_cache_refines:
  assumes "stack_cache_ok w" "0 < n" "n \<le> int MTT_STACK_DEPTH" "nat n \<le> length fs"
    and "raw_malloc w = F_LIBC" "fst (x_malloc X (g_ext w) sizeof_stack_entry) \<notin> Range (stacks w)"
    and "key = map MTT_FIX_THUMB_ADDR (take (nat n) fs)"
    and "mtt_stack_cache_lookup X fs n w = (p, w')"
  shows "stack_cache_ok w' \<and>
    stacks w' = (if p = NULL then stacks w else insert (key, p) (stacks w)) \<and>
    (key \<in> Domain (stacks w) \<longrightarrow> w' = w) \<and>
    (p = NULL \<longleftrightarrow> key \<notin> Domain (stacks w) \<and>
       (unat (sc_count (g_stack_cache w)) = MTT_STACK_CACHE_SIZE \<or>
        fst (x_malloc X (g_ext w) sizeof_stack_entry) = NULL)) \<and>
    (p \<noteq> NULL \<longrightarrow> mtt_stack_cache_lookup X fs n w' = (p, w'))"
proof (cases "key \<in> Domain (stacks w)")
  case True
  then obtain a where a: "(key, a) \<in> stacks w" by blast
  have "p = a" "w' = w"
    using stack_lookup_found [OF assms(1,2,4) a [unfolded assms(7)], of X] assms(8) by simp_all
  moreover have "a \<noteq> NULL" using a assms(1) by (auto simp: stacks_def stack_cache_ok_def)
  ultimately show ?thesis using assms(1,8) a True by auto
next
  case False
  obtain q l where m: "x_malloc X (g_ext w) sizeof_stack_entry = (q, l)" by (cases "x_malloc X (g_ext w) sizeof_stack_entry")
  note look = stack_lookup_missing [OF assms(1,2,4,5) False [unfolded assms(7)] m refl]
  have full: "sc_count (g_stack_cache w) \<ge> of_nat MTT_STACK_CACHE_SIZE \<longleftrightarrow>
      unat (sc_count (g_stack_cache w)) = MTT_STACK_CACHE_SIZE"
    using assms(1) by (auto simp: word_le_nat_alt MTT_STACK_CACHE_SIZE_def stack_cache_ok_def)
  have pw: "(p, w') = (if sc_count (g_stack_cache w) \<ge> of_nat MTT_STACK_CACHE_SIZE then (NULL, w)
     else if q = NULL then (NULL, w\<lparr>g_ext := l\<rparr>) else (q, w'))"
    using assms(8) look by (simp split: if_splits)
  show ?thesis
  proof (cases "sc_count (g_stack_cache w) \<ge> of_nat MTT_STACK_CACHE_SIZE \<or> q = NULL")
    case True
    then have none: "p = NULL" "w' = w \<or> w' = w\<lparr>g_ext := l\<rparr>" using pw by (metis Pair_inject)+
    have "stacks w' = stacks w" "stack_cache_ok w'"
      using none(2) assms(1) by (metis ext_stacks, metis ext_stack_cache_ok)
    then show ?thesis using True none(1) False m full by simp
  next
    case room: False
    then have new: "p = q" "q \<noteq> NULL" "sc_count (g_stack_cache w) < of_nat MTT_STACK_CACHE_SIZE"
      using pw by (simp, simp, simp add: not_le)
    note ins = stack_insert_ok [OF assms(1-4,7) False _ _ refl new(3) refl]
    have q: "q \<notin> Range (stacks w)" using assms(6) m by simp
    have "stack_cache_ok w' \<and> stacks w' = insert (key, q) (stacks w)"
      using ins [OF new(2) q] look assms(8) room by simp
    moreover from this have "mtt_stack_cache_lookup X fs n w' = (q, w')"
      using stack_lookup_found [of w' n fs q X] assms(2,4,7) by simp
    ultimately show ?thesis using new m False room full by simp
  qed
qed


lemma demo_stack_cache: "stack_cache_ok demo_world" "stacks demo_world = {}"
  by (simp_all add: stack_cache_ok_def stacks_def demo_world_def)

lemma libc_stack_cache:
  "stack_cache_ok (demo_world\<lparr>raw_malloc := F_LIBC\<rparr>)" "stacks (demo_world\<lparr>raw_malloc := F_LIBC\<rparr>) = {}"
  by (simp_all add: stack_cache_ok_def stacks_def demo_world_def)

theorem stack_cache_refines_witness:
  "let w = demo_world\<lparr>raw_malloc := F_LIBC\<rparr>;
       (p, w') = mtt_stack_cache_lookup demo_ext [0x401001, 0x402000] 2 w
   in p = 0x10000000 \<and> stack_cache_ok w' \<and> stacks w' = {([0x401000, 0x402000], p)} \<and>
      mtt_stack_cache_lookup demo_ext [0x401001, 0x402000] 2 w' = (p, w')"
proof -
  let ?w = "demo_world\<lparr>raw_malloc := F_LIBC\<rparr>"
  obtain p w' where l: "mtt_stack_cache_lookup demo_ext [0x401001, 0x402000] 2 ?w = (p, w')" by fastforce
  have m: "x_malloc demo_ext (g_ext ?w) sizeof_stack_entry = (0x10000000, 0x10004230)"
    by (simp add: demo_ext_def demo_world_def demo_malloc_def sizeof_stack_entry_def align16_def)
  have count: "sc_count (g_stack_cache demo_world) = 0" by (simp add: demo_world_def)
  have k: "[0x401000, 0x402000] = map MTT_FIX_THUMB_ADDR (take (nat 2) [0x401001, 0x402000])"
    by (simp add: MTT_FIX_THUMB_ADDR_def)
  have r: "stack_cache_ok w'" "stacks w' = (if p = NULL then {} else {([0x401000, 0x402000], p)})"
    "p = NULL \<longrightarrow> unat (sc_count (g_stack_cache ?w)) = MTT_STACK_CACHE_SIZE"
    "p \<noteq> NULL \<longrightarrow> mtt_stack_cache_lookup demo_ext [0x401001, 0x402000] 2 w' = (p, w')"
    using stack_cache_refines [OF libc_stack_cache(1) _ _ _ _ _ k l] m
    by (simp_all add: libc_stack_cache(2) MTT_STACK_DEPTH_def)
  have "p = 0x10000000"
    using stack_lookup_missing [OF libc_stack_cache(1) _ _ _ _ m refl, of 2 "[0x401001, 0x402000]"] l
    by (simp add: libc_stack_cache(2) count MTT_STACK_CACHE_SIZE_def)
  then show ?thesis using r l by simp
qed

section \<open>Resolving a stack\<close>

text \<open>
  The text of a frame computed without any cache: the address cache is not consulted, and
  the type and the path of the executable are read again. It depends on the dynamic linker's state only.
  What is cached about the executable is coherent when it is what reading it again would give; the address
  cache, which the code never invalidates, holds texts that were computed in some of the states \<open>L\<close> of
  the linker, and may be out of date after libraries were loaded or unloaded.
\<close>

definition uncached :: "'l world \<Rightarrow> 'l world" where
  "uncached w = w\<lparr>g_non_pie_cached := - 1, g_exe_path := []\<rparr>"

definition frame_text :: "'l ext \<Rightarrow> 'l world \<Rightarrow> ptr \<Rightarrow> string" where
  "frame_text X w addr =
     (case fst (locate_frame X addr (uncached w)) of
        (func_name, func_off, lib_name, file_off) \<Rightarrow>
          copy_trunc MTT_SYMBOL_MAX (copy_trunc 256 func_name @ ''+'' @ alt_hex func_off @ '' ('' @
                                     lib_name @ ''+'' @ alt_hex file_off @ '')''))"

definition exe_coherent :: "'l ext \<Rightarrow> 'l world \<Rightarrow> bool" where
  "exe_coherent X w \<longleftrightarrow>
     (g_non_pie_cached w < 0 \<or> g_non_pie_cached w = fst (main_is_non_pie X (uncached w))) \<and>
     (g_exe_path w = [] \<or> (\<exists>t. x_readlink_exe X (g_ext w) = Some t \<and> g_exe_path w = take 511 t))"

definition caches_coherent :: "'l ext \<Rightarrow> 'l set \<Rightarrow> 'l world \<Rightarrow> bool" where
  "caches_coherent X L w \<longleftrightarrow>
     (\<forall>i. fst (g_addr_cache w i) \<noteq> NULL \<longrightarrow>
          (\<exists>l \<in> L. snd (g_addr_cache w i) = frame_text X (w\<lparr>g_ext := l\<rparr>) (fst (g_addr_cache w i)))) \<and>
     exe_coherent X w"

lemma main_is_non_pie_coherent:
  assumes "g_non_pie_cached w < 0 \<or> g_non_pie_cached w = fst (main_is_non_pie X (uncached w))"
  shows "fst (main_is_non_pie X w) = fst (main_is_non_pie X (uncached w))"
    "g_non_pie_cached (snd (main_is_non_pie X w)) = fst (main_is_non_pie X (uncached w))"
  using assms
  by (auto simp: main_is_non_pie_def uncached_def Let_def split: option.splits if_splits)

lemma main_is_non_pie_frame [simp]:
  "g_ext (snd (main_is_non_pie X w)) = g_ext w" "g_exe_path (snd (main_is_non_pie X w)) = g_exe_path w"
  "g_addr_cache (snd (main_is_non_pie X w)) = g_addr_cache w"
  by (simp_all add: main_is_non_pie_def Let_def split: option.splits)

lemma is_main_exe_path_frame [simp]:
  "g_ext (snd (is_main_exe_path X f w)) = g_ext w"
  "g_non_pie_cached (snd (is_main_exe_path X f w)) = g_non_pie_cached w"
  "g_addr_cache (snd (is_main_exe_path X f w)) = g_addr_cache w"
  by (simp_all add: is_main_exe_path_def Let_def split: option.splits)


lemma uncached_simps [simp]:
  "g_ext (uncached w) = g_ext w" "g_exe_path (uncached w) = []" "uncached (uncached w) = uncached w"
  by (simp_all add: uncached_def)

lemma main_is_non_pie_cong:
  "g_ext w' = g_ext w \<Longrightarrow> fst (main_is_non_pie X (uncached w')) = fst (main_is_non_pie X (uncached w))"
  by (cases "x_exe_header X (g_ext w)") (auto simp: main_is_non_pie_def uncached_def Let_def min_def)

lemma is_main_exe_path_coherent:
  assumes "g_exe_path w = [] \<or> (\<exists>t. x_readlink_exe X (g_ext w) = Some t \<and> g_exe_path w = take 511 t)"
    and "g_ext w' = g_ext w" "g_exe_path w' = []"
  shows "fst (is_main_exe_path X f w) = fst (is_main_exe_path X f w')"
    "g_exe_path (snd (is_main_exe_path X f w)) = [] \<or>
       (\<exists>t. x_readlink_exe X (g_ext w) = Some t \<and> g_exe_path (snd (is_main_exe_path X f w)) = take 511 t)"
  using assms by (auto simp: is_main_exe_path_def split: option.splits)

lemma frame_addr2line_coherent:
  assumes "exe_coherent X w"
  shows "fst (frame_addr2line_addr X a f b w) = fst (frame_addr2line_addr X a f b (uncached w))"
    and "exe_coherent X (snd (frame_addr2line_addr X a f b w))"
    and "g_ext (snd (frame_addr2line_addr X a f b w)) = g_ext w"
proof -
  note c = assms [unfolded exe_coherent_def]
  let ?u = "snd (main_is_non_pie X w)"
  let ?np = "fst (main_is_non_pie X (uncached w))"
  note np = main_is_non_pie_coherent [OF conjunct1 [OF c]]
  note mp = is_main_exe_path_coherent [of ?u X "snd (main_is_non_pie X (uncached w))" f]
  show "g_ext (snd (frame_addr2line_addr X a f b w)) = g_ext w"
    by (simp add: frame_addr2line_addr_def case_prod_beta Let_def)
  show "fst (frame_addr2line_addr X a f b w) = fst (frame_addr2line_addr X a f b (uncached w))"
    using c mp(1) by (simp add: frame_addr2line_addr_def case_prod_beta Let_def np(1))
  have "snd (frame_addr2line_addr X a f b w) = (if ?np \<noteq> 0 then snd (is_main_exe_path X f ?u) else ?u)"
    by (simp add: frame_addr2line_addr_def case_prod_beta Let_def np(1))
  then have v: "g_ext (snd (frame_addr2line_addr X a f b w)) = g_ext w"
      "g_non_pie_cached (snd (frame_addr2line_addr X a f b w)) = ?np"
      "g_exe_path (snd (frame_addr2line_addr X a f b w)) = [] \<or>
       (\<exists>t. x_readlink_exe X (g_ext w) = Some t \<and> g_exe_path (snd (frame_addr2line_addr X a f b w)) = take 511 t)"
    using c mp(2) np(2) by simp_all
  show "exe_coherent X (snd (frame_addr2line_addr X a f b w))"
    unfolding exe_coherent_def main_is_non_pie_cong [OF v(1)] using v by simp
qed

lemma locate_frame_coherent:
  assumes "exe_coherent X w"
  shows "fst (locate_frame X a w) = fst (locate_frame X a (uncached w))"
    and "exe_coherent X (snd (locate_frame X a w))" "g_ext (snd (locate_frame X a w)) = g_ext w"
proof -
  note f = frame_addr2line_coherent [OF assms]
  show "fst (locate_frame X a w) = fst (locate_frame X a (uncached w))"
    by (simp add: locate_frame_def case_prod_beta Let_def f(1) split: option.splits prod.splits)
  show "exe_coherent X (snd (locate_frame X a w))" "g_ext (snd (locate_frame X a w)) = g_ext w"
    using assms f(2,3)
    by (simp_all add: locate_frame_def case_prod_beta Let_def split: option.splits prod.splits)
qed

lemma frame_text_cong:
  assumes "g_ext w' = g_ext w"
  shows "frame_text X w' a = frame_text X w a"
proof -
  have "fst (frame_addr2line_addr X a f b (uncached w')) = fst (frame_addr2line_addr X a f b (uncached w))" for f b
    using is_main_exe_path_coherent(1) [of "snd (main_is_non_pie X (uncached w'))" X "snd (main_is_non_pie X (uncached w))" f]
      assms by (simp add: frame_addr2line_addr_def case_prod_beta Let_def main_is_non_pie_cong [OF assms])
  then have "fst (locate_frame X a (uncached w')) = fst (locate_frame X a (uncached w))"
    using assms by (simp add: locate_frame_def case_prod_beta Let_def split: option.splits prod.splits)
  then show ?thesis by (simp add: frame_text_def)
qed


text \<open>
  While a stack is resolved: every slot of the address cache is as it was in \<open>w\<close> or holds the text of its
  address in the linker's state of \<open>w\<close>. The text of a frame is computed in that state or was cached in \<open>w\<close>.
\<close>

definition cache_mix :: "'l ext \<Rightarrow> 'l world \<Rightarrow> 'l world \<Rightarrow> bool" where
  "cache_mix X w u \<longleftrightarrow> g_ext u = g_ext w \<and> exe_coherent X u \<and>
     (\<forall>j. g_addr_cache u j = g_addr_cache w j \<or>
       (fst (g_addr_cache u j) \<noteq> NULL \<and> snd (g_addr_cache u j) = frame_text X w (fst (g_addr_cache u j))))"

definition frame_source :: "'l ext \<Rightarrow> 'l world \<Rightarrow> ptr \<Rightarrow> string \<Rightarrow> bool" where
  "frame_source X w a t \<longleftrightarrow> t = frame_text X w a \<or>
     (\<exists>j. fst (g_addr_cache w j) = a \<and> t = copy_trunc MTT_SYMBOL_MAX (snd (g_addr_cache w j)))"

text \<open>The first frame is resolved with the cache of \<open>w\<close> itself.\<close>

definition frame_stored :: "'l ext \<Rightarrow> 'l world \<Rightarrow> nat \<Rightarrow> ptr \<Rightarrow> string \<Rightarrow> bool" where
  "frame_stored X w i a t \<longleftrightarrow> frame_source X w a t \<and>
     (\<forall>s. i = 0 \<and> addr_cache_lookup a MTT_SYMBOL_MAX w = Some s \<longrightarrow> t = s)"

lemma frame_text_cut [simp]: "copy_trunc MTT_SYMBOL_MAX (frame_text X w b) = frame_text X w b"
  by (simp add: frame_text_def split: prod.splits)

lemma cache_mix_heap [simp]: "cache_mix X w (u\<lparr>g_stack_heap := h\<rparr>) = cache_mix X w u"
  using main_is_non_pie_cong [of "u\<lparr>g_stack_heap := h\<rparr>" u X] by (simp add: cache_mix_def exe_coherent_def)

lemma resolve_one_frame_mix:
  assumes "cache_mix X w u" "a \<noteq> NULL"
  shows "\<exists>t v. resolve_one_frame X a MTT_SYMBOL_MAX u = (Some t, v) \<and> frame_source X w a t \<and> cache_mix X w v \<and>
    (\<forall>s. addr_cache_lookup a MTT_SYMBOL_MAX u = Some s \<longrightarrow> t = s)"
proof (cases "addr_cache_lookup a MTT_SYMBOL_MAX u")
  case (Some s)
  then obtain j where j: "fst (g_addr_cache u j) = a" "s = copy_trunc MTT_SYMBOL_MAX (snd (g_addr_cache u j))"
    using assms(2) by (auto simp: addr_cache_lookup_def find_upt_Some split: if_splits option.splits)
  have "g_addr_cache u j = g_addr_cache w j \<or> snd (g_addr_cache u j) = frame_text X w a"
    using assms(1) j(1) by (auto simp: cache_mix_def)
  then have "frame_source X w a s" using j by (auto simp: frame_source_def)
  then show ?thesis using resolve_one_frame_hit [OF Some, of X] assms(1) Some by simp
next
  case None
  have e: "exe_coherent X u" and x: "g_ext u = g_ext w" using assms(1) by (simp_all add: cache_mix_def)
  have pos: "MTT_SYMBOL_MAX \<noteq> 0" by (simp add: mtt_limits)
  let ?t = "frame_text X w a" and ?v = "snd (locate_frame X a u)"
  let ?z = "addr_cache_insert a ?t ?v"
  have "frame_text X u a = ?t" by (rule frame_text_cong [OF x])
  then have r: "resolve_one_frame X a MTT_SYMBOL_MAX u = (Some ?t, ?z)"
    using None assms(2) pos locate_frame_coherent(1) [OF e, of a]
    by (simp add: resolve_one_frame_def frame_text_def demangle_symbol_def case_prod_beta Let_def)
  have z: "g_ext ?z = g_ext u" using locate_frame_coherent(3) [OF e] by simp
  have "exe_coherent X ?z"
    using locate_frame_coherent(2) [OF e, of a] main_is_non_pie_cong [of ?z ?v X] z locate_frame_coherent(3) [OF e]
    by (simp add: exe_coherent_def)
  moreover obtain k where "?z = ?v\<lparr>g_addr_cache := (g_addr_cache ?v)(addr_slot a k := (a, ?t))\<rparr>"
    using addr_cache_insert_slot [OF assms(2), of ?t ?v] by (metis frame_text_cut)
  then have "g_addr_cache ?z j = g_addr_cache u j \<or> g_addr_cache ?z j = (a, ?t)" for j by simp
  ultimately have "cache_mix X w ?z" using assms z x unfolding cache_mix_def by (metis fst_conv snd_conv)
  then show ?thesis using r None by (simp add: frame_source_def)
qed

text \<open>The loop over the first \<open>n\<close> frames.\<close>

lemma resolve_loop:
  assumes c: "exe_coherent X w" and n: "n \<le> length (k_resolved (g_stack_heap w e))"
    and r: "r = g_stack_heap w e" and w': "w' = fold (resolve_into X e) [0..<n] w"
  shows "cache_mix X w w' \<and> g_stack_cache w' = g_stack_cache w \<and> g_hung w' = g_hung w \<and>
    (\<exists>ts. length ts = length (k_resolved r) \<and> g_stack_heap w' = (g_stack_heap w)(e := r\<lparr>k_resolved := ts\<rparr>) \<and>
      (\<forall>i. if i < n \<and> k_frames r ! i \<noteq> NULL
           then frame_stored X w i (k_frames r ! i) (ts ! i) else ts ! i = k_resolved r ! i))"
  using n w'
proof (induction n arbitrary: w')
  case 0
  then show ?case using c by (auto simp: r cache_mix_def intro!: exI [of _ "k_resolved r"])
next
  case (Suc n)
  let ?u = "fold (resolve_into X e) [0..<n] w" and ?a = "k_frames r ! n"
  obtain ts where u: "cache_mix X w ?u" "g_stack_cache ?u = g_stack_cache w" "g_hung ?u = g_hung w"
      "length ts = length (k_resolved r)" "g_stack_heap ?u = (g_stack_heap w)(e := r\<lparr>k_resolved := ts\<rparr>)"
      "\<And>i. if i < n \<and> k_frames r ! i \<noteq> NULL
           then frame_stored X w i (k_frames r ! i) (ts ! i) else ts ! i = k_resolved r ! i"
    using Suc.IH [OF Suc_leD [OF Suc.prems(1)] refl] by blast
  have w': "w' = resolve_into X e n ?u" using Suc.prems(2) by simp
  show ?case
  proof (cases "?a = NULL")
    case True
    then have "w' = ?u" by (simp add: w' resolve_into_def u(5) resolve_one_frame_def)
    then show ?thesis using u True by (auto simp: less_Suc_eq)
  next
    case False
    obtain t v where t: "resolve_one_frame X ?a MTT_SYMBOL_MAX ?u = (Some t, v)" "frame_source X w ?a t" "cache_mix X w v"
      "\<And>s. addr_cache_lookup ?a MTT_SYMBOL_MAX ?u = Some s \<Longrightarrow> t = s"
      using resolve_one_frame_mix [OF u(1) False] by blast
    have st: "g_stack_heap v = g_stack_heap ?u" "g_stack_cache v = g_stack_cache ?u" "g_hung v = g_hung ?u"
      using resolve_one_frame_stack [of X ?a MTT_SYMBOL_MAX ?u] t(1) by simp_all
    have wv: "w' = v\<lparr>g_stack_heap := (g_stack_heap w)(e := r\<lparr>k_resolved := ts[n := t]\<rparr>)\<rparr>"
      using t(1) by (simp add: w' resolve_into_def u(5) st)
    have new: "frame_stored X w n ?a t" unfolding frame_stored_def using t(2,4) by auto
    have "if i < Suc n \<and> k_frames r ! i \<noteq> NULL
           then frame_stored X w i (k_frames r ! i) (ts[n := t] ! i) else ts[n := t] ! i = k_resolved r ! i" for i
      using u(6) [of i] u(4) Suc.prems(1) r new False by (cases "i = n") (auto simp: less_Suc_eq)
    then show ?thesis using t(3) st u(2,3,4) unfolding wv by (intro conjI exI [of _ "ts[n := t]"]) simp_all
  qed
qed

lemma caches_mixed:
  assumes "caches_coherent X L w" "cache_mix X w u"
  shows "caches_coherent X (insert (g_ext w) L) u"
  unfolding caches_coherent_def
proof (intro conjI allI impI)
  fix i assume nz: "fst (g_addr_cache u i) \<noteq> NULL"
  consider "g_addr_cache u i = g_addr_cache w i" | "snd (g_addr_cache u i) = frame_text X w (fst (g_addr_cache u i))"
    using assms(2) by (auto simp: cache_mix_def)
  then show "\<exists>l \<in> insert (g_ext w) L. snd (g_addr_cache u i) = frame_text X (u\<lparr>g_ext := l\<rparr>) (fst (g_addr_cache u i))"
  proof cases
    case 1
    then obtain l where "l \<in> L" "snd (g_addr_cache u i) = frame_text X (w\<lparr>g_ext := l\<rparr>) (fst (g_addr_cache u i))"
      using assms(1) nz by (auto simp: caches_coherent_def)
    moreover have "frame_text X (u\<lparr>g_ext := l\<rparr>) b = frame_text X (w\<lparr>g_ext := l\<rparr>) b" for b by (rule frame_text_cong) simp
    ultimately show ?thesis by (intro bexI [of _ l]) simp_all
  next
    case 2
    moreover have "frame_text X (u\<lparr>g_ext := g_ext w\<rparr>) b = frame_text X w b" for b by (rule frame_text_cong) simp
    ultimately show ?thesis by (intro bexI [of _ "g_ext w"]) simp_all
  qed
qed (use assms(2) in \<open>simp add: cache_mix_def\<close>)

text \<open>A cached text is one that was computed before.\<close>

lemma cached_source:
  assumes "caches_coherent X L w" "a \<noteq> NULL" "frame_source X w a t"
  shows "t = frame_text X w a \<or> (\<exists>l \<in> L. (a, t) \<in> range (g_addr_cache w) \<and> t = frame_text X (w\<lparr>g_ext := l\<rparr>) a)"
  using assms(3) unfolding frame_source_def
proof (elim disjE exE conjE)
  fix j assume j: "fst (g_addr_cache w j) = a" "t = copy_trunc MTT_SYMBOL_MAX (snd (g_addr_cache w j))"
  then obtain l where l: "l \<in> L" "snd (g_addr_cache w j) = frame_text X (w\<lparr>g_ext := l\<rparr>) a"
    using assms(1,2) by (auto simp: caches_coherent_def)
  then have "g_addr_cache w j = (a, t)" using j by (simp add: prod_eq_iff)
  then have "(a, t) \<in> range (g_addr_cache w)" by (metis rangeI)
  then show ?thesis using l j(2) by auto
qed simp

text \<open>C36. Resolving a stack: where the address cache holds texts computed in some states \<open>L\<close> of the dynamic linker
  (the code never invalidates it, so these may be out of date) and what is cached about the executable is what
  reading it again would give, the text that \<open>mtt_stack_resolve\<close> stores for each frame that is not NULL is the one
  computed directly from the linker's answers now, cut to the buffer, or a text that the cache held for this
  very address before the call, computed in one of the states \<open>L\<close>; for a first frame that is in the cache
  it is the cached text, and for an address that is in no slot of the cache it is the text computed now. Afterwards the
  cache holds texts computed in \<open>L\<close> or now, the stack cache is as it was, and a second call changes
  nothing.\<close>

theorem stack_resolve_text:
  assumes "caches_coherent X L w" "stack_cache_ok w" "(key, e) \<in> stacks w" "\<not> k_is_resolved (g_stack_heap w e)"
    and "w' = mtt_stack_resolve X e w"
  shows "caches_coherent X (insert (g_ext w) L) w' \<and> stack_cache_ok w' \<and> stacks w' = stacks w \<and> mtt_stack_resolve X e w' = w' \<and>
    (\<forall>i < length key. key ! i \<noteq> NULL \<longrightarrow>
       (k_resolved (g_stack_heap w' e) ! i = frame_text X w (key ! i) \<or>
        (\<exists>l \<in> L. (key ! i, k_resolved (g_stack_heap w' e) ! i) \<in> range (g_addr_cache w) \<and>
            k_resolved (g_stack_heap w' e) ! i = frame_text X (w\<lparr>g_ext := l\<rparr>) (key ! i))) \<and>
       (\<forall>s. i = 0 \<and> addr_cache_lookup (key ! i) MTT_SYMBOL_MAX w = Some s \<longrightarrow> k_resolved (g_stack_heap w' e) ! i = s))"
proof -
  let ?r = "g_stack_heap w e"
  let ?n = "nat (k_frame_count ?r)"
  have e: "e \<noteq> NULL" "stack_entry_ok ?r" "key = stack_key ?r"
    using assms(2,3) by (auto simp: stacks_def stack_cache_ok_def)
  let ?u = "fold (resolve_into X e) [0..<?n] w"
  have "exe_coherent X w" using assms(1) by (simp add: caches_coherent_def)
  moreover have "?n \<le> length (k_resolved ?r)" using e(2) by (simp add: stack_entry_ok_def nat_le_iff)
  ultimately obtain ts where u: "cache_mix X w ?u" "g_stack_cache ?u = g_stack_cache w"
      "length ts = length (k_resolved ?r)" "g_stack_heap ?u = (g_stack_heap w)(e := ?r\<lparr>k_resolved := ts\<rparr>)"
      "\<And>i. if i < ?n \<and> k_frames ?r ! i \<noteq> NULL
           then frame_stored X w i (k_frames ?r ! i) (ts ! i) else ts ! i = k_resolved ?r ! i"
    using resolve_loop [OF _ _ refl refl] by blast
  have w': "w' = ?u\<lparr>g_stack_heap := (g_stack_heap w)(e := ?r\<lparr>k_resolved := ts, k_is_resolved := True\<rparr>)\<rparr>"
    using e(1) assms(4) by (simp add: assms(5) mtt_stack_resolve_def Let_def u(4))
  have keys: "stack_key (g_stack_heap w' a) = stack_key (g_stack_heap w a)"
      "k_hash (g_stack_heap w' a) = k_hash (g_stack_heap w a)"
      "stack_entry_ok (g_stack_heap w' a) = stack_entry_ok (g_stack_heap w a)" for a
    using u(3) by (simp_all add: w' stack_key_def stack_entry_ok_def)
  have st: "stacks w' = stacks w" unfolding stacks_def keys by (simp add: w' u(2))
  have "stack_cache_ok w'" using assms(2) unfolding stack_cache_ok_def keys st by (simp add: w' u(2))
  moreover have "caches_coherent X (insert (g_ext w) L) w'"
    by (rule caches_mixed [OF assms(1)]) (use u(1) in \<open>simp add: w'\<close>)
  moreover have "mtt_stack_resolve X e w' = w'" by (simp add: mtt_stack_resolve_def w')
  moreover have "(ts ! i = frame_text X w (key ! i) \<or> (\<exists>l \<in> L. (key ! i, ts ! i) \<in> range (g_addr_cache w) \<and>
        ts ! i = frame_text X (w\<lparr>g_ext := l\<rparr>) (key ! i))) \<and>
      (\<forall>s. i = 0 \<and> addr_cache_lookup (key ! i) MTT_SYMBOL_MAX w = Some s \<longrightarrow> ts ! i = s)"
    if "i < length key" "key ! i \<noteq> NULL" for i
  proof -
    have k: "i < ?n" "key ! i = k_frames ?r ! i" using that(1) by (simp_all add: e(3) stack_key_def)
    then have "frame_stored X w i (key ! i) (ts ! i)" using u(5) [of i] that(2) by simp
    then show ?thesis unfolding frame_stored_def using cached_source [OF assms(1) that(2)] by blast
  qed
  moreover have "k_resolved (g_stack_heap w' e) = ts" by (simp add: w')
  ultimately show ?thesis using st by blast
qed


definition one_stack_world :: "ptr world" where
  "one_stack_world =
     (let h = mtt_stack_hash_compute [0x401000] 1
      in demo_world\<lparr>g_ext := 0x10000000,
           g_stack_heap := (g_stack_heap demo_world)(0x5000 := new_stack_entry h [0x401000] 1),
           g_stack_cache := (g_stack_cache demo_world)
             \<lparr>sc_entries := (sc_entries (g_stack_cache demo_world))
                (stack_bucket h := 0x5000 # sc_entries (g_stack_cache demo_world) (stack_bucket h)),
              sc_count := sc_count (g_stack_cache demo_world) + 1\<rparr>\<rparr>)"

lemma one_stack:
  "stack_cache_ok one_stack_world" "stacks one_stack_world = {([0x401000], 0x5000)}"
proof -
  have room: "sc_count (g_stack_cache demo_world) < of_nat MTT_STACK_CACHE_SIZE"
    by (simp add: demo_world_def MTT_STACK_CACHE_SIZE_def)
  have k: "[0x401000] = map MTT_FIX_THUMB_ADDR (take (nat 1) [0x401000])" by (simp add: MTT_FIX_THUMB_ADDR_def)
  note ins = stack_insert_ok [OF demo_stack_cache(1) _ _ _ k _ _ _ refl room one_stack_world_def [unfolded Let_def]]
  show "stack_cache_ok one_stack_world"
    by (rule ins(1)) (simp_all add: demo_stack_cache(2) MTT_STACK_DEPTH_def)
  have "stacks one_stack_world = insert ([0x401000], 0x5000) (stacks demo_world)"
    by (rule ins(2)) (simp_all add: demo_stack_cache(2) MTT_STACK_DEPTH_def)
  then show "stacks one_stack_world = {([0x401000], 0x5000)}" by (simp add: demo_stack_cache(2))
qed

text \<open>A process whose linker knew the frame's function before it was unloaded; the cache still has its name.\<close>

definition unloaded_ext :: "ptr ext" where
  "unloaded_ext = demo_ext\<lparr>x_backtrace_symbol := (\<lambda>l a. if l = 1 then Some ''(f)'' else None)\<rparr>"

definition stale_world :: "ptr world" where
  "stale_world = one_stack_world\<lparr>g_addr_cache :=
     (g_addr_cache demo_world)(addr_slot 0x401000 0 := (0x401000, ''f+0 (??+0)''))\<rparr>"

theorem stack_resolve_text_witness:
  "k_resolved (g_stack_heap (mtt_stack_resolve unloaded_ext 0x5000 stale_world) 0x5000) ! 0 = ''f+0 (??+0)'' \<and>
   stacks (mtt_stack_resolve unloaded_ext 0x5000 stale_world) = {([0x401000], 0x5000)}"
proof -
  have t: "frame_text unloaded_ext (stale_world\<lparr>g_ext := 1\<rparr>) 0x401000 = ''f+0 (??+0)''"
    by (simp add: frame_text_def locate_frame_def lost_frame_def sym_form_of_def sym_marks_of_def  between_def
        unloaded_ext_def demo_ext_def alt_hex_def copy_trunc_def mtt_limits)
  have e: "g_addr_cache demo_world j = (NULL, [])" for j by (simp add: demo_world_def)
  have "caches_coherent unloaded_ext {1} stale_world"
    using t by (simp add: caches_coherent_def exe_coherent_def stale_world_def one_stack_world_def Let_def e)
      (simp add: demo_world_def)
  moreover have "\<not> k_is_resolved (g_stack_heap stale_world 0x5000)"
    by (simp add: stale_world_def one_stack_world_def Let_def new_stack_entry_def)
  moreover have "stack_cache_ok stale_world" "stacks stale_world = {([0x401000], 0x5000)}"
    using one_stack by (simp_all add: stale_world_def stack_cache_ok_def stacks_def)
  moreover have "addr_cache_lookup 0x401000 MTT_SYMBOL_MAX stale_world = Some ''f+0 (??+0)''"
    using addr_cache_lookup_Some [of "0x401000" MTT_SYMBOL_MAX 0 stale_world]
    by (simp add: stale_world_def mtt_limits copy_trunc_def)
  ultimately show ?thesis
    using stack_resolve_text [of unloaded_ext "{1}" stale_world "[0x401000]" "0x5000", OF _ _ _ _ refl] by simp
qed

end
