(* ===== verification/Leak_Scan.thy ===== *)
theory Leak_Scan
  imports Entry_Table Stack_Cache Time_Series "HOL-Library.Multiset"
begin

text \<open>
  The data stages of a scan of \<^verbatim>\<open>reporter.c\<close>: the snapshot of the tracking table under its
  striped locks, the grouping of the copied records into leak sites by the hash of their
  stacks, the total, the sorted array, the growth since the last scan, the count of expired
  sites and the pairing of sites with resolved stacks. The site table is a function from
  buckets to the lists of their nodes, each with its address, newest first. Log messages are
  left out.
\<close>

section \<open>Snapshot\<close>

record alloc_snap =
  sn_ptr :: ptr
  sn_size :: size_t
  sn_timestamp :: int
  sn_stack :: "ptr list"
  sn_stack_frames :: int

text \<open>The copy of a record: the array is cleared and the captured frames are copied.\<close>

definition snap_of :: "mtt_entry \<Rightarrow> alloc_snap" where
  "snap_of e =
     (let n = nat (e_stack_frames e)
      in \<lparr>sn_ptr = e_ptr e, sn_size = e_size e, sn_timestamp = e_timestamp e,
          sn_stack = take n (e_stack e) @ replicate (MTT_STACK_DEPTH - n) NULL,
          sn_stack_frames = e_stack_frames e\<rparr>)"

text \<open>The array of the snapshot: halved until \<open>malloc\<close> grants it. The result is the block and its capacity.\<close>

function snap_alloc :: "'l ext \<Rightarrow> u64 \<Rightarrow> 'l world \<Rightarrow> ptr \<times> u64 \<times> 'l world" where
  "snap_alloc X try_entries w =
     (let (snaps, w) = call_malloc X (try_entries * sizeof_mtt_alloc_snap) w
      in if snaps \<noteq> NULL then (snaps, try_entries, w)
         else if try_entries div 2 \<ge> 1024 then snap_alloc X (try_entries div 2) w
         else (NULL, try_entries div 2, w))"
  by pat_completeness auto

lemma half_less: "1024 \<le> (v :: u64) div 2 \<Longrightarrow> unat (v div 2) < unat v"
  by (simp add: unat_div word_le_nat_alt)

termination snap_alloc
  by (relation "measure (\<lambda>(X, v, w). unat v)") (auto simp: half_less)

declare snap_alloc.simps [simp del]

text \<open>
  A chain, a stripe of buckets from \<open>b\<close>, and the stripes: each loop stops when the array is full.
\<close>

fun snap_chain :: "'l world \<Rightarrow> nat \<Rightarrow> ptr \<Rightarrow> alloc_snap list" where
  "snap_chain w 0 e = []"
| "snap_chain w (Suc room) e =
     (if e = NULL then [] else snap_of (g_entries w e) # snap_chain w room (e_next (g_entries w e)))"

function snap_stripe :: "'l world \<Rightarrow> (nat \<Rightarrow> ptr) \<Rightarrow> nat \<Rightarrow> nat \<Rightarrow> alloc_snap list \<Rightarrow> alloc_snap list" where
  "snap_stripe w buckets entry_total b snaps =
     (if b < unat (s_bucket_count (g_state w)) \<and> length snaps < entry_total
      then snap_stripe w buckets entry_total (b + MTT_LOCK_STRIPES)
             (snaps @ snap_chain w (entry_total - length snaps) (buckets b))
      else snaps)"
  by pat_completeness auto

termination snap_stripe
  by (relation "measure (\<lambda>(w, bk, n, b, s). unat (s_bucket_count (g_state w)) - b)")
     (auto simp: MTT_LOCK_STRIPES_def)

declare snap_stripe.simps [simp del]

fun snap_locks :: "(nat \<Rightarrow> ptr) \<Rightarrow> nat \<Rightarrow> nat list \<Rightarrow> alloc_snap list \<Rightarrow> 'l world \<Rightarrow> alloc_snap list \<times> 'l world" where
  "snap_locks buckets entry_total [] snaps w = (snaps, w)"
| "snap_locks buckets entry_total (lock_idx # idxs) snaps w =
     (if length snaps < entry_total then
        let w = bucket_lock lock_idx w;
            snaps = snap_stripe w buckets entry_total lock_idx snaps
        in snap_locks buckets entry_total idxs snaps (bucket_unlock lock_idx w)
      else (snaps, w))"

text \<open>
  The stage: \<open>None\<close> when no array could be allocated (the scan is skipped), otherwise the block
  (NULL for an empty table) and the copies. A table without buckets would be dereferenced as NULL.
\<close>

definition scan_snapshot :: "'l ext \<Rightarrow> 'l world \<Rightarrow> (ptr \<times> alloc_snap list) option \<times> 'l world" where
  "scan_snapshot X w =
     (let entry_total = s_entry_count (g_state w)
      in if entry_total = 0 then (Some (NULL, []), w)
         else
           let (block, try_entries, w) = snap_alloc X entry_total w
           in if block = NULL then (None, w)
              else
                let entry_total = (if try_entries < entry_total then try_entries else entry_total)
                in case s_buckets (g_state w) of
                     None \<Rightarrow> (Some (block, []), w\<lparr>g_hung := True\<rparr>)
                   | Some buckets \<Rightarrow>
                       let (snaps, w) = snap_locks buckets (unat entry_total) [0..<MTT_LOCK_STRIPES] [] w
                       in (Some (block, snaps), w))"

section \<open>Leak sites\<close>

definition sizeof_leak_site :: size_t where "sizeof_leak_site = 72"

record leak_table =
  lt_entries :: "nat \<Rightarrow> (ptr \<times> leak_site) list"
  lt_count :: size_t

definition empty_leak_table :: leak_table where
  "empty_leak_table = \<lparr>lt_entries = (\<lambda>_. []), lt_count = 0\<rparr>"

text \<open>The key of a record: the hash of its stack, whose symbols are resolved on the way, or its size.\<close>

definition scan_hash :: "'l ext \<Rightarrow> alloc_snap \<Rightarrow> 'l world \<Rightarrow> u64 \<times> 'l world" where
  "scan_hash X sn w =
     (if sn_stack_frames sn > 0 then
        let (stack_entry, w) = mtt_stack_cache_lookup X (sn_stack sn) (sn_stack_frames sn) w;
            w = (if stack_entry \<noteq> NULL \<and> \<not> k_is_resolved (g_stack_heap w stack_entry)
                 then mtt_stack_resolve X stack_entry w else w)
        in if stack_entry \<noteq> NULL then (k_hash (g_stack_heap w stack_entry), w)
           else (mtt_stack_hash_compute (sn_stack sn) (sn_stack_frames sn), w)
      else (sn_size sn * 0x9E3779B97F4A7C15, w))"

definition leak_bucket :: "u64 \<Rightarrow> nat" where
  "leak_bucket hash = unat (hash AND (of_nat MTT_LEAK_DEDUP_SIZE - 1))"

definition snap_expired :: "int \<Rightarrow> int \<Rightarrow> alloc_snap \<Rightarrow> bool" where
  "snap_expired now threshold sn \<longleftrightarrow> threshold > 0 \<and> now - sn_timestamp sn > threshold"

definition hit_site :: "int \<Rightarrow> int \<Rightarrow> alloc_snap \<Rightarrow> leak_site \<Rightarrow> leak_site" where
  "hit_site now threshold sn site =
     (let site = (if l_first_seen site = 0
                  then site\<lparr>l_first_seen := (if sn_timestamp sn > 0 then sn_timestamp sn else now)\<rparr> else site);
          site = site\<lparr>l_count := l_count site + 1, l_total_size := l_total_size site + sn_size sn\<rparr>;
          site = (if sn_timestamp sn > l_last_seen site then site\<lparr>l_last_seen := sn_timestamp sn\<rparr> else site)
      in if \<not> l_is_expired site \<and> snap_expired now threshold sn then site\<lparr>l_is_expired := True\<rparr> else site)"

definition new_site :: "int \<Rightarrow> int \<Rightarrow> u64 \<Rightarrow> alloc_snap \<Rightarrow> leak_site" where
  "new_site now threshold hash sn =
     \<lparr>l_stack_hash = hash,
      l_first_seen = (if sn_timestamp sn > 0 then sn_timestamp sn else now),
      l_last_seen = sn_timestamp sn, l_count = 1, l_per_leak_size = sn_size sn,
      l_total_size = sn_size sn, l_diff_size = 0, l_is_expired = snap_expired now threshold sn\<rparr>"

text \<open>The first node of a list for a hash is updated.\<close>

fun update_site :: "u64 \<Rightarrow> (leak_site \<Rightarrow> leak_site) \<Rightarrow> (ptr \<times> leak_site) list \<Rightarrow> (ptr \<times> leak_site) list" where
  "update_site hash f [] = []"
| "update_site hash f ((a, site) # rest) =
     (if l_stack_hash site = hash then (a, f site) # rest else (a, site) # update_site hash f rest)"

definition dedup_snap :: "'l ext \<Rightarrow> int \<Rightarrow> alloc_snap \<Rightarrow> leak_table \<times> 'l world \<Rightarrow> leak_table \<times> 'l world" where
  "dedup_snap X now sn tw =
     (case tw of (t, w) \<Rightarrow>
        let threshold = s_leak_threshold_sec (g_state w);
            (hash, w) = scan_hash X sn w;
            bucket = leak_bucket hash;
            sites = lt_entries t bucket
        in if list_ex (\<lambda>(a, site). l_stack_hash site = hash) sites
           then (t\<lparr>lt_entries := (lt_entries t)(bucket := update_site hash (hit_site now threshold sn) sites)\<rparr>, w)
           else if lt_count t < of_nat MTT_LEAK_DEDUP_SIZE then
             let (a, w) = call_malloc X sizeof_leak_site w
             in if a = NULL then (t, w)
                else (t\<lparr>lt_entries := (lt_entries t)(bucket := (a, new_site now threshold hash sn) # sites),
                        lt_count := lt_count t + 1\<rparr>, w)
           else (t, w))"

definition dedup_all :: "'l ext \<Rightarrow> int \<Rightarrow> alloc_snap list \<Rightarrow> 'l world \<Rightarrow> leak_table \<times> 'l world" where
  "dedup_all X now snaps w = fold (dedup_snap X now) snaps (empty_leak_table, w)"

text \<open>The nodes of the table in the order of the loops over it.\<close>

definition all_sites :: "leak_table \<Rightarrow> (ptr \<times> leak_site) list" where
  "all_sites t = concat (map (lt_entries t) [0..<MTT_LEAK_DEDUP_SIZE])"

definition store_leak_total :: "leak_table \<Rightarrow> 'l world \<Rightarrow> 'l world" where
  "store_leak_total t w =
     upd_state (\<lambda>s. s\<lparr>s_leak_bytes_total := sum_list (map (l_total_size \<circ> snd) (all_sites t))\<rparr>) w"

text \<open>The first copied record whose stack has a hash.\<close>

definition snap_with_hash :: "alloc_snap list \<Rightarrow> u64 \<Rightarrow> alloc_snap option" where
  "snap_with_hash snaps hash =
     find (\<lambda>sn. sn_stack_frames sn > 0 \<and> mtt_stack_hash_compute (sn_stack sn) (sn_stack_frames sn) = hash) snaps"

definition resolve_site :: "'l ext \<Rightarrow> alloc_snap list \<Rightarrow> ptr \<times> leak_site \<Rightarrow> 'l world \<Rightarrow> 'l world" where
  "resolve_site X snaps node w =
     (case snap_with_hash snaps (l_stack_hash (snd node)) of
        None \<Rightarrow> w
      | Some sn \<Rightarrow>
          let (se, w) = mtt_stack_cache_lookup X (sn_stack sn) (sn_stack_frames sn) w
          in if se \<noteq> NULL \<and> \<not> k_is_resolved (g_stack_heap w se) then mtt_stack_resolve X se w else w)"

definition resolve_sites :: "'l ext \<Rightarrow> alloc_snap list \<Rightarrow> leak_table \<Rightarrow> 'l world \<Rightarrow> 'l world" where
  "resolve_sites X snaps t w = fold (resolve_site X snaps) (all_sites t) w"


section \<open>The sorted array\<close>

text \<open>
  \<open>qsort\<close> as the stable insertion by its comparison: an element goes after those that compare
  less than or equal to it.
\<close>

definition cmp_leak_by_count :: "leak_site \<Rightarrow> leak_site \<Rightarrow> int" where
  "cmp_leak_by_count sa sb =
     (if l_count sb > l_count sa then 1
      else if l_count sb < l_count sa then - 1
      else if l_total_size sb > l_total_size sa then 1
      else if l_total_size sb < l_total_size sa then - 1
      else 0)"

fun qsort_insert :: "('a \<Rightarrow> 'a \<Rightarrow> int) \<Rightarrow> 'a \<Rightarrow> 'a list \<Rightarrow> 'a list" where
  "qsort_insert cmp x [] = [x]"
| "qsort_insert cmp x (y # ys) = (if cmp x y \<le> 0 then x # y # ys else y # qsort_insert cmp x ys)"

definition qsort :: "('a \<Rightarrow> 'a \<Rightarrow> int) \<Rightarrow> 'a list \<Rightarrow> 'a list" where
  "qsort cmp xs = foldr (qsort_insert cmp) xs []"

text \<open>
  The array: its block and the sites in order (the nodes with their addresses), and the number
  of sites; without a block the number is the one of the table.
\<close>

definition sort_sites :: "'l ext \<Rightarrow> leak_table \<Rightarrow> 'l world \<Rightarrow> (ptr \<times> (ptr \<times> leak_site) list) option \<times> nat \<times> 'l world" where
  "sort_sites X t w =
     (if lt_count t > 0 then
        let (block, w) = call_malloc X (lt_count t * 8) w
        in if block = NULL then (None, unat (lt_count t), w)
           else
             let sites = take (unat (lt_count t)) (all_sites t)
             in (Some (block, qsort (\<lambda>a b. cmp_leak_by_count (snd a) (snd b)) sites), length sites, w)
      else (None, 0, w))"

definition prev_total :: "(u64 \<times> size_t) list \<Rightarrow> u64 \<Rightarrow> size_t" where
  "prev_total prev hash = (case find (\<lambda>(h, n). h = hash) prev of Some (h, n) \<Rightarrow> n | None \<Rightarrow> 0)"

definition set_diff :: "(u64 \<times> size_t) list \<Rightarrow> ptr \<times> leak_site \<Rightarrow> ptr \<times> leak_site" where
  "set_diff prev node =
     (case node of (a, site) \<Rightarrow>
        let before = prev_total prev (l_stack_hash site)
        in (a, site\<lparr>l_diff_size := (if l_total_size site > before then l_total_size site - before else 0)\<rparr>))"

definition expired_sites :: "(ptr \<times> leak_site) list \<Rightarrow> nat" where
  "expired_sites sites = length (filter (l_is_expired \<circ> snd) sites)"

definition store_expired :: "(ptr \<times> (ptr \<times> leak_site) list) option \<Rightarrow> 'l world \<Rightarrow> 'l world" where
  "store_expired ordered w =
     upd_state (\<lambda>s. s\<lparr>s_expired_alloc_count :=
       (case ordered of None \<Rightarrow> 0 | Some (block, sites) \<Rightarrow> of_nat (expired_sites sites))\<rparr>) w"

text \<open>The pairs of a site and the entry of its stack, or NULL.\<close>

fun pair_sites :: "'l ext \<Rightarrow> alloc_snap list \<Rightarrow> (ptr \<times> leak_site) list \<Rightarrow> 'l world \<Rightarrow> (ptr \<times> ptr) list \<times> 'l world" where
  "pair_sites X snaps [] w = ([], w)"
| "pair_sites X snaps ((a, site) # sites) w =
     (let (se, w) = (case snap_with_hash snaps (l_stack_hash site) of
                       None \<Rightarrow> (NULL, w)
                     | Some sn \<Rightarrow> mtt_stack_cache_lookup X (sn_stack sn) (sn_stack_frames sn) w);
          (rest, w) = pair_sites X snaps sites w
      in ((a, se) # rest, w))"

definition collect_pairs ::
  "'l ext \<Rightarrow> alloc_snap list \<Rightarrow> (ptr \<times> (ptr \<times> leak_site) list) option \<Rightarrow> 'l world \<Rightarrow>
     (ptr \<times> (ptr \<times> ptr) list) option \<times> 'l world" where
  "collect_pairs X snaps ordered w =
     (case ordered of
        None \<Rightarrow> (None, w)
      | Some (block, sites) \<Rightarrow>
          if sites = [] then (None, w)
          else
            let (pairs, w) = call_malloc X (of_nat (length sites) * 16) w
            in if pairs = NULL then (None, w)
               else let (ps, w) = pair_sites X snaps sites w in (Some (pairs, ps), w))"

section \<open>The snapshot holds every record\<close>

lemma snap_chain_all:
  "chain (nexts w) e as \<Longrightarrow> length as \<le> room \<Longrightarrow> snap_chain w room e = map (\<lambda>a. snap_of (g_entries w a)) as"
proof (induction as arbitrary: e room)
  case Nil
  then show ?case by (cases room) auto
next
  case (Cons a as)
  then show ?case by (cases room) auto
qed

lemma snap_chain_length: "length (snap_chain w room e) \<le> room"
  by (induction room arbitrary: e) auto

text \<open>The buckets of a stripe from \<open>b\<close> on, in the order of the loop.\<close>

function stripe_from :: "nat \<Rightarrow> nat \<Rightarrow> nat list" where
  "stripe_from n b = (if b < n then b # stripe_from n (b + MTT_LOCK_STRIPES) else [])"
  by pat_completeness auto

termination stripe_from
  by (relation "measure (\<lambda>(n, b). n - b)") (auto simp: MTT_LOCK_STRIPES_def)

declare stripe_from.simps [simp del]

lemma stripe_from_set: "set (stripe_from n b) = {i. b \<le> i \<and> i < n \<and> i mod MTT_LOCK_STRIPES = b mod MTT_LOCK_STRIPES}"
proof (induction n b rule: stripe_from.induct)
  case (1 n b)
  have next_one: "i = b \<or> b + MTT_LOCK_STRIPES \<le> i" if "b \<le> i" "i mod MTT_LOCK_STRIPES = b mod MTT_LOCK_STRIPES" for i
  proof (rule ccontr)
    assume "\<not> ?thesis"
    then have "i - b < MTT_LOCK_STRIPES" "i \<noteq> b" using that by auto
    moreover have "(b + (i - b)) mod MTT_LOCK_STRIPES = (b + 0) mod MTT_LOCK_STRIPES" using that by simp
    ultimately show False
      using mod_shift_le [of "i - b" MTT_LOCK_STRIPES 0 b] that by simp
  qed
  show ?case
  proof (cases "b < n")
    case True
    then show ?thesis using 1 next_one by (subst stripe_from.simps) auto
  qed (subst stripe_from.simps, auto)
qed

lemma stripe_from_distinct: "distinct (stripe_from n b)"
proof (induction n b rule: stripe_from.induct)
  case (1 n b)
  then show ?case
    by (subst stripe_from.simps) (auto simp: stripe_from_set MTT_LOCK_STRIPES_def)
qed

abbreviation all_buckets :: "nat \<Rightarrow> nat list" where
  "all_buckets n \<equiv> concat (map (stripe_from n) [0..<MTT_LOCK_STRIPES])"

lemma all_buckets_perm: "mset (all_buckets n) = mset [0..<n]"
proof -
  have "distinct (concat (map (stripe_from n) [0..<m]))" if "m \<le> MTT_LOCK_STRIPES" for m
    using that by (induction m) (auto simp: stripe_from_distinct stripe_from_set)
  moreover have "set (all_buckets n) = {..<n}"
    by (auto simp: stripe_from_set MTT_LOCK_STRIPES_def intro!: bexI [of _ "_ mod 64"])
  ultimately show ?thesis by (metis atLeast_upt distinct_upt set_eq_iff_mset_eq_distinct le_refl)
qed

lemma mset_concat_map: "mset xs = mset ys \<Longrightarrow> mset (concat (map f xs)) = mset (concat (map f ys))"
  by (simp add: mset_concat flip: sum_mset_sum_list)

lemma full_nil: "\<not> m < n \<Longrightarrow> m + length xs \<le> n \<Longrightarrow> xs = []"
  by (cases xs) auto

lemma snap_stripe_all:
  assumes "\<And>i. i < unat (s_bucket_count (g_state w)) \<Longrightarrow> chain (nexts w) (bk i) (bs i)"
    and "length snaps + length (concat (map bs (stripe_from (unat (s_bucket_count (g_state w))) b))) \<le> entry_total"
  shows "snap_stripe w bk entry_total b snaps =
    snaps @ map (\<lambda>a. snap_of (g_entries w a)) (concat (map bs (stripe_from (unat (s_bucket_count (g_state w))) b)))"
  using assms
proof (induction "unat (s_bucket_count (g_state w))" b arbitrary: snaps rule: stripe_from.induct)
  case (1 b)
  let ?n = "unat (s_bucket_count (g_state w))"
  show ?case
  proof (cases "b < ?n")
    case False
    then show ?thesis by (subst snap_stripe.simps, subst stripe_from.simps) simp
  next
    case True
    note st = stripe_from.simps [of ?n b]
    have len: "length snaps + length (bs b) + length (concat (map bs (stripe_from ?n (b + MTT_LOCK_STRIPES)))) \<le> entry_total"
      using 1(3) True by (simp add: st)
    let ?m = "map (\<lambda>a. snap_of (g_entries w a)) (bs b)"
    show ?thesis
    proof (cases "length snaps < entry_total")
      case room: True
      have "snap_chain w (entry_total - length snaps) (bk b) = ?m"
        by (intro snap_chain_all 1(2) True) (use len in simp)
      then show ?thesis
        using 1(1) [OF True 1(2), of "snaps @ ?m"] len True room
        by (subst snap_stripe.simps) (simp add: st)
    next
      case False
      then have "concat (map bs (stripe_from ?n b)) = []" using 1(3) by (rule full_nil)
      then show ?thesis using False by (subst snap_stripe.simps) simp
    qed
  qed
qed

lemma bucket_lock_restored:
  "\<not> s_bucket_locks (g_state w) i \<Longrightarrow> bucket_unlock i (bucket_lock i w) = w"
  by (simp add: bucket_lock_def bucket_unlock_def fun_upd_idem)

lemma snap_locks_all:
  assumes "\<And>i. i < unat (s_bucket_count (g_state w)) \<Longrightarrow> chain (nexts w) (bk i) (bs i)"
    and "\<forall>i. \<not> s_bucket_locks (g_state w) i"
    and "length snaps + length (concat (map bs (concat (map (stripe_from (unat (s_bucket_count (g_state w)))) idxs)))) \<le> entry_total"
  shows "snap_locks bk entry_total idxs snaps w =
    (snaps @ map (\<lambda>a. snap_of (g_entries w a))
       (concat (map bs (concat (map (stripe_from (unat (s_bucket_count (g_state w)))) idxs)))), w)"
  using assms(3)
proof (induction idxs arbitrary: snaps)
  case Nil
  then show ?case by simp
next
  case (Cons i idxs)
  let ?n = "unat (s_bucket_count (g_state w))"
  let ?l = "bucket_lock i w"
  have fr: "g_entries ?l = g_entries w" "s_bucket_count (g_state ?l) = s_bucket_count (g_state w)"
    by (simp_all add: bucket_lock_def)
  show ?case
  proof (cases "length snaps < entry_total")
    case True
    have "snap_stripe ?l bk entry_total i snaps =
        snaps @ map (\<lambda>a. snap_of (g_entries w a)) (concat (map bs (stripe_from ?n i)))"
      using snap_stripe_all [of ?l bk bs snaps i entry_total] assms(1) Cons.prems by (simp add: fr)
    then show ?thesis
      using True Cons.IH [of "snaps @ map (\<lambda>a. snap_of (g_entries w a)) (concat (map bs (stripe_from ?n i)))"]
        Cons.prems assms(2) by (simp add: bucket_lock_restored)
  next
    case False
    then have "concat (map bs (concat (map (stripe_from ?n) (i # idxs)))) = []"
      using Cons.prems by (rule full_nil)
    then show ?thesis using False by (simp only: snap_locks.simps if_False list.map append_Nil2)
  qed
qed


text \<open>The nodes of the buckets below the bucket count are all the nodes, each once.\<close>

lemma bucket_nodes:
  assumes "chains_inv w bs fs" "finite (nodes bs)"
  shows "mset (concat (map bs (all_buckets (unat (s_bucket_count (g_state w)))))) = mset_set (nodes bs)"
proof -
  let ?n = "unat (s_bucket_count (g_state w))"
  obtain bk where bk: "s_buckets (g_state w) = Some bk"
    "\<And>i. i < ?n \<Longrightarrow> chain (nexts w) (bk i) (bs i)" "0 < s_bucket_count (g_state w)"
    using assms(1) by (auto simp: chains_inv_def)
  have d: "distinct (concat (map bs [0..<m]))" if "m \<le> ?n" for m
    using that
  proof (induction m)
    case (Suc m)
    then have "distinct (bs m)" "set (bs m) \<inter> set (bs j) = {}" if "j < m" for j
      using chain_distinct [OF bk(2)] buckets_disjoint [OF assms(1), of m j] that by auto
    moreover have "distinct (bs m)" using chain_distinct [OF bk(2)] Suc.prems by simp
    ultimately show ?case using Suc by fastforce
  qed simp
  have out: "bs i = []" if "?n \<le> i" for i
  proof (rule ccontr)
    assume "bs i \<noteq> []"
    then obtain a where "a \<in> set (bs i)" by (cases "bs i") auto
    then have "bucket_at w (e_ptr (g_entries w a)) = i" using assms(1) by (simp add: chains_inv_def)
    then show False using bucket_at_less [OF bk(3)] that by (metis not_less)
  qed
  have "set (concat (map bs [0..<?n])) = nodes bs"
  proof -
    have "a \<in> (\<Union>i<?n. set (bs i))" if "a \<in> set (bs i)" for a i
      using that out [of i] by (cases "i < ?n") auto
    then show ?thesis by (force simp: nodes_def)
  qed
  then have "mset (concat (map bs [0..<?n])) = mset_set (nodes bs)"
    using d [of ?n] by (metis le_refl mset_set_set)
  moreover have "mset (concat (map bs (all_buckets ?n))) = mset (concat (map bs [0..<?n]))"
    by (rule mset_concat_map [OF all_buckets_perm])
  ultimately show ?thesis by simp
qed

lemma entry_count_exact:
  assumes "table_inv w bs fs held"
  shows "unat (s_entry_count (g_state w)) = card (nodes bs)"
proof -
  have c: "s_entry_count (g_state w) = of_nat (card (nodes bs))" "NULL \<notin> nodes bs"
    using assms chains_nodes_nonNULL(1) by (auto simp: table_inv_def counts_inv_def)
  have "nodes bs \<subset> UNIV" using c(2) by blast
  then have "card (nodes bs) < card (UNIV :: u64 set)" by (intro psubset_card_mono) simp_all
  then show ?thesis using c(1) by (simp add: card_word unsigned_of_nat take_bit_nat_eq_self)
qed

lemma snap_alloc_first:
  assumes "call_malloc X (n * sizeof_mtt_alloc_snap) w = (p, w')" "p \<noteq> NULL"
  shows "snap_alloc X n w = (p, n, w')"
  using assms by (subst snap_alloc.simps) simp

lemma snapshot_records:
  assumes "table_inv w bs fs held" "\<forall>i. \<not> s_bucket_locks (g_state w) i"
    and "call_malloc X (s_entry_count (g_state w) * sizeof_mtt_alloc_snap) w = (p, w1)"
    and "s_entry_count (g_state w) \<noteq> 0 \<Longrightarrow> p \<noteq> NULL"
  shows "\<exists>block snaps w'. scan_snapshot X w = (Some (block, snaps), w') \<and>
    mset snaps = image_mset (\<lambda>a. snap_of (g_entries w a)) (mset_set (nodes bs)) \<and>
    g_state w' = g_state w \<and> g_entries w' = g_entries w"
proof (cases "s_entry_count (g_state w) = 0")
  case True
  then have "nodes bs = {}"
    using entry_count_exact [OF assms(1)] assms(1) by (simp add: table_inv_def counts_inv_def)
  then show ?thesis using True by (simp add: scan_snapshot_def)
next
  case False
  have ch: "chains_inv w bs fs" and fin: "finite (nodes bs)"
    using assms(1) by (simp_all add: table_inv_def counts_inv_def)
  have fr: "g_state w1 = g_state w" "g_entries w1 = g_entries w"
    using call_malloc_frame [OF assms(3)] by simp_all
  let ?n = "unat (s_bucket_count (g_state w))"
  obtain bk where bk: "s_buckets (g_state w) = Some bk" "\<And>i. i < ?n \<Longrightarrow> chain (nexts w) (bk i) (bs i)"
    using ch by (auto simp: chains_inv_def)
  have all: "mset (concat (map bs (all_buckets ?n))) = mset_set (nodes bs)"
    by (rule bucket_nodes [OF ch fin])
  then have "length (concat (map bs (all_buckets ?n))) = unat (s_entry_count (g_state w))"
    using entry_count_exact [OF assms(1)] by (metis size_mset size_mset_set)
  then have "snap_locks bk (unat (s_entry_count (g_state w))) [0..<MTT_LOCK_STRIPES] [] w1 =
      (map (\<lambda>a. snap_of (g_entries w a)) (concat (map bs (all_buckets ?n))), w1)"
    using snap_locks_all [of w1 bk bs "[]" "[0..<MTT_LOCK_STRIPES]" "unat (s_entry_count (g_state w))"] bk(2) assms(2)
    by (simp add: fr)
  moreover have "mset (map (\<lambda>a. snap_of (g_entries w a)) (concat (map bs (all_buckets ?n)))) =
      image_mset (\<lambda>a. snap_of (g_entries w a)) (mset_set (nodes bs))"
    using all by (metis mset_map)
  ultimately show ?thesis
    using False snap_alloc_first [OF assms(3)] assms(4) bk(1) fr
    by (simp add: scan_snapshot_def)
qed

text \<open>A snapshot is the whole tracking table. Where the table is well formed, no bucket lock is
  held and \<open>malloc\<close> grants the array for the counted records, the copies are those of all tracked
  records, each once; every lock is free again and the table is untouched.
\<close>

theorem snapshot_complete:
  assumes "table_inv w bs fs held" "\<forall>i. \<not> s_bucket_locks (g_state w) i"
    and "call_malloc X (s_entry_count (g_state w) * sizeof_mtt_alloc_snap) w = (p, w1)"
    and "s_entry_count (g_state w) \<noteq> 0 \<Longrightarrow> p \<noteq> NULL"
  shows "\<exists>block snaps w'. scan_snapshot X w = (Some (block, snaps), w') \<and>
    mset snaps = image_mset (\<lambda>a. snap_of (g_entries w a)) (mset_set (nodes bs)) \<and>
    g_state w' = g_state w \<and> g_entries w' = g_entries w"
  by (rule snapshot_records [OF assms])

text \<open>One record in the table, for the block of 24 bytes at \<open>0x20\<close>.\<close>

definition one_record_world :: "ptr world" where
  "one_record_world = mtt_entry_add 0x9000 (held_world\<lparr>raw_malloc := F_LIBC\<rparr>)"

lemma one_record:
  "table_inv one_record_world ((\<lambda>_. [])(bucket_at held_world 0x20 := [0x9000])) (\<lambda>_. []) {}"
  "g_entries one_record_world 0x9000 = zero_entry\<lparr>e_ptr := 0x20, e_size := 24\<rparr>"
  "s_entry_count (g_state one_record_world) = 1" "\<not> s_bucket_locks (g_state one_record_world) i"
  "raw_malloc one_record_world = F_LIBC" "g_ext one_record_world = 0x10000000"
proof -
  let ?w = "held_world\<lparr>raw_malloc := F_LIBC\<rparr>"
  have "table_inv ?w (\<lambda>_. []) (\<lambda>_. []) {0x9000}"
    by (simp add: table_inv_def chains_inv_def counts_inv_def nodes_def held_world_def zero_state_def)
  from entry_add_inv [OF this, of "0x9000"]
  show "table_inv one_record_world ((\<lambda>_. [])(bucket_at held_world 0x20 := [0x9000])) (\<lambda>_. []) {}"
    by (simp add: one_record_world_def held_world_def)
  have b: "s_buckets (g_state ?w) = Some (\<lambda>_. NULL)" by (simp add: held_world_def)
  have n: "(0x9000 :: ptr) \<noteq> NULL" by simp
  show "g_entries one_record_world 0x9000 = zero_entry\<lparr>e_ptr := 0x20, e_size := 24\<rparr>"
    "s_entry_count (g_state one_record_world) = 1" "\<not> s_bucket_locks (g_state one_record_world) i"
    "raw_malloc one_record_world = F_LIBC" "g_ext one_record_world = 0x10000000"
    unfolding one_record_world_def entry_add_eq [OF b n]
    by (simp_all add: Let_def held_world_def zero_entry_def zero_state_def demo_world_def)
qed

theorem snapshot_complete_witness:
  "\<exists>block snaps w'. scan_snapshot demo_ext one_record_world = (Some (block, snaps), w') \<and>
     map (\<lambda>sn. (sn_ptr sn, sn_size sn)) snaps = [(0x20, 24)]"
proof -
  have n: "nodes ((\<lambda>_. [])(bucket_at held_world 0x20 := [0x9000])) = {0x9000}" by (auto simp: nodes_def)
  obtain p w1 where m: "call_malloc demo_ext (s_entry_count (g_state one_record_world) * sizeof_mtt_alloc_snap)
      one_record_world = (p, w1)" "p \<noteq> NULL"
    by (simp add: call_malloc_def one_record demo_ext_def demo_malloc_def sizeof_mtt_alloc_snap_def)
  obtain block snaps w' where s: "scan_snapshot demo_ext one_record_world = (Some (block, snaps), w')"
    "mset snaps = {#snap_of (g_entries one_record_world 0x9000)#}"
    using snapshot_complete [OF one_record(1) _ m(1)] m(2) by (auto simp: n one_record(4))
  then have "snaps = [snap_of (g_entries one_record_world 0x9000)]" by simp
  then show ?thesis using s(1) by (simp add: one_record(2) snap_of_def Let_def)
qed

end
