(* ===== verification/Leak_Sites.thy ===== *)
theory Leak_Sites
  imports Leak_Scan
begin

text \<open>
  What the data stages of a scan compute: the leak sites are the groups of the copied
  records by their key, each with the count, the sum of the sizes and the expiry of its group;
  the array of the report is the table in the order of the comparison; and the scan leaves the
  tracing state as it is.
\<close>

section \<open>What a scan does not touch\<close>

type_synonym core = "((mtt_state \<times> (ptr \<Rightarrow> mtt_entry) \<times> memory) \<times> ((nat \<Rightarrow> per_thread) \<times>
    (int \<Rightarrow> nat option) \<times> (int \<Rightarrow> int)) \<times> (fnptr \<times> fnptr \<times> fnptr \<times> fnptr \<times> fnptr \<times> bool \<times> bool)) \<times>
    ((ptr \<times> (ptr \<times> leak_site) option list) option \<times> nat \<times> (ptr \<times> (ptr \<times> ptr) list) option)"

definition dash_of :: "reporter \<Rightarrow> (ptr \<times> (ptr \<times> leak_site) option list) option \<times> nat \<times> (ptr \<times> (ptr \<times> ptr) list) option" where
  "dash_of r = (r_cached_sites r, r_cached_site_count r, r_cached_pairs r)"

text \<open>The tracing state, and what the dashboard is served from.\<close>

definition core_of :: "'l world \<Rightarrow> core" where
  "core_of w = (((g_state w, g_entries w, g_mem w), (g_threads w, g_tls_ctx w, g_tls_cached_tid w),
     (raw_malloc w, raw_free w, raw_calloc w, raw_realloc w, raw_posix_memalign w, g_raw_resolved w, g_raw_ready w)),
     dash_of (g_reporter w))"

named_theorems core_simps "steps that leave the tracing state alone"

lemma core_of_upd [core_simps]:
  "core_of (w\<lparr>g_ext := l\<rparr>) = core_of w" "core_of (w\<lparr>g_hung := b\<rparr>) = core_of w"
  "core_of (w\<lparr>g_stack_heap := h\<rparr>) = core_of w" "core_of (w\<lparr>g_stack_cache := c\<rparr>) = core_of w"
  "core_of (w\<lparr>g_addr_cache := ac\<rparr>) = core_of w" "core_of (w\<lparr>g_non_pie_cached := n\<rparr>) = core_of w"
  "core_of (w\<lparr>g_exe_path := s\<rparr>) = core_of w" "core_of (w\<lparr>g_bootstrap_offset := off\<rparr>) = core_of w"
  by (simp_all add: core_of_def)

lemma core_call_malloc [core_simps]: "core_of (snd (call_malloc X n w)) = core_of w"
  by (simp add: call_malloc_def bootstrap_malloc_def Let_def case_prod_beta core_simps split: fnptr.splits)

lemma core_main_is_non_pie [core_simps]: "core_of (snd (main_is_non_pie X w)) = core_of w"
  by (simp add: main_is_non_pie_def Let_def core_simps split: option.splits)

lemma core_is_main_exe_path [core_simps]: "core_of (snd (is_main_exe_path X f w)) = core_of w"
  by (simp add: is_main_exe_path_def core_simps split: option.splits)

lemma core_locate_frame [core_simps]: "core_of (snd (locate_frame X a w)) = core_of w"
  by (simp add: locate_frame_def frame_addr2line_addr_def Let_def case_prod_beta core_simps
      split: option.splits prod.splits)

lemma core_resolve_one_frame [core_simps]: "core_of (snd (resolve_one_frame X a n w)) = core_of w"
  by (simp add: resolve_one_frame_def addr_cache_insert_def Let_def case_prod_beta core_simps split: option.splits)

lemma resolve_into_alt:
  "resolve_into X e i w =
     (let r = resolve_one_frame X (k_frames (g_stack_heap w e) ! i) MTT_SYMBOL_MAX w; u = snd r
      in case fst r of
           None \<Rightarrow> u
         | Some s \<Rightarrow> u\<lparr>g_stack_heap := (g_stack_heap u)(e := (g_stack_heap u e)
             \<lparr>k_resolved := (k_resolved (g_stack_heap u e))[i := s]\<rparr>)\<rparr>)"
  by (simp add: resolve_into_def Let_def split: prod.splits option.splits)

lemma core_resolve_into [core_simps]: "core_of (resolve_into X e i w) = core_of w"
  by (simp add: resolve_into_alt Let_def core_simps split: option.splits)

lemma core_fold:
  assumes "\<And>x u. core_of (f x u) = core_of u"
  shows "core_of (fold f xs w) = core_of w"
  using assms by (induction xs arbitrary: w) simp_all

lemma core_stack_resolve [core_simps]: "core_of (mtt_stack_resolve X e w) = core_of w"
  by (simp add: mtt_stack_resolve_def Let_def core_simps core_fold)

lemma core_stack_lookup [core_simps]: "core_of (snd (mtt_stack_cache_lookup X fs n w)) = core_of w"
  using core_call_malloc [of X sizeof_stack_entry]
  by (simp add: mtt_stack_cache_lookup_def sc_lock_set_def Let_def case_prod_beta core_simps split: option.splits)

lemma core_scan_hash [core_simps]: "core_of (snd (scan_hash X sn w)) = core_of w"
  by (simp add: scan_hash_def Let_def case_prod_beta core_simps)

lemma core_dedup_snap [core_simps]: "core_of (snd (dedup_snap X now sn tw)) = core_of (snd tw)"
  by (simp add: dedup_snap_def Let_def case_prod_beta core_simps)

lemma core_trace: "core_of w' = core_of w \<Longrightarrow> fst (core_of w') = fst (core_of w)"
  by simp

lemma trace_parts:
  assumes "fst (core_of w') = fst (core_of w)"
  shows "g_state w' = g_state w" "g_entries w' = g_entries w" "g_mem w' = g_mem w" "g_threads w' = g_threads w"
    "raw_malloc w' = raw_malloc w" "raw_free w' = raw_free w"
  using assms by (simp_all add: core_of_def)

lemmas core_parts = trace_parts [OF core_trace]

section \<open>The key of a record\<close>

definition snap_hash :: "alloc_snap \<Rightarrow> u64" where
  "snap_hash sn =
     (if sn_stack_frames sn > 0 then mtt_stack_hash_compute (sn_stack sn) (sn_stack_frames sn)
      else sn_size sn * 0x9E3779B97F4A7C15)"

lemma resolve_into_hash: "k_hash (g_stack_heap (resolve_into X e i w) a) = k_hash (g_stack_heap w a)"
  by (simp add: resolve_into_alt Let_def split: option.splits)

lemma stack_resolve_hash: "k_hash (g_stack_heap (mtt_stack_resolve X e w) a) = k_hash (g_stack_heap w a)"
proof -
  have "k_hash (g_stack_heap (fold (resolve_into X e) is w) b) = k_hash (g_stack_heap w b)" for "is" b
    by (induction "is" arbitrary: w) (simp_all add: resolve_into_hash)
  then show ?thesis by (simp add: mtt_stack_resolve_def Let_def)
qed

lemma stack_lookup_hash:
  assumes "0 < n" "mtt_stack_cache_lookup X fs n w = (e, w')" "e \<noteq> NULL"
  shows "k_hash (g_stack_heap w' e) = mtt_stack_hash_compute fs n"
proof -
  let ?h = "mtt_stack_hash_compute fs n"
  show ?thesis
  proof (cases "find (\<lambda>a. stack_match ?h fs n (g_stack_heap w a)) (sc_entries (g_stack_cache w) (stack_bucket ?h))")
    case (Some a)
    then have "stack_match ?h fs n (g_stack_heap w a)" by (auto simp: find_Some_iff)
    then show ?thesis
      using assms Some by (auto simp: mtt_stack_cache_lookup_def sc_lock_set_def Let_def stack_match_def)
  next
    case None
    then show ?thesis
      using assms
      by (auto simp: mtt_stack_cache_lookup_def sc_lock_set_def Let_def case_prod_beta new_stack_entry_def
          split: if_splits)
  qed
qed

lemma scan_hash_value: "fst (scan_hash X sn w) = snap_hash sn"
proof (cases "sn_stack_frames sn > 0")
  case True
  obtain e u where e: "mtt_stack_cache_lookup X (sn_stack sn) (sn_stack_frames sn) w = (e, u)" by fastforce
  show ?thesis
    using stack_lookup_hash [OF True e] True by (simp add: scan_hash_def e snap_hash_def Let_def stack_resolve_hash)
qed (simp add: scan_hash_def snap_hash_def)


section \<open>The table of sites\<close>

abbreviation node_hash :: "ptr \<times> leak_site \<Rightarrow> u64" where
  "node_hash x \<equiv> l_stack_hash (snd x)"

definition site_at :: "leak_table \<Rightarrow> u64 \<Rightarrow> leak_site option" where
  "site_at t h = map_option snd (find (\<lambda>x. node_hash x = h) (lt_entries t (leak_bucket h)))"

definition leak_table_ok :: "leak_table \<Rightarrow> bool" where
  "leak_table_ok t \<longleftrightarrow>
     (\<forall>b. distinct (map node_hash (lt_entries t b)) \<and> (\<forall>x \<in> set (lt_entries t b). leak_bucket (node_hash x) = b)) \<and>
     (\<Sum>b<MTT_LEAK_DEDUP_SIZE. length (lt_entries t b)) = unat (lt_count t)"

definition table_bytes :: "leak_table \<Rightarrow> size_t" where
  "table_bytes t = sum_list (map (l_total_size \<circ> snd) (all_sites t))"

lemma leak_bucket_less: "leak_bucket h < MTT_LEAK_DEDUP_SIZE"
proof -
  have "unat (h AND 2047) \<le> unat (2047 :: u64)"
    using word_and_le1 [of h 2047] by (simp add: word_le_nat_alt)
  then show ?thesis by (simp add: leak_bucket_def MTT_LEAK_DEDUP_SIZE_def)
qed

lemma sum_list_concat_upt:
  "sum_list (map f (concat (map g [0..<n]))) = (\<Sum>b<n. sum_list (map f (g b)) :: 'a :: comm_monoid_add)"
  by (induction n) (simp_all add: add.commute)

lemma table_bytes_sum: "table_bytes t = (\<Sum>b<MTT_LEAK_DEDUP_SIZE. sum_list (map (l_total_size \<circ> snd) (lt_entries t b)))"
  by (simp add: table_bytes_def all_sites_def sum_list_concat_upt)

text \<open>One bucket changes.\<close>

lemma sum_bucket_upd:
  fixes f :: "'a list \<Rightarrow> 'b :: comm_monoid_add" and e :: "nat \<Rightarrow> 'a list"
  assumes "f xs = f (e k) + d" "k < n"
  shows "(\<Sum>b<n. f ((e(k := xs)) b)) = (\<Sum>b<n. f (e b)) + d"
proof -
  have "(\<Sum>b<n. f ((e(k := xs)) b)) = (\<Sum>b<n. f (e b) + (if b = k then d else 0))"
    by (rule sum.cong) (simp_all add: assms(1))
  also have "\<dots> = (\<Sum>b<n. f (e b)) + (\<Sum>b<n. if b = k then d else 0)" by (rule sum.distrib)
  also have "(\<Sum>b<n. if b = k then d else 0) = d" using assms(2) by (simp add: sum.delta)
  finally show ?thesis .
qed

lemma find_update_site:
  assumes "\<And>s. l_stack_hash (f s) = l_stack_hash s"
  shows "find (\<lambda>x. node_hash x = h') (update_site h f xs) =
    (if h' = h then map_option (\<lambda>x. (fst x, f (snd x))) (find (\<lambda>x. node_hash x = h) xs)
     else find (\<lambda>x. node_hash x = h') xs)"
proof (induction xs)
  case (Cons x xs)
  then show ?case using assms by (cases x) auto
qed simp

lemma update_site_hashes:
  assumes "\<And>s. l_stack_hash (f s) = l_stack_hash s"
  shows "map node_hash (update_site h f xs) = map node_hash xs"
proof (induction xs)
  case (Cons x xs)
  then show ?case using assms by (cases x) auto
qed simp

lemma update_site_bytes:
  assumes "\<And>s. l_total_size (f s) = l_total_size s + d"
  shows "list_ex (\<lambda>(a, site). l_stack_hash site = h) xs \<Longrightarrow>
    sum_list (map (l_total_size \<circ> snd) (update_site h f xs)) = sum_list (map (l_total_size \<circ> snd) xs) + d"
proof (induction xs)
  case (Cons x xs)
  then show ?case using assms by (cases x) (auto simp: algebra_simps)
qed simp

lemma hit_site_simps [simp]:
  "l_stack_hash (hit_site now thr sn s) = l_stack_hash s"
  "l_total_size (hit_site now thr sn s) = l_total_size s + sn_size sn"
  "l_count (hit_site now thr sn s) = l_count s + 1"
  "l_per_leak_size (hit_site now thr sn s) = l_per_leak_size s"
  "l_is_expired (hit_site now thr sn s) = (l_is_expired s \<or> snap_expired now thr sn)"
  "l_last_seen (hit_site now thr sn s) = max (l_last_seen s) (sn_timestamp sn)"
  "l_first_seen s \<noteq> 0 \<Longrightarrow> l_first_seen (hit_site now thr sn s) = l_first_seen s"
  by (simp_all add: hit_site_def Let_def max_def)

lemma new_site_simps [simp]:
  "l_stack_hash (new_site now thr h sn) = h" "l_total_size (new_site now thr h sn) = sn_size sn"
  "l_count (new_site now thr h sn) = 1" "l_per_leak_size (new_site now thr h sn) = sn_size sn"
  "l_is_expired (new_site now thr h sn) = snap_expired now thr sn"
  "l_last_seen (new_site now thr h sn) = sn_timestamp sn"
  by (simp_all add: new_site_def)

lemma list_ex_site_at:
  "list_ex (\<lambda>(a, site). l_stack_hash site = h) (lt_entries t (leak_bucket h)) \<longleftrightarrow> site_at t h \<noteq> None"
  by (auto simp: site_at_def list_ex_iff find_None_iff)

lemma leak_table_bucket: "leak_table_ok t \<Longrightarrow> x \<in> set (lt_entries t b) \<Longrightarrow> leak_bucket (node_hash x) = b"
  by (simp add: leak_table_ok_def)

lemma table_hit:
  assumes ok: "leak_table_ok t" and s: "site_at t h = Some site"
    and t': "t' = t\<lparr>lt_entries := (lt_entries t)(leak_bucket h := update_site h (hit_site now thr sn) (lt_entries t (leak_bucket h)))\<rparr>"
  shows "leak_table_ok t'" "site_at t' = (site_at t)(h := Some (hit_site now thr sn site))"
    "table_bytes t' = table_bytes t + sn_size sn" "lt_count t' = lt_count t"
proof -
  let ?xs = "lt_entries t (leak_bucket h)" and ?f = "hit_site now thr sn"
  note ex = list_ex_site_at [of h t, unfolded s, simplified]
  have hs: "map node_hash (update_site h ?f ?xs) = map node_hash ?xs" by (rule update_site_hashes) simp
  have bk: "leak_bucket (node_hash x) = leak_bucket h" if "x \<in> set (update_site h ?f ?xs)" for x
  proof -
    have "node_hash x \<in> set (map node_hash (update_site h ?f ?xs))" using that by simp
    then obtain y where "y \<in> set ?xs" "node_hash x = node_hash y" unfolding hs by auto
    then show ?thesis using leak_table_bucket [OF ok, of y] by simp
  qed
  have len: "length (update_site h ?f ?xs) = length ?xs + 0" using arg_cong [OF hs, of length] by simp
  show "leak_table_ok t'"
    using ok bk hs sum_bucket_upd [where f = length and e = "lt_entries t" and k = "leak_bucket h", OF len leak_bucket_less]
    by (simp add: leak_table_ok_def t')
  show "site_at t' = (site_at t)(h := Some (hit_site now thr sn site))"
    using s by (auto simp: fun_eq_iff site_at_def t' find_update_site)
  have "sum_list (map (l_total_size \<circ> snd) (update_site h ?f ?xs)) =
      sum_list (map (l_total_size \<circ> snd) ?xs) + sn_size sn"
    by (rule update_site_bytes [OF _ ex]) simp
  from sum_bucket_upd [where f = "\<lambda>xs. sum_list (map (l_total_size \<circ> snd) xs)" and e = "lt_entries t" and k = "leak_bucket h", OF this leak_bucket_less]
  show "table_bytes t' = table_bytes t + sn_size sn" by (simp add: table_bytes_sum t')
  show "lt_count t' = lt_count t" by (simp add: t')
qed


lemma table_new:
  assumes ok: "leak_table_ok t" and s: "site_at t h = None" and room: "lt_count t < of_nat MTT_LEAK_DEDUP_SIZE"
    and t': "t' = t\<lparr>lt_entries := (lt_entries t)(leak_bucket h := (a, new_site now thr h sn) # lt_entries t (leak_bucket h)),
                     lt_count := lt_count t + 1\<rparr>"
  shows "leak_table_ok t'" "site_at t' = (site_at t)(h := Some (new_site now thr h sn))"
    "table_bytes t' = table_bytes t + sn_size sn" "unat (lt_count t') = Suc (unat (lt_count t))"
proof -
  let ?xs = "lt_entries t (leak_bucket h)" and ?x = "(a, new_site now thr h sn)"
  have "find (\<lambda>x. node_hash x = h) ?xs = None" using s by (simp add: site_at_def)
  then have no: "h \<notin> node_hash ` set ?xs" unfolding find_None_iff by blast
  have "unat (lt_count t) < 2048"
    using room by (simp add: word_less_nat_alt MTT_LEAK_DEDUP_SIZE_def)
  then show c: "unat (lt_count t') = Suc (unat (lt_count t))"
    by (simp add: t' unat_word_ariths)
  have len: "length (?x # ?xs) = length ?xs + 1" by simp
  show "leak_table_ok t'"
    using ok no c sum_bucket_upd [where f = length and e = "lt_entries t" and k = "leak_bucket h", OF len leak_bucket_less]
    by (simp add: leak_table_ok_def t')
  show "site_at t' = (site_at t)(h := Some (new_site now thr h sn))"
    using s by (auto simp: fun_eq_iff site_at_def t')
  have "sum_list (map (l_total_size \<circ> snd) (?x # ?xs)) = sum_list (map (l_total_size \<circ> snd) ?xs) + sn_size sn"
    by (simp add: add.commute)
  from sum_bucket_upd [where f = "\<lambda>xs. sum_list (map (l_total_size \<circ> snd) xs)" and e = "lt_entries t" and k = "leak_bucket h", OF this leak_bucket_less]
  show "table_bytes t' = table_bytes t + sn_size sn" by (simp add: table_bytes_sum t')
qed

section \<open>Grouping\<close>

text \<open>The site of a group: made from its first record, updated with the others.\<close>

fun site_of :: "int \<Rightarrow> int \<Rightarrow> u64 \<Rightarrow> alloc_snap list \<Rightarrow> leak_site option" where
  "site_of now thr h [] = None"
| "site_of now thr h (sn # sns) = Some (fold (hit_site now thr) sns (new_site now thr h sn))"

lemma site_of_snoc:
  "site_of now thr h (sns @ [sn]) =
     Some (case site_of now thr h sns of None \<Rightarrow> new_site now thr h sn | Some s \<Rightarrow> hit_site now thr sn s)"
  by (cases sns) simp_all

lemma site_of_None: "site_of now thr h sns = None \<longleftrightarrow> sns = []"
  by (cases sns) simp_all

lemma fold_hit_site:
  "l_count (fold (hit_site now thr) sns s) = l_count s + of_nat (length sns)"
  "l_total_size (fold (hit_site now thr) sns s) = l_total_size s + sum_list (map sn_size sns)"
  "l_is_expired (fold (hit_site now thr) sns s) = (l_is_expired s \<or> (\<exists>sn \<in> set sns. snap_expired now thr sn))"
  "l_per_leak_size (fold (hit_site now thr) sns s) = l_per_leak_size s"
  by (induction sns arbitrary: s) (auto simp: algebra_simps)

lemma site_of_group:
  assumes "site_of now thr h sns = Some site"
  shows "l_count site = of_nat (length sns)" "l_total_size site = sum_list (map sn_size sns)"
    "l_is_expired site \<longleftrightarrow> (\<exists>sn \<in> set sns. snap_expired now thr sn)" "l_per_leak_size site = sn_size (hd sns)"
    "sns \<noteq> []"
  using assms by (cases sns; auto simp: fold_hit_site algebra_simps)+

abbreviation group :: "u64 \<Rightarrow> alloc_snap list \<Rightarrow> alloc_snap list" where
  "group h sns \<equiv> filter (\<lambda>sn. snap_hash sn = h) sns"

text \<open>What holds after a prefix of the records.\<close>

definition grouped :: "int \<Rightarrow> int \<Rightarrow> alloc_snap list \<Rightarrow> leak_table \<Rightarrow> bool" where
  "grouped now thr sns t \<longleftrightarrow>
     leak_table_ok t \<and> (\<forall>h. site_at t h = site_of now thr h (group h sns)) \<and>
     table_bytes t = sum_list (map sn_size sns) \<and> unat (lt_count t) = card (snap_hash ` set sns)"

lemma grouped_empty: "grouped now thr [] empty_leak_table"
  by (simp add: grouped_def empty_leak_table_def leak_table_ok_def site_at_def table_bytes_sum)

lemma dedup_step:
  assumes g: "grouped now thr sns t" and thr: "thr = s_leak_threshold_sec (g_state w)"
    and raw: "raw_malloc w = F_LIBC" and mem: "\<And>l. fst (x_malloc X l sizeof_leak_site) \<noteq> NULL"
    and room: "card (snap_hash ` set (sns @ [sn])) \<le> MTT_LEAK_DEDUP_SIZE"
  shows "grouped now thr (sns @ [sn]) (fst (dedup_snap X now sn (t, w)))"
proof -
  obtain u where u: "scan_hash X sn w = (snap_hash sn, u)"
    using scan_hash_value [of X sn w] by (metis prod.collapse)
  let ?h = "snap_hash sn" and ?t = "fst (dedup_snap X now sn (t, w))"
  have ok: "leak_table_ok t" and at: "\<And>h. site_at t h = site_of now thr h (group h sns)"
    and bt: "table_bytes t = sum_list (map sn_size sns)" and co: "unat (lt_count t) = card (snap_hash ` set sns)"
    using g by (auto simp: grouped_def)
  have raw_u: "raw_malloc u = F_LIBC" using core_parts(5) [of u w] core_scan_hash [of X sn w] u raw by simp
  have new: "site_at t ?h = None \<longleftrightarrow> ?h \<notin> snap_hash ` set sns"
    by (simp add: at site_of_None filter_empty_conv image_iff) metis
  have step: "leak_table_ok ?t \<and> table_bytes ?t = table_bytes t + sn_size sn \<and>
      unat (lt_count ?t) = (if site_at t ?h = None then Suc (unat (lt_count t)) else unat (lt_count t)) \<and>
      site_at ?t = (site_at t)(?h := Some (case site_at t ?h of None \<Rightarrow> new_site now thr ?h sn
                                                              | Some s \<Rightarrow> hit_site now thr sn s))"
  proof (cases "site_at t ?h")
    case (Some s)
    then show ?thesis
      using table_hit [OF ok Some refl, of now thr sn] list_ex_site_at [of ?h t]
      by (simp add: dedup_snap_def u Let_def thr)
  next
    case None
    then have "card (snap_hash ` set (sns @ [sn])) = Suc (unat (lt_count t))" using new co by simp
    then have r: "lt_count t < of_nat MTT_LEAK_DEDUP_SIZE"
      using room by (simp add: word_less_nat_alt MTT_LEAK_DEDUP_SIZE_def)
    obtain a l where a: "x_malloc X (g_ext u) sizeof_leak_site = (a, l)" "a \<noteq> NULL"
      using mem [of "g_ext u"] by (metis prod.collapse)
    show ?thesis
      using table_new [OF ok None r refl, of a now thr sn] list_ex_site_at [of ?h t] None r a
      by (simp add: dedup_snap_def u Let_def thr call_malloc_def raw_u)
  qed
  have "site_at ?t h = site_of now thr h (group h (sns @ [sn]))" for h
    using step at by (auto simp: site_of_snoc split: option.splits)
  moreover have "unat (lt_count ?t) = card (snap_hash ` set (sns @ [sn]))"
    using step new co by (auto simp: card_insert_if split: if_splits)
  ultimately show ?thesis using step bt by (simp add: grouped_def)
qed


lemma dedup_grouped:
  assumes "thr = s_leak_threshold_sec (g_state w)" "raw_malloc w = F_LIBC"
    and "\<And>l. fst (x_malloc X l sizeof_leak_site) \<noteq> NULL"
    and "card (snap_hash ` set snaps) \<le> MTT_LEAK_DEDUP_SIZE"
  shows "grouped now thr snaps (fst (dedup_all X now snaps w)) \<and> core_of (snd (dedup_all X now snaps w)) = core_of w"
  using assms(4)
proof (induction snaps rule: rev_induct)
  case Nil
  then show ?case by (simp add: dedup_all_def grouped_empty)
next
  case (snoc sn sns)
  let ?r = "dedup_all X now sns w"
  have "card (snap_hash ` set sns) \<le> card (snap_hash ` set (sns @ [sn]))" by (rule card_mono) auto
  then have ih: "grouped now thr sns (fst ?r)" "core_of (snd ?r) = core_of w" using snoc by simp_all
  have "dedup_all X now (sns @ [sn]) w = dedup_snap X now sn ?r" by (simp add: dedup_all_def)
  moreover have "grouped now thr (sns @ [sn]) (fst (dedup_snap X now sn (fst ?r, snd ?r)))"
    using ih assms(1,2) core_parts [OF ih(2)] by (intro dedup_step assms(3) snoc.prems) simp_all
  ultimately show ?case using ih(2) core_dedup_snap [of X now sn ?r] by simp
qed

text \<open>C12. The leak sites are the groups of the snapshot. Where \<open>malloc\<close> grants the nodes and there
  are at most 2048 different keys, then for every key there is a site exactly when a copied record
  has that key; its count is the number of those records, its total the sum of their sizes, its
  unit size the size of the first, and it is marked expired exactly when one of them is older than
  the threshold. There are as many sites as keys, the bytes of all sites are the bytes of the
  snapshot, and the tracing state is as before.
\<close>

theorem leak_sites_exact:
  assumes "raw_malloc w = F_LIBC" "\<And>l. fst (x_malloc X l sizeof_leak_site) \<noteq> NULL"
    and "card (snap_hash ` set snaps) \<le> MTT_LEAK_DEDUP_SIZE"
    and "dedup_all X now snaps w = (t, w')"
  shows "(\<forall>h. case site_at t h of
           None \<Rightarrow> group h snaps = []
         | Some site \<Rightarrow> group h snaps \<noteq> [] \<and> l_count site = of_nat (length (group h snaps)) \<and>
             l_total_size site = sum_list (map sn_size (group h snaps)) \<and>
             l_per_leak_size site = sn_size (hd (group h snaps)) \<and>
             (l_is_expired site \<longleftrightarrow>
                (\<exists>sn \<in> set (group h snaps). snap_expired now (s_leak_threshold_sec (g_state w)) sn))) \<and>
    unat (lt_count t) = card (snap_hash ` set snaps) \<and>
    s_leak_bytes_total (g_state (store_leak_total t w')) = sum_list (map sn_size snaps) \<and> core_of w' = core_of w"
proof -
  let ?thr = "s_leak_threshold_sec (g_state w)"
  have g: "grouped now ?thr snaps t" and c: "core_of w' = core_of w"
    using dedup_grouped [OF refl assms(1-3), of now] assms(4) by simp_all
  have "case site_at t h of
           None \<Rightarrow> group h snaps = []
         | Some site \<Rightarrow> group h snaps \<noteq> [] \<and> l_count site = of_nat (length (group h snaps)) \<and>
             l_total_size site = sum_list (map sn_size (group h snaps)) \<and>
             l_per_leak_size site = sn_size (hd (group h snaps)) \<and>
             (l_is_expired site \<longleftrightarrow> (\<exists>sn \<in> set (group h snaps). snap_expired now ?thr sn))" for h
  proof (cases "site_at t h")
    case None
    then show ?thesis using g by (simp add: grouped_def site_of_None)
  next
    case (Some site)
    then have "site_of now ?thr h (group h snaps) = Some site" using g by (simp add: grouped_def)
    from site_of_group [OF this] show ?thesis using Some by simp
  qed
  then show ?thesis using g c by (simp add: grouped_def store_leak_total_def table_bytes_def)
qed


text \<open>An allocator that always succeeds, and three records without a stack, two of the same size.\<close>

definition roomy_ext :: "ptr ext" where
  "roomy_ext = demo_ext\<lparr>x_malloc := (\<lambda>l n. (l OR 16, l + align16 n))\<rparr>"

lemma roomy_malloc: "fst (x_malloc roomy_ext l n) \<noteq> NULL"
proof
  assume "fst (x_malloc roomy_ext l n) = NULL"
  then have "bit (l OR 16) 4 = bit (0 :: u64) 4" by (simp add: roomy_ext_def)
  then show False by (simp add: bit_or_iff)
qed

definition plain_snap :: "ptr \<Rightarrow> size_t \<Rightarrow> int \<Rightarrow> alloc_snap" where
  "plain_snap p n t = \<lparr>sn_ptr = p, sn_size = n, sn_timestamp = t, sn_stack = replicate MTT_STACK_DEPTH NULL,
     sn_stack_frames = 0\<rparr>"

definition three_snaps :: "alloc_snap list" where
  "three_snaps = [plain_snap 0x100 24 10, plain_snap 0x200 100 990, plain_snap 0x300 24 995]"

theorem leak_sites_exact_witness:
  "\<exists>t w'. dedup_all roomy_ext 1000 three_snaps (demo_world\<lparr>raw_malloc := F_LIBC\<rparr>) = (t, w') \<and>
     unat (lt_count t) = 2 \<and> s_leak_bytes_total (g_state (store_leak_total t w')) = 148 \<and>
     map_option l_count (site_at t (24 * 0x9E3779B97F4A7C15)) = Some 2"
proof -
  let ?w = "demo_world\<lparr>raw_malloc := F_LIBC\<rparr>"
  obtain t w' where d: "dedup_all roomy_ext 1000 three_snaps ?w = (t, w')" by fastforce
  have hs: "snap_hash ` set three_snaps = {24 * 0x9E3779B97F4A7C15, 100 * 0x9E3779B97F4A7C15}"
    by (auto simp: three_snaps_def plain_snap_def snap_hash_def)
  have c: "card (snap_hash ` set three_snaps) = 2" unfolding hs by simp
  have g: "group (24 * 0x9E3779B97F4A7C15) three_snaps = [plain_snap 0x100 24 10, plain_snap 0x300 24 995]"
    by (simp add: three_snaps_def plain_snap_def snap_hash_def)
  have "raw_malloc ?w = F_LIBC" by simp
  note r = leak_sites_exact [OF this roomy_malloc _ d]
  have "unat (lt_count t) = 2" "s_leak_bytes_total (g_state (store_leak_total t w')) = 148"
    using r c by (simp_all add: MTT_LEAK_DEDUP_SIZE_def) (simp add: three_snaps_def plain_snap_def)
  moreover have "map_option l_count (site_at t (24 * 0x9E3779B97F4A7C15)) = Some 2"
    using conjunct1 [OF r, THEN spec, of "24 * 0x9E3779B97F4A7C15"] c g
    by (simp add: MTT_LEAK_DEDUP_SIZE_def split: option.splits)
  ultimately show ?thesis using d by blast
qed

section \<open>The order of the report\<close>

text \<open>What \<open>qsort\<close> asks of its comparison: of two elements one may come first, and the order is transitive.\<close>

locale comparison =
  fixes cmp :: "'a \<Rightarrow> 'a \<Rightarrow> int"
  assumes cmp_total: "0 < cmp a b \<Longrightarrow> cmp b a \<le> 0"
    and cmp_trans: "cmp a b \<le> 0 \<Longrightarrow> cmp b c \<le> 0 \<Longrightarrow> cmp a c \<le> 0"
begin

lemma insert_set: "set (qsort_insert cmp x ys) = insert x (set ys)"
  by (induction ys) auto

lemma insert_sorted: "sorted_wrt (\<lambda>a b. cmp a b \<le> 0) ys \<Longrightarrow> sorted_wrt (\<lambda>a b. cmp a b \<le> 0) (qsort_insert cmp x ys)"
proof (induction ys)
  case (Cons y ys)
  show ?case
  proof (cases "cmp x y \<le> 0")
    case True
    then have "cmp x z \<le> 0" if "z \<in> set ys" for z using Cons.prems that cmp_trans by auto
    then show ?thesis using True Cons.prems by simp
  next
    case False
    then have "cmp y x \<le> 0" using cmp_total [of x y] by simp
    then show ?thesis using False Cons by (simp add: insert_set)
  qed
qed simp

lemma qsort_sorted: "sorted_wrt (\<lambda>a b. cmp a b \<le> 0) (qsort cmp xs)"
  by (induction xs) (simp_all add: qsort_def insert_sorted)

end

lemma mset_qsort_insert: "mset (qsort_insert cmp x ys) = add_mset x (mset ys)"
  by (induction ys) auto

lemma mset_qsort: "mset (qsort cmp xs) = mset xs"
  by (induction xs) (simp_all add: qsort_def mset_qsort_insert)

interpretation by_count: comparison "\<lambda>a b. cmp_leak_by_count (snd a) (snd b)"
  by unfold_locales (auto simp: cmp_leak_by_count_def split: if_splits)

lemma length_concat_upt: "length (concat (map g [0..<n])) = (\<Sum>b<n. length (g b))"
  by (induction n) simp_all

lemma all_sites_length: "leak_table_ok t \<Longrightarrow> length (all_sites t) = unat (lt_count t)"
  by (simp add: all_sites_def leak_table_ok_def length_concat_upt)

lemma cmp_leak_le:
  "cmp_leak_by_count sa sb \<le> 0 \<longleftrightarrow>
     l_count sb < l_count sa \<or> l_count sb = l_count sa \<and> l_total_size sb \<le> l_total_size sa"
  by (auto simp: cmp_leak_by_count_def)

text \<open>C34. The report lists every site once, the most frequent first. When the array can be allocated
  for a well-formed table, it holds exactly the sites of the table; a site never follows one with a
  smaller count, nor one with the same count and a smaller total.
\<close>

theorem report_order:
  assumes "leak_table_ok t" "lt_count t \<noteq> 0" "sort_sites X t w = (Some (block, sites), n, w')"
  shows "mset sites = mset (all_sites t) \<and> n = length sites \<and>
    (\<forall>i j. i < j \<and> j < length sites \<longrightarrow>
       l_count (snd (sites ! j)) < l_count (snd (sites ! i)) \<or>
       l_count (snd (sites ! j)) = l_count (snd (sites ! i)) \<and>
       l_total_size (snd (sites ! j)) \<le> l_total_size (snd (sites ! i)))"
proof -
  have s: "sites = qsort (\<lambda>a b. cmp_leak_by_count (snd a) (snd b)) (all_sites t)" "n = length (all_sites t)"
    using assms all_sites_length [OF assms(1)]
    by (auto simp: sort_sites_def word_gt_0 Let_def split: prod.splits if_splits)
  have m: "mset sites = mset (all_sites t)" by (simp add: s(1) mset_qsort)
  moreover have "cmp_leak_by_count (snd (sites ! i)) (snd (sites ! j)) \<le> 0" if "i < j" "j < length sites" for i j
    using by_count.qsort_sorted [of "all_sites t"] that by (simp add: s(1) sorted_wrt_iff_nth_less)
  moreover have "n = length sites" using m s(2) by (metis size_mset)
  ultimately show ?thesis unfolding cmp_leak_le by blast
qed


text \<open>A table with two sites of the same bucket.\<close>

definition two_sites :: leak_table where
  "two_sites =
     \<lparr>lt_entries = (\<lambda>_. [])(leak_bucket 5 := [(0x40, new_site 1000 0 5 (plain_snap 0x100 24 10)),
                                            (0x80, hit_site 1000 0 (plain_snap 0x200 8 10) (new_site 1000 0 (5 + 2048) (plain_snap 0x300 8 10)))]),
      lt_count = 2\<rparr>"

lemma two_sites_ok: "leak_table_ok two_sites"
proof -
  have b: "leak_bucket (5 + 2048) = leak_bucket 5" "leak_bucket 5 = 5"
    by (simp_all add: leak_bucket_def MTT_LEAK_DEDUP_SIZE_def)
  have "(\<Sum>b<MTT_LEAK_DEDUP_SIZE. length (lt_entries two_sites b)) = (\<Sum>b<MTT_LEAK_DEDUP_SIZE. if b = 5 then 2 else 0)"
    by (rule sum.cong) (simp_all add: two_sites_def b)
  also have "\<dots> = 2" by (simp add: MTT_LEAK_DEDUP_SIZE_def)
  finally show ?thesis using b by (simp add: leak_table_ok_def two_sites_def)
qed

theorem report_order_witness:
  "\<exists>block sites n w'. sort_sites roomy_ext two_sites (demo_world\<lparr>raw_malloc := F_LIBC\<rparr>) = (Some (block, sites), n, w') \<and>
     n = 2 \<and> mset sites = mset (all_sites two_sites) \<and>
     (l_count (snd (sites ! 1)) < l_count (snd (sites ! 0)) \<or>
      l_count (snd (sites ! 1)) = l_count (snd (sites ! 0)) \<and> l_total_size (snd (sites ! 1)) \<le> l_total_size (snd (sites ! 0)))"
proof -
  let ?w = "demo_world\<lparr>raw_malloc := F_LIBC\<rparr>"
  have c: "lt_count two_sites = 2" by (simp add: two_sites_def)
  obtain block sites n w' where s: "sort_sites roomy_ext two_sites ?w = (Some (block, sites), n, w')"
    using roomy_malloc by (simp add: sort_sites_def c call_malloc_def case_prod_beta Let_def)
  note r = report_order [OF two_sites_ok _ s]
  have "mset sites = mset (all_sites two_sites)" using r c by simp
  then have "length sites = length (all_sites two_sites)" by (metis size_mset)
  also have "\<dots> = 2" using all_sites_length [OF two_sites_ok] c by simp
  finally have "length sites = 2" .
  then show ?thesis using s r c by (intro exI [of _ block] exI [of _ sites] exI [of _ n] exI [of _ w']) auto
qed

end
