(* ===== verification/Report_Text.thy ===== *)
theory Report_Text
  imports Leak_Scan Services "HOL-Library.Signed_Division"
begin

text \<open>
  The texts that \<^verbatim>\<open>reporter.c\<close> and \<^verbatim>\<open>flamegraph.c\<close> write: sizes, times and durations, the
  filter of the tracer's own frames, the header and the sites of a report, the collapsed stacks, the
  JSON file and the heartbeat line. \<open>%.2f\<close> is computed on the exact quotient, which is what the code
  prints for sizes below \<open>2 ^ 53\<close>; the two numbers of a frequency are the parameter \<open>x_freq_text\<close>.
\<close>

section \<open>Formats\<close>

definition fmt_bytes :: "size_t \<Rightarrow> nat \<Rightarrow> string" where
  "fmt_bytes bytes buf_size =
     (if buf_size = 0 then []
      else copy_trunc buf_size
        (if bytes \<ge> 1048576 then fixed2 (unat bytes) 1048576 @ '' MB''
         else if bytes \<ge> 1024 then fixed2 (unat bytes) 1024 @ '' KB''
         else dec_string (unat bytes) @ '' B''))"

definition fmt_time :: "'l ext \<Rightarrow> int \<Rightarrow> nat \<Rightarrow> string" where
  "fmt_time X t buf_size =
     (if buf_size = 0 then []
      else case x_localtime X t of Some s \<Rightarrow> s | None \<Rightarrow> copy_trunc buf_size (int_string t))"

text \<open>Division and remainder of C, which truncate.\<close>

definition fmt_duration :: "int \<Rightarrow> nat \<Rightarrow> string" where
  "fmt_duration seconds buf_size =
     (if buf_size = 0 then []
      else copy_trunc buf_size
        (padded_int 2 (seconds sdiv 3600) @ '':'' @ padded_int 2 ((seconds smod 3600) sdiv 60) @ '':'' @
         padded_int 2 (seconds smod 60)))"

text \<open>The frequency of a site over the seconds between its first and its last record.\<close>

definition fmt_frequency :: "'l ext \<Rightarrow> size_t \<Rightarrow> int \<Rightarrow> nat \<Rightarrow> string" where
  "fmt_frequency X leaks elapsed_sec buf_size =
     (if buf_size = 0 then []
      else copy_trunc buf_size
        (if elapsed_sec > 0 \<and> leaks > 0 then x_freq_text X (unat leaks) (nat elapsed_sec)
         else ''N/A (first scan)''))"

section \<open>Frames of the tracer\<close>

definition own_frame :: "string \<Rightarrow> bool" where
  "own_frame symbol \<longleftrightarrow>
     symbol = [] \<or> strstr symbol ''libmemorytracetool'' \<noteq> None \<or> strstr symbol ''mtt_'' = Some 0 \<or>
     strstr symbol ''capture_stack'' \<noteq> None \<or> strstr symbol ''backtrace'' \<noteq> None"

definition blacklisted_frame :: "mtt_state \<Rightarrow> string \<Rightarrow> bool" where
  "blacklisted_frame s symbol \<longleftrightarrow>
     s_lib_blacklist_ready s \<and> s_lib_blacklist s \<noteq> [] \<and>
     list_ex (\<lambda>tok. dropWhile is_blank tok \<noteq> [] \<and> strstr symbol (dropWhile is_blank tok) \<noteq> None)
       (strtok_all (take 511 (s_lib_blacklist s)) (CHR '',''))"

definition is_internal_frame :: "mtt_state \<Rightarrow> string \<Rightarrow> bool" where
  "is_internal_frame s symbol \<longleftrightarrow>
     own_frame symbol \<or> (strstr symbol ''__libc_start'' = None \<and> blacklisted_frame s symbol)"

text \<open>The texts of the frames of an entry.\<close>

definition frame_texts :: "stack_entry \<Rightarrow> string list" where
  "frame_texts e = take (nat (k_frame_count e)) (k_resolved e)"

section \<open>The report\<close>

text \<open>\<open>%-2d\<close>, and the lines of a stack with the marker on the first one.\<close>

definition left_int2 :: "nat \<Rightarrow> string" where
  "left_int2 n = (let s = dec_string n in s @ replicate (2 - length s) (CHR '' ''))"

fun frame_lines :: "nat \<Rightarrow> string list \<Rightarrow> string" where
  "frame_lines i [] = []"
| "frame_lines i (t # ts) =
     ''  #'' @ left_int2 i @ '' '' @ t @ (if i = 0 then ''  <-- LEAK HERE'' else []) @ [newline] @ frame_lines (Suc i) ts"

text \<open>
  The two times of the header are formatted into one buffer, so both are the one that is
  evaluated last.
\<close>

definition header_time :: "'l ext \<Rightarrow> int \<Rightarrow> int \<Rightarrow> string" where
  "header_time X session_start now = fmt_time X (if x_args_rtl X then session_start else now) 32"

definition report_header :: "'l ext \<Rightarrow> int \<Rightarrow> string \<Rightarrow> int \<Rightarrow> int \<Rightarrow> nat \<Rightarrow> nat \<Rightarrow> mtt_state \<Rightarrow> string" where
  "report_header X pid proc_name session_start now snap_count site_count s =
     ''=== MemoryTraceTool Leak Report ==='' @ [newline] @
     ''PID: '' @ int_string pid @ ''  Process: '' @ proc_name @ [newline] @
     ''Session:  '' @ header_time X session_start now @ ''  Duration: '' @ fmt_duration (now - session_start) 32 @ [newline] @
     ''Scanned:  '' @ header_time X session_start now @ ''  |  Active allocs: '' @ dec_string snap_count @
     ''  |  Unique leaks: '' @ dec_string site_count @ [newline] @
     ''Total unfreed: '' @ fmt_bytes (s_current_bytes s) 32 @ ''  |  Peak: '' @ fmt_bytes (s_peak_bytes s) 32 @ [newline] @
     ''Allocations: '' @ dec_string (unat (s_alloc_count s)) @ ''  |  Frees: '' @ dec_string (unat (s_free_count s)) @ [newline] @
     ''Temp allocs (<1s): '' @ dec_string (unat (s_temp_alloc_count s)) @ ''  |  Expired: '' @
     dec_string (unat (s_expired_alloc_count s)) @ ''  |  Late-free: '' @ dec_string (unat (s_free_expired_count s)) @ [newline] @
     ''Skipped (sample): '' @ dec_string (unat (s_skipped_sampled s)) @ ''  |  Skipped (overflow): '' @
     dec_string (unat (s_skipped_overcap s)) @ [newline, newline]"

definition report_site :: "'l ext \<Rightarrow> 'l world \<Rightarrow> nat \<Rightarrow> leak_site \<Rightarrow> ptr \<Rightarrow> string" where
  "report_site X w i site se =
     (if l_count site = 0 then []
      else
        ''--- Leak #'' @ dec_string (i + 1) @ '' ---'' @ [newline] @
        ''Count:        '' @ dec_string (unat (l_count site)) @ [newline] @
        ''Per-leak:     '' @ fmt_bytes (l_per_leak_size site) 32 @ [newline] @
        ''Total:        '' @ fmt_bytes (l_total_size site) 32 @ [newline] @
        (if l_diff_size site > 0
         then ''Growth:       +'' @ fmt_bytes (l_diff_size site) 32 @ '' (since last scan)'' @ [newline] else []) @
        ''Confidence:   '' @ (if l_is_expired site then ''probable leak'' else ''possible leak'') @ [newline] @
        ''Frequency:    '' @ fmt_frequency X (l_count site) (l_last_seen site - l_first_seen site) 64 @ [newline] @
        ''First seen:   '' @ fmt_time X (l_first_seen site) 32 @ [newline] @
        ''Last seen:    '' @ fmt_time X (l_last_seen site) 32 @ [newline] @
        [newline] @ ''Stack trace (top = malloc call site):'' @ [newline] @
        (if se \<noteq> NULL \<and> k_is_resolved (g_stack_heap w se)
         then frame_lines 0 (filter (\<lambda>t. \<not> is_internal_frame (g_state w) t) (frame_texts (g_stack_heap w se)))
         else ''  (symbols not resolved)'' @ [newline]) @ [newline])"

fun report_sites :: "'l ext \<Rightarrow> 'l world \<Rightarrow> nat \<Rightarrow> leak_site list \<Rightarrow> ptr list \<Rightarrow> string" where
  "report_sites X w i (site # sites) (se # ses) = report_site X w i site se @ report_sites X w (Suc i) sites ses"
| "report_sites X w i _ _ = []"

text \<open>The whole text; the pairs of sites and entries are missing where they could not be allocated.\<close>

definition report_text ::
  "'l ext \<Rightarrow> int \<Rightarrow> nat \<Rightarrow> nat \<Rightarrow> (leak_site list \<times> ptr list) option \<Rightarrow> 'l world \<Rightarrow> string" where
  "report_text X now snap_count site_count pairs w =
     (let rep = g_reporter w;
          session_start = (if r_session_start rep \<noteq> 0 then r_session_start rep else now)
      in report_header X (x_getpid X (g_ext w)) (report_proc_name (g_state w)) session_start now snap_count site_count (g_state w) @
         (case pairs of
            Some (sites, ses) \<Rightarrow> report_sites X w 0 sites ses
          | None \<Rightarrow>
              if snap_count > 0
              then ''(No leak sites '' @ map char_of [0xE2, 0x80, 0x94 :: nat] @
                   '' all allocations freed or dedup table full)'' @ [newline, newline]
              else ''(No active allocations '' @ map char_of [0xE2, 0x80, 0x94 :: nat] @
                   '' no leaks detected)'' @ [newline, newline]) @
         ''=== End of Report ==='' @ [newline])"

section \<open>Collapsed stacks (flamegraph.c)\<close>

text \<open>A symbol without its library, and the line of a stack from its outermost frame to its innermost.\<close>

definition folded_frame :: "string \<Rightarrow> string" where
  "folded_frame symbol =
     (case strchr symbol (CHR ''('') of
        Some i \<Rightarrow> if i > 0 then rev (dropWhile (\<lambda>c. c = CHR '' '') (rev (take i symbol))) else symbol
      | None \<Rightarrow> symbol)"

fun join :: "char \<Rightarrow> string list \<Rightarrow> string" where
  "join c [] = []"
| "join c [t] = t"
| "join c (t # ts) = t @ [c] @ join c ts"

definition folded_line :: "'l world \<Rightarrow> leak_site \<Rightarrow> ptr \<Rightarrow> string" where
  "folded_line w site se =
     (if l_count site = 0 \<or> se = NULL \<or> \<not> k_is_resolved (g_stack_heap w se) then []
      else
        let frames = take MTT_STACK_DEPTH (filter (\<lambda>t. \<not> own_frame t) (frame_texts (g_stack_heap w se)));
            frames = map (\<lambda>t. copy_trunc MTT_SYMBOL_MAX (folded_frame t)) frames
        in if frames = [] then []
           else join (CHR '';'') (rev frames) @ '' '' @ dec_string (unat (l_total_size site)) @ [newline])"

definition mtt_flamegraph_write ::
  "'l ext \<Rightarrow> string \<Rightarrow> string \<Rightarrow> leak_site list option \<Rightarrow> ptr list option \<Rightarrow> 'l world \<Rightarrow> 'l world" where
  "mtt_flamegraph_write X log_dir proc_name sites pairs w =
     (case (sites, pairs) of
        (Some ss, Some ses) \<Rightarrow>
          if ss = [] then w
          else
            let fg_path = copy_trunc 512 (log_dir @ ''/'' @ int_string (x_getpid X (g_ext w)) @ ''_'' @ proc_name @ ''.folded'')
            in if \<not> x_fopen X (g_ext w) fg_path then w
               else w\<lparr>g_files := (g_files w)(fg_path := Some (concat (map2 (folded_line w) ss ses)))\<rparr>
      | _ \<Rightarrow> w)"

section \<open>JSON report and heartbeat\<close>

definition json_site :: "leak_site \<Rightarrow> string" where
  "json_site site =
     ''{\"count\":'' @ dec_string (unat (l_count site)) @ '',\"size\":'' @ dec_string (unat (l_total_size site)) @
     '',\"hash\":\"'' @ hex_string (unat (l_stack_hash site)) @ ''\"}''"

definition json_report :: "int \<Rightarrow> int \<Rightarrow> leak_site list \<Rightarrow> string" where
  "json_report pid now sites =
     ''{\"pid\":'' @ int_string pid @ '',\"ts\":'' @ int_string now @ '',\"leaks\":['' @
     join (CHR '','') (map json_site sites) @ '']}'' @ [newline]"

definition pool_mode_code :: "pool_mode \<Rightarrow> int" where
  "pool_mode_code m = (case m of POOL_NONE \<Rightarrow> 0 | POOL_ACTIVE \<Rightarrow> 1 | POOL_FALLBACK \<Rightarrow> 2)"

definition rss_bytes :: "'l ext \<Rightarrow> 'l world \<Rightarrow> size_t" where
  "rss_bytes X w =
     (case x_rss_pages X (g_ext w) of
        Some pages \<Rightarrow> if pages > 0 then word_of_int pages * x_page_size X else 0
      | None \<Rightarrow> 0)"

text \<open>
  The line of the heartbeat, as \<open>snprintf\<close> formats it. The code passes the formatted length to \<open>write\<close>
  together with a buffer of 256 bytes, so the text below is what is written as long as it is shorter than that.
\<close>

definition heartbeat_line :: "'l ext \<Rightarrow> 'l world \<Rightarrow> string" where
  "heartbeat_line X w =
     (let s = g_state w;
          allocs = s_alloc_count s; frees = s_free_count s;
          leaks_n = (if allocs > frees then allocs - frees else 0);
          pct = (if s_pool_capacity s > 0 then sint (ucast (s_pool_used s * 100 div s_pool_capacity s) :: 32 word) else 0)
      in ''ts='' @ int_string (g_time w) @ '' rss='' @ dec_string (unat (rss_bytes X w div 1024)) @ ''kB pool='' @
         dec_string (unat (s_pool_used s)) @ ''/'' @ dec_string (unat (s_pool_capacity s)) @ ''('' @ int_string pct @
         ''%,mode='' @ int_string (pool_mode_code (s_pool_mode s)) @ '') entries='' @ dec_string (unat (s_entry_count s)) @
         '' cur_bytes='' @ dec_string (unat (s_current_bytes s div 1024)) @ ''kB leaks='' @ dec_string (unat leaks_n) @
         '' siteuniq='' @ dec_string (r_cached_site_count (g_reporter w)) @ '' skipped='' @
         dec_string (unat (s_skipped_overcap s)) @ ''/'' @ dec_string (unat (s_skipped_sampled s)) @ [newline])"

end
