(* ===== verification/Report.thy ===== *)
theory Report
  imports Leak_Sites Report_Text
begin

text \<open>
  A whole scan of \<^verbatim>\<open>reporter.c\<close>: the copy of the sample points for the dashboard, the data stages
  of \<open>Leak_Scan\<close>, the report files, the growth table for the next scan, the copies of the sites for
  the dashboard, the release of everything the scan allocated; and the threads that scan: the
  reporter with its heartbeat, the signal thread, the handler at exit. The files are the map
  \<open>g_files\<close>; what standard I/O allocates for itself is left out, as are messages and waiting times.
\<close>

section \<open>Locks and blocks\<close>

abbreviation upd_reporter :: "(reporter \<Rightarrow> reporter) \<Rightarrow> 'l world \<Rightarrow> 'l world" where
  "upd_reporter f w \<equiv> g_reporter_update f w"

definition cache_lock :: "'l world \<Rightarrow> 'l world" where
  "cache_lock w = upd_reporter (\<lambda>r. r\<lparr>r_cache_lock := True\<rparr>) (w\<lparr>g_hung := (g_hung w \<or> r_cache_lock (g_reporter w))\<rparr>)"

definition cache_unlock :: "'l world \<Rightarrow> 'l world" where
  "cache_unlock w = upd_reporter (\<lambda>r. r\<lparr>r_cache_lock := False\<rparr>) w"

definition scan_lock :: "'l world \<Rightarrow> 'l world" where
  "scan_lock w = upd_reporter (\<lambda>r. r\<lparr>r_scan_mutex := True\<rparr>) (w\<lparr>g_hung := (g_hung w \<or> r_scan_mutex (g_reporter w))\<rparr>)"

definition scan_unlock :: "'l world \<Rightarrow> 'l world" where
  "scan_unlock w = upd_reporter (\<lambda>r. r\<lparr>r_scan_mutex := False\<rparr>) w"

text \<open>A block is released when it is not NULL and \<open>raw_free\<close> is set.\<close>

definition free_block :: "'l ext \<Rightarrow> ptr \<Rightarrow> 'l world \<Rightarrow> 'l world" where
  "free_block X p w = (if p \<noteq> NULL \<and> raw_free w \<noteq> F_NULL then call_free X p w else w)"

definition block_of :: "(ptr \<times> 'a) option \<Rightarrow> ptr" where
  "block_of b = (case b of None \<Rightarrow> NULL | Some (p, _) \<Rightarrow> p)"

section \<open>Sample points for the dashboard\<close>

definition sizeof_ts_point :: size_t where "sizeof_ts_point = 72"

text \<open>The new copy, if there are points and it can be allocated, replaces the old one.\<close>

definition copy_points :: "'l ext \<Rightarrow> bool \<Rightarrow> ts_point list \<Rightarrow> 'l world \<Rightarrow> 'l world" where
  "copy_points X locking pts w =
     (let (new_data, w) = call_malloc X (of_nat (length pts) * sizeof_ts_point) w
      in if new_data = NULL then w
         else
           let w = (if locking then cache_lock w else w);
               w = free_block X (block_of (r_cached_ts (g_reporter w))) w;
               w = upd_reporter (\<lambda>r. r\<lparr>r_cached_ts := Some (new_data, pts)\<rparr>) w
           in if locking then cache_unlock w else w)"

definition refresh_ts_cache :: "'l ext \<Rightarrow> bool \<Rightarrow> 'l world \<Rightarrow> 'l world" where
  "refresh_ts_cache X locking w =
     (if mtt_ts_is_ready w \<and> raw_malloc w \<noteq> F_NULL then
        let (ts_buf, w) = call_malloc X (360 * sizeof_ts_point) w
        in if ts_buf = NULL then w
           else
             let (rc, pts, w) = mtt_ts_get_range 0 360 w;
                 w = (if rc = 0 \<and> pts \<noteq> [] then copy_points X locking pts w else w)
             in call_free X ts_buf w
      else w)"

section \<open>Report files\<close>

definition write_file :: "string \<Rightarrow> string \<Rightarrow> 'l world \<Rightarrow> 'l world" where
  "write_file path_name txt w = w\<lparr>g_files := (g_files w)(path_name := Some txt)\<rparr>"

definition rename_file :: "'l ext \<Rightarrow> string \<Rightarrow> string \<Rightarrow> 'l world \<Rightarrow> bool \<times> 'l world" where
  "rename_file X from_path to_path w =
     (if x_rename X (g_ext w) from_path to_path
      then (True, w\<lparr>g_files := (g_files w)(to_path := g_files w from_path, from_path := None)\<rparr>)
      else (False, w))"

text \<open>The JSON file; its path is read from the environment once. Without the sorted array the sites are read through NULL.\<close>

definition write_json :: "'l ext \<Rightarrow> int \<Rightarrow> leak_site list option \<Rightarrow> nat \<Rightarrow> 'l world \<Rightarrow> 'l world" where
  "write_json X now sites site_count w =
     (let w = (if g_json_checked w then w
               else w\<lparr>g_json_path := x_getenv X ''MTT_REPORT_FILE'', g_json_checked := True\<rparr>)
      in case g_json_path w of
           None \<Rightarrow> w
         | Some json_path \<Rightarrow>
             if json_path = [] then w
             else
               let json_tmp = copy_trunc 512 (json_path @ ''.tmp'')
               in if \<not> x_fopen X (g_ext w) json_tmp then w
                  else
                    case sites of
                      None \<Rightarrow>
                        if site_count > 0 then w\<lparr>g_hung := True\<rparr>
                        else snd (rename_file X json_tmp json_path
                               (write_file json_tmp (json_report (x_getpid X (g_ext w)) now []) w))
                    | Some ss \<Rightarrow>
                        snd (rename_file X json_tmp json_path
                               (write_file json_tmp (json_report (x_getpid X (g_ext w)) now ss) w)))"

text \<open>
  The stage: the text report under a temporary name, renamed or deleted, the collapsed stacks and
  the JSON file. The flag is off when the temporary file could not be opened; the scan then ends.
\<close>

definition write_reports ::
  "'l ext \<Rightarrow> int \<Rightarrow> nat \<Rightarrow> nat \<Rightarrow> leak_site list option \<Rightarrow> ptr list option \<Rightarrow> 'l world \<Rightarrow> bool \<times> 'l world" where
  "write_reports X now snap_count site_count sites entries w =
     (let log_dir = ensure_log_dir X 256 w;
          proc_name = report_proc_name (g_state w);
          pid = x_getpid X (g_ext w);
          log_path = report_path log_dir pid proc_name ''.log'';
          tmp_path = report_path log_dir pid proc_name ''.log.tmp'';
          w = upd_reporter (\<lambda>r. r\<lparr>r_log_path := log_path, r_tmp_path := tmp_path\<rparr>) w
      in if \<not> x_fopen X (g_ext w) tmp_path then (False, w)
         else
           let pairs = (case (sites, entries) of (Some ss, Some es) \<Rightarrow> Some (ss, es) | _ \<Rightarrow> None);
               w = write_file tmp_path (report_text X now snap_count site_count pairs w) w;
               (renamed, w) = rename_file X tmp_path log_path w;
               w = (if renamed then w else w\<lparr>g_files := (g_files w)(tmp_path := None)\<rparr>);
               w = mtt_flamegraph_write X log_dir proc_name sites entries w
           in (True, write_json X now sites site_count w))"

section \<open>Results kept for later\<close>

text \<open>The hashes and totals of this scan, for the growth shown by the next one.\<close>

definition save_diff :: "'l ext \<Rightarrow> int \<Rightarrow> leak_site list option \<Rightarrow> 'l world \<Rightarrow> 'l world" where
  "save_diff X now sites w =
     (let w = free_block X (r_prev_hashes (g_reporter w)) w;
          w = free_block X (r_prev_sizes (g_reporter w)) w;
          w = upd_reporter (\<lambda>r. r\<lparr>r_prev_hashes := NULL, r_prev_sizes := NULL, r_prev_diff := []\<rparr>) w;
          w = (case sites of
                 None \<Rightarrow> w
               | Some ss \<Rightarrow>
                   if ss = [] \<or> raw_malloc w = F_NULL then w
                   else
                     let (hs, w) = call_malloc X (of_nat (length ss) * 8) w;
                         (ns, w) = call_malloc X (of_nat (length ss) * 8) w
                     in upd_reporter (\<lambda>r. r\<lparr>r_prev_hashes := hs, r_prev_sizes := ns,
                          r_prev_diff := (if hs \<noteq> NULL \<and> ns \<noteq> NULL
                                          then map (\<lambda>s. (l_stack_hash s, l_total_size s)) ss else [])\<rparr>) w)
      in upd_reporter (\<lambda>r. r\<lparr>r_prev_scan_time := now\<rparr>) w)"

definition free_copy :: "'l ext \<Rightarrow> (ptr \<times> leak_site) option \<Rightarrow> 'l world \<Rightarrow> 'l world" where
  "free_copy X c w = (case c of None \<Rightarrow> w | Some (p, _) \<Rightarrow> call_free X p w)"

definition free_cached_sites :: "'l ext \<Rightarrow> 'l world \<Rightarrow> 'l world" where
  "free_cached_sites X w =
     (case r_cached_sites (g_reporter w) of
        None \<Rightarrow> w
      | Some (block, copies) \<Rightarrow>
          if raw_free w = F_NULL then w
          else
            let w = fold (free_copy X) (take (r_cached_site_count (g_reporter w)) copies) w
            in upd_reporter (\<lambda>r. r\<lparr>r_cached_sites := None\<rparr>) (call_free X block w))"

definition free_cached_pairs :: "'l ext \<Rightarrow> 'l world \<Rightarrow> 'l world" where
  "free_cached_pairs X w =
     (case r_cached_pairs (g_reporter w) of
        None \<Rightarrow> w
      | Some (block, _) \<Rightarrow>
          if raw_free w = F_NULL then w
          else upd_reporter (\<lambda>r. r\<lparr>r_cached_pairs := None\<rparr>) (call_free X block w))"

fun copy_sites :: "'l ext \<Rightarrow> leak_site list \<Rightarrow> 'l world \<Rightarrow> (ptr \<times> leak_site) option list \<times> 'l world" where
  "copy_sites X [] w = ([], w)"
| "copy_sites X (s # ss) w =
     (let (p, w) = call_malloc X sizeof_leak_site w;
          (rest, w) = copy_sites X ss w
      in ((if p \<noteq> NULL then Some (p, s) else None) # rest, w))"

definition cache_sites :: "'l ext \<Rightarrow> leak_site list option \<Rightarrow> 'l world \<Rightarrow> 'l world" where
  "cache_sites X sites w =
     (case sites of
        None \<Rightarrow> upd_reporter (\<lambda>r. r\<lparr>r_cached_site_count := 0\<rparr>) w
      | Some ss \<Rightarrow>
          if ss = [] then upd_reporter (\<lambda>r. r\<lparr>r_cached_site_count := 0\<rparr>) w
          else
            let (block, w) = call_malloc X (of_nat (length ss) * 8) w
            in if block = NULL then upd_reporter (\<lambda>r. r\<lparr>r_cached_sites := None\<rparr>) w
               else
                 let (copies, w) = copy_sites X ss w
                 in upd_reporter (\<lambda>r. r\<lparr>r_cached_sites := Some (block, copies), r_cached_site_count := length ss\<rparr>) w)"

text \<open>The pairs are copied and, where the sites were copied, redirected to the copies.\<close>

definition site_ptr :: "(ptr \<times> leak_site) option \<Rightarrow> ptr" where
  "site_ptr c = (case c of None \<Rightarrow> NULL | Some (p, _) \<Rightarrow> p)"

definition cache_pairs :: "'l ext \<Rightarrow> (ptr \<times> ptr) list option \<Rightarrow> 'l world \<Rightarrow> 'l world" where
  "cache_pairs X pairs w =
     (case pairs of
        None \<Rightarrow> w
      | Some ps \<Rightarrow>
          if ps = [] then w
          else
            let (block, w) = call_malloc X (of_nat (length ps) * 16) w
            in if block = NULL then upd_reporter (\<lambda>r. r\<lparr>r_cached_pairs := None\<rparr>) w
               else
                 let ps = (case r_cached_sites (g_reporter w) of
                             None \<Rightarrow> ps
                           | Some (_, copies) \<Rightarrow> map2 (\<lambda>c (_, se). (site_ptr c, se)) copies ps)
                 in upd_reporter (\<lambda>r. r\<lparr>r_cached_pairs := Some (block, ps)\<rparr>) w)"

definition update_http_cache :: "'l ext \<Rightarrow> leak_site list option \<Rightarrow> (ptr \<times> ptr) list option \<Rightarrow> 'l world \<Rightarrow> 'l world" where
  "update_http_cache X sites pairs w =
     (let w = cache_lock w;
          w = free_cached_sites X w;
          w = free_cached_pairs X w;
          w = cache_sites X sites w;
          w = cache_pairs X pairs w;
          w = refresh_ts_cache X False w
      in cache_unlock w)"


section \<open>A scan\<close>

definition scan_cleanup ::
  "'l ext \<Rightarrow> ptr \<Rightarrow> (ptr \<times> 'a) option \<Rightarrow> (ptr \<times> 'b) option \<Rightarrow> leak_table \<Rightarrow> 'l world \<Rightarrow> 'l world" where
  "scan_cleanup X snaps ordered pairs t w =
     (let w = free_block X snaps w;
          w = free_block X (block_of ordered) w;
          w = free_block X (block_of pairs) w
      in fold (\<lambda>(a, _). free_block X a) (all_sites t) w)"

definition scan_and_report_locked :: "'l ext \<Rightarrow> 'l world \<Rightarrow> 'l world" where
  "scan_and_report_locked X w =
     (if \<not> s_initialized (g_state w) then w
      else
        let now = g_time w;
            w = mtt_addr_validate_refresh X w;
            w = refresh_ts_cache X True w;
            (snapshot, w) = scan_snapshot X w
        in case snapshot of
             None \<Rightarrow> w
           | Some (block, snaps) \<Rightarrow>
               let (t, w) = dedup_all X now snaps w;
                   w = store_leak_total t w;
                   w = resolve_sites X snaps t w;
                   (ordered, site_count, w) = sort_sites X t w;
                   ordered = map_option (map_prod id (map (set_diff (r_prev_diff (g_reporter w))))) ordered;
                   w = store_expired ordered w;
                   (pairs, w) = collect_pairs X snaps ordered w;
                   sites = map_option (map snd \<circ> snd) ordered;
                   (opened, w) = write_reports X now (length snaps) site_count sites (map_option (map snd \<circ> snd) pairs) w;
                   w = (if opened then update_http_cache X sites (map_option snd pairs) (save_diff X now sites w) else w)
               in scan_cleanup X block ordered pairs t w)"

definition scan_and_report :: "'l ext \<Rightarrow> 'l world \<Rightarrow> 'l world" where
  "scan_and_report X w = scan_unlock (scan_and_report_locked X (scan_lock w))"

definition mtt_reporter_signal_scan :: "'l ext \<Rightarrow> 'l world \<Rightarrow> 'l world" where
  "mtt_reporter_signal_scan X w =
     (if \<not> r_running (g_reporter w) then w
      else scan_unlock (scan_and_report_locked X (scan_lock w)))"

section \<open>Threads\<close>

definition mtt_heartbeat_write :: "'l ext \<Rightarrow> 'l world \<Rightarrow> 'l world" where
  "mtt_heartbeat_write X w =
     (let file = ''/var/log/mtt/'' @ int_string (x_getpid X (g_ext w)) @ ''_heartbeat.log''
      in if length file \<ge> 256 \<or> \<not> x_fopen X (g_ext w) file then w
         else write_file file (heartbeat_line X w) w)"

text \<open>
  What the other threads do while this one sleeps for a second is a function on the world, one for
  each sleep. \<open>reporter_sleep\<close> is the loop of at most \<open>k\<close> such seconds; its flag says that the list
  ended and the thread is still asleep.
\<close>

fun reporter_sleep ::
  "'l ext \<Rightarrow> nat \<Rightarrow> ('l world \<Rightarrow> 'l world) list \<Rightarrow> 'l world \<Rightarrow> bool \<times> ('l world \<Rightarrow> 'l world) list \<times> 'l world" where
  "reporter_sleep X 0 envs w = (False, envs, w)"
| "reporter_sleep X (Suc k) envs w =
     (if \<not> r_running (g_reporter w) then (False, envs, w)
      else
        case envs of
          [] \<Rightarrow> (True, [], w)
        | env # envs \<Rightarrow>
            let w = mtt_ts_record_point X (env w);
                peak = s_peak_updated (g_state w);
                w = upd_state (\<lambda>s. s\<lparr>s_peak_updated := False\<rparr>) w
            in if peak then (False, envs, w) else reporter_sleep X k envs w)"

lemma reporter_sleep_shorter:
  "length (fst (snd (reporter_sleep X k envs w))) \<le> length envs"
  "r_running (g_reporter w) \<Longrightarrow> 0 < k \<Longrightarrow> \<not> fst (reporter_sleep X k envs w) \<Longrightarrow>
     length (fst (snd (reporter_sleep X k envs w))) < length envs"
proof -
  show le: "length (fst (snd (reporter_sleep X k envs w))) \<le> length envs" for k envs w
    by (induction X k envs w rule: reporter_sleep.induct) (auto simp: Let_def le_SucI split: list.splits)
  show "r_running (g_reporter w) \<Longrightarrow> 0 < k \<Longrightarrow> \<not> fst (reporter_sleep X k envs w) \<Longrightarrow>
     length (fst (snd (reporter_sleep X k envs w))) < length envs"
    using le by (cases k; cases envs) (auto simp: Let_def less_Suc_eq_le)
qed

text \<open>The loop of the thread, up to its last scan; the flag says that it has ended.\<close>

function reporter_loop :: "'l ext \<Rightarrow> ('l world \<Rightarrow> 'l world) list \<Rightarrow> 'l world \<Rightarrow> bool \<times> 'l world" where
  "reporter_loop X envs w =
     (if r_running (g_reporter w) then
        let (asleep, envs, w) = reporter_sleep X MTT_REPORT_INTERVAL_SEC envs w
        in if asleep then (False, w)
           else reporter_loop X envs
                  (if r_running (g_reporter w) then mtt_heartbeat_write X (scan_and_report X w) else w)
      else (True, scan_and_report X w))"
  by pat_completeness auto

lemma reporter_sleep_less:
  "r_running (g_reporter w) \<Longrightarrow> (asleep, es, u) = reporter_sleep X MTT_REPORT_INTERVAL_SEC envs w \<Longrightarrow> \<not> asleep \<Longrightarrow>
     length es < length envs"
  using reporter_sleep_shorter(2) [of w MTT_REPORT_INTERVAL_SEC X envs]
  by (cases "reporter_sleep X MTT_REPORT_INTERVAL_SEC envs w") (auto simp: MTT_REPORT_INTERVAL_SEC_def)

termination reporter_loop
  by (relation "measure (\<lambda>(X, envs, w). length envs)") (auto dest: reporter_sleep_less)

declare reporter_loop.simps [simp del]

text \<open>The thread marks its slot as the tracer's own, sleeps a second, scans, and loops.\<close>

definition reporter_thread_fn ::
  "'l ext \<Rightarrow> int \<Rightarrow> ('l world \<Rightarrow> 'l world) \<Rightarrow> ('l world \<Rightarrow> 'l world) list \<Rightarrow> 'l world \<Rightarrow> bool \<times> 'l world" where
  "reporter_thread_fn X tid env envs w =
     (let (ctx, w) = mtt_thread_get X tid w;
          w = (case ctx of None \<Rightarrow> w | Some i \<Rightarrow> upd_slot i (\<lambda>t. t\<lparr>t_tool_internal := 1\<rparr>) w);
          saved_hook = (case ctx of None \<Rightarrow> 0 | Some i \<Rightarrow> t_in_hook (g_threads w i));
          w = (case ctx of None \<Rightarrow> w | Some i \<Rightarrow> upd_slot i (\<lambda>t. t\<lparr>t_in_hook := 1\<rparr>) w);
          w = mtt_ts_record_point X (env w);
          (ended, w) = reporter_loop X envs (scan_and_report X w)
      in (ended, case ctx of
                   Some i \<Rightarrow> if ended then upd_slot i (\<lambda>t. t\<lparr>t_in_hook := saved_hook\<rparr>) w else w
                 | None \<Rightarrow> w))"

text \<open>The signal thread: each round waits a second or until a signal arrives.\<close>

fun signal_loop :: "'l ext \<Rightarrow> (('l world \<Rightarrow> 'l world) \<times> bool) list \<Rightarrow> 'l world \<Rightarrow> bool \<times> 'l world" where
  "signal_loop X [] w = (\<not> g_signal_thread_running w, w)"
| "signal_loop X ((env, signalled) # rounds) w =
     (if g_signal_thread_running w then
        let w = env w
        in signal_loop X rounds (if signalled then mtt_reporter_signal_scan X (mtt_ts_record_point X w) else w)
      else (True, w))"

definition mtt_signal_thread_fn ::
  "'l ext \<Rightarrow> int \<Rightarrow> (('l world \<Rightarrow> 'l world) \<times> bool) list \<Rightarrow> 'l world \<Rightarrow> bool \<times> 'l world" where
  "mtt_signal_thread_fn X tid rounds w =
     (let (ctx, w) = mtt_thread_get X tid w
      in signal_loop X rounds
           (case ctx of None \<Rightarrow> w | Some i \<Rightarrow> upd_slot i (\<lambda>t. t\<lparr>t_tool_internal := 1\<rparr>) w))"

text \<open>At exit: the threads are told to stop, and after two seconds the reporter's memory is released.\<close>

definition release_reporter :: "'l ext \<Rightarrow> 'l world \<Rightarrow> 'l world" where
  "release_reporter X w =
     (let w = cache_lock w;
          w = free_cached_sites X w;
          w = free_cached_pairs X w;
          w = free_block X (block_of (r_cached_ts (g_reporter w))) w;
          w = cache_unlock (upd_reporter (\<lambda>r. r\<lparr>r_cached_ts := None, r_cached_site_count := 0\<rparr>) w);
          w = free_block X (r_prev_hashes (g_reporter w)) w;
          w = free_block X (r_prev_sizes (g_reporter w)) w
      in upd_reporter (\<lambda>r. r\<lparr>r_prev_hashes := NULL, r_prev_sizes := NULL, r_prev_diff := []\<rparr>) w)"

definition mtt_atexit_handler :: "'l ext \<Rightarrow> ('l world \<Rightarrow> 'l world) \<Rightarrow> 'l world \<Rightarrow> 'l world" where
  "mtt_atexit_handler X env w =
     (if g_atexit_done w then w
      else
        let w = env (atexit_stop w)
        in if raw_free w \<noteq> F_NULL then release_reporter X w else w)"

end
