(* ===== verification/Scan_Effect.thy ===== *)
theory Scan_Effect
  imports Report Tracking
begin

text \<open>
  The effect of a scan as a whole: of the tracing state it changes the two results it stores and
  nothing else, and the leak total it stores is the current usage; the dashboard's copies agree with
  their count, and each has its pair.
\<close>

section \<open>What a scan changes in the tracing state\<close>

lemma core_of_upd_report [core_simps]:
  "core_of (w\<lparr>g_files := fs\<rparr>) = core_of w"
  "(\<And>r. dash_of (h r) = dash_of r) \<Longrightarrow> core_of (upd_reporter h w) = core_of w"
  "fst (core_of (upd_reporter h w)) = fst (core_of w)"
  "core_of (w\<lparr>g_json_path := jp\<rparr>) = core_of w" "core_of (w\<lparr>g_json_checked := b\<rparr>) = core_of w"
  "core_of (w\<lparr>g_exec_ranges := er\<rparr>) = core_of w" "core_of (w\<lparr>g_exec_once := b\<rparr>) = core_of w"
  "core_of (w\<lparr>g_time_series := ts\<rparr>) = core_of w"
  by (simp_all add: core_of_def)

lemma dash_of_upd [core_simps]:
  "dash_of (r\<lparr>r_cache_lock := b\<rparr>) = dash_of r" "dash_of (r\<lparr>r_scan_mutex := b\<rparr>) = dash_of r"
  "dash_of (r\<lparr>r_cached_ts := ts\<rparr>) = dash_of r" "dash_of (r\<lparr>r_log_path := f, r_tmp_path := g\<rparr>) = dash_of r"
  "dash_of (r\<lparr>r_prev_hashes := p, r_prev_sizes := q, r_prev_diff := d\<rparr>) = dash_of r"
  "dash_of (r\<lparr>r_prev_scan_time := t\<rparr>) = dash_of r"
  by (simp_all add: dash_of_def)

lemma core_state: "core_of (upd_state f w) = apfst (apfst (apfst f)) (core_of w)"
  by (simp add: core_of_def)

lemma core_call_free [core_simps]: "core_of (call_free X p w) = core_of w"
  by (simp add: call_free_def bootstrap_free_def core_simps split: fnptr.splits)

lemma core_free_block [core_simps]: "core_of (free_block X p w) = core_of w"
  by (simp add: free_block_def core_simps)

lemma core_locks [core_simps]:
  "core_of (cache_lock w) = core_of w" "core_of (cache_unlock w) = core_of w"
  "core_of (scan_lock w) = core_of w" "core_of (scan_unlock w) = core_of w"
  by (simp_all add: cache_lock_def cache_unlock_def scan_lock_def scan_unlock_def core_simps)

lemma core_get_range [core_simps]: "core_of (snd (snd (mtt_ts_get_range i n w))) = core_of w"
  by (simp add: mtt_ts_get_range_def Let_def core_simps)

lemma core_copy_points [core_simps]: "core_of (copy_points X b pts w) = core_of w"
  by (simp add: copy_points_def Let_def case_prod_beta core_simps)

lemma core_refresh_ts [core_simps]: "core_of (refresh_ts_cache X b w) = core_of w"
  by (simp add: refresh_ts_cache_def Let_def case_prod_beta core_simps)

lemma core_validate_refresh [core_simps]: "core_of (mtt_addr_validate_refresh X w) = core_of w"
  by (simp add: mtt_addr_validate_refresh_def parse_maps_locked_def Let_def core_simps split: option.splits)

lemma core_files [core_simps]:
  "core_of (write_file f txt w) = core_of w" "core_of (snd (rename_file X f g w)) = core_of w"
  "core_of (mtt_flamegraph_write X d nm ss ps w) = core_of w" "core_of (write_json X now ss n w) = core_of w"
  by (simp_all add: write_file_def rename_file_def mtt_flamegraph_write_def write_json_def Let_def core_simps
      split: option.splits)

lemma core_write_reports [core_simps]: "core_of (snd (write_reports X now k n ss es w)) = core_of w"
  by (simp add: write_reports_def Let_def case_prod_beta core_simps)

lemma core_save_diff [core_simps]: "core_of (save_diff X now ss w) = core_of w"
  by (simp add: save_diff_def Let_def case_prod_beta core_simps split: option.splits)

lemma core_copy_sites [core_simps]: "core_of (snd (copy_sites X ss w)) = core_of w"
  by (induction ss arbitrary: w) (simp_all add: Let_def case_prod_beta core_simps)

lemma core_free_copy [core_simps]: "core_of (free_copy X c w) = core_of w"
  by (simp add: free_copy_def core_simps split: option.splits prod.splits)

lemma core_free_cached [core_simps]:
  "fst (core_of (free_cached_sites X w)) = fst (core_of w)" "fst (core_of (free_cached_pairs X w)) = fst (core_of w)"
  by (simp_all add: free_cached_sites_def free_cached_pairs_def Let_def core_simps core_fold
      split: option.splits prod.splits)

lemma core_http_cache [core_simps]: "fst (core_of (update_http_cache X ss ps w)) = fst (core_of w)"
  by (simp add: update_http_cache_def cache_sites_def cache_pairs_def Let_def case_prod_beta core_simps split: option.splits)

lemma core_stages [core_simps]:
  "core_of (snd (dedup_all X now sns w)) = core_of w" "core_of (resolve_sites X sns t w) = core_of w"
  "core_of (snd (snd (sort_sites X t w))) = core_of w" "core_of (snd (collect_pairs X sns arr w)) = core_of w"
proof -
  have "core_of (snd (fold (dedup_snap X now) sns tw)) = core_of (snd tw)" for tw
    by (induction sns arbitrary: tw) (simp_all add: core_simps)
  then show "core_of (snd (dedup_all X now sns w)) = core_of w" by (simp add: dedup_all_def)
  have "core_of (resolve_site X sns x u) = core_of u" for x u
    by (simp add: resolve_site_def Let_def case_prod_beta core_simps split: option.splits)
  then show "core_of (resolve_sites X sns t w) = core_of w" by (simp add: resolve_sites_def core_fold)
  show "core_of (snd (snd (sort_sites X t w))) = core_of w"
    by (simp add: sort_sites_def Let_def case_prod_beta core_simps)
  have "core_of (snd (pair_sites X sns xs u)) = core_of u" for xs u
    by (induction xs arbitrary: u) (auto simp: Let_def case_prod_beta core_simps split: option.splits)
  then show "core_of (snd (collect_pairs X sns arr w)) = core_of w"
    by (simp add: collect_pairs_def Let_def case_prod_beta core_simps split: option.splits)
qed

lemma core_cleanup [core_simps]: "core_of (scan_cleanup X b arr ps t w) = core_of w"
  by (simp add: scan_cleanup_def Let_def case_prod_beta core_simps core_fold)

lemma core_snap_alloc [core_simps]: "core_of (snd (snd (snap_alloc X n w))) = core_of w"
proof (induction X n w rule: snap_alloc.induct)
  case (1 X n w)
  obtain p u where malloc: "call_malloc X (n * sizeof_mtt_alloc_snap) w = (p, u)" by fastforce
  moreover from malloc core_call_malloc [of X "n * sizeof_mtt_alloc_snap" w] have "core_of u = core_of w" by simp
  moreover have "p = NULL \<Longrightarrow> 1024 \<le> n div 2 \<Longrightarrow> core_of (snd (snd (snap_alloc X (n div 2) u))) = core_of u"
    using 1 [OF malloc [symmetric]] by simp
  ultimately show ?case by (subst snap_alloc.simps) simp
qed

lemma snap_locks_frame: "\<forall>i. \<not> s_bucket_locks (g_state w) i \<Longrightarrow> snd (snap_locks bk n idxs snaps w) = w"
  by (induction idxs arbitrary: snaps) (simp_all add: Let_def bucket_lock_restored)

lemma core_snapshot:
  assumes "\<forall>i. \<not> s_bucket_locks (g_state w) i"
  shows "core_of (snd (scan_snapshot X w)) = core_of w"
proof -
  have "core_of (snd (snd (snap_alloc X (s_entry_count (g_state w)) w))) = core_of w" by (simp add: core_simps)
  moreover from core_parts(1) [OF this] assms
  have "\<forall>i. \<not> s_bucket_locks (g_state (snd (snd (snap_alloc X (s_entry_count (g_state w)) w)))) i" by simp
  ultimately show ?thesis
    by (simp add: scan_snapshot_def Let_def case_prod_beta core_simps snap_locks_frame split: option.splits)
qed

lemma core_stores [core_simps]:
  "core_of (store_leak_total t w) =
     apfst (apfst (apfst (\<lambda>s. s\<lparr>s_leak_bytes_total := table_bytes t\<rparr>))) (core_of w)"
  "core_of (store_expired arr w) = apfst (apfst (apfst (\<lambda>s. s\<lparr>s_expired_alloc_count :=
     (case arr of None \<Rightarrow> 0 | Some (block, sites) \<Rightarrow> of_nat (expired_sites sites))\<rparr>))) (core_of w)"
  unfolding store_leak_total_def store_expired_def core_state table_bytes_def by simp_all

abbreviation trace_of :: "'l world \<Rightarrow> (mtt_state \<times> (ptr \<Rightarrow> mtt_entry) \<times> memory) \<times> ((nat \<Rightarrow> per_thread) \<times>
    (int \<Rightarrow> nat option) \<times> (int \<Rightarrow> int)) \<times> (fnptr \<times> fnptr \<times> fnptr \<times> fnptr \<times> fnptr \<times> bool \<times> bool)" where
  "trace_of w \<equiv> fst (core_of w)"

lemma trace_set: "trace_of (upd_state f w) = apfst (apfst f) (trace_of w)"
  by (simp add: core_of_def)

text \<open>The world in which the snapshot is taken, and a scan seen from there.\<close>

definition before_snapshot :: "'l ext \<Rightarrow> 'l world \<Rightarrow> 'l world" where
  "before_snapshot X w = refresh_ts_cache X True (mtt_addr_validate_refresh X w)"

lemma core_before_snapshot [core_simps]: "core_of (before_snapshot X w) = core_of w"
  by (simp add: before_snapshot_def core_simps)

abbreviation store_results :: "size_t \<Rightarrow> u64 \<Rightarrow> 'l world \<Rightarrow> 'l world" where
  "store_results b n \<equiv> upd_state (\<lambda>s. s\<lparr>s_leak_bytes_total := b, s_expired_alloc_count := n\<rparr>)"

lemma scan_some:
  assumes "s_initialized (g_state w)" "scan_snapshot X (before_snapshot X w) = (Some (block, snaps), v)"
  shows "\<exists>n. trace_of (scan_and_report_locked X w) =
    trace_of (store_results (table_bytes (fst (dedup_all X (g_time w) snaps v))) n v)"
proof -
  have "\<exists>n. trace_of (scan_and_report_locked X w) = apfst (apfst (\<lambda>s. s\<lparr>s_expired_alloc_count := n\<rparr>))
      (apfst (apfst (\<lambda>s. s\<lparr>s_leak_bytes_total := table_bytes (fst (dedup_all X (g_time w) snaps v))\<rparr>)) (trace_of v))"
    using assms
    by (simp add: scan_and_report_locked_def before_snapshot_def [symmetric] Let_def case_prod_beta core_simps) (rule exI, rule refl)
  then show ?thesis by (simp add: core_of_def)
qed

lemma before_snapshot_locks:
  "\<forall>i. \<not> s_bucket_locks (g_state w) i \<Longrightarrow> \<forall>i. \<not> s_bucket_locks (g_state (before_snapshot X w)) i"
  by (simp add: core_parts(1) [OF core_before_snapshot])

lemma scan_none:
  assumes "\<not> s_initialized (g_state w) \<or> fst (scan_snapshot X (before_snapshot X w)) = None"
    and "\<forall>i. \<not> s_bucket_locks (g_state w) i"
  shows "core_of (scan_and_report_locked X w) = core_of w"
  using assms core_snapshot [OF before_snapshot_locks [OF assms(2)], of X X]
  by (auto simp: scan_and_report_locked_def before_snapshot_def [symmetric] Let_def case_prod_beta core_simps)

lemma scan_core:
  assumes "\<forall>i. \<not> s_bucket_locks (g_state w) i"
  shows "\<exists>b n. trace_of (scan_and_report_locked X w) = trace_of (store_results b n w)"
proof (cases "s_initialized (g_state w) \<and> fst (scan_snapshot X (before_snapshot X w)) \<noteq> None")
  case True
  then obtain block snaps v where sn: "scan_snapshot X (before_snapshot X w) = (Some (block, snaps), v)"
    by (metis option.exhaust prod.collapse)
  have "core_of v = core_of w"
    using core_snapshot [OF before_snapshot_locks [OF assms], of X X] sn by (simp add: core_simps)
  then show ?thesis using scan_some [OF _ sn] True by (metis trace_set)
next
  case False
  then have "core_of (scan_and_report_locked X w) = core_of w" using scan_none [OF _ assms, of X] by blast
  then have "trace_of (scan_and_report_locked X w) =
      trace_of (store_results (s_leak_bytes_total (g_state w)) (s_expired_alloc_count (g_state w)) w)"
    by (simp add: core_of_def)
  then show ?thesis by blast
qed

lemma scan_and_report_core: "trace_of (scan_and_report X w) = trace_of (scan_and_report_locked X (scan_lock w))"
  by (simp add: scan_and_report_def core_simps)

lemma scan_trace:
  assumes "\<forall>i. \<not> s_bucket_locks (g_state w) i"
  shows "\<exists>b n. trace_of (scan_and_report X w) = trace_of (store_results b n w)"
proof -
  have l: "core_of (scan_lock w) = core_of w" by (simp add: core_simps)
  have "\<forall>i. \<not> s_bucket_locks (g_state (scan_lock w)) i" using assms core_parts(1) [OF l] by simp
  then show ?thesis using scan_core [of "scan_lock w" X] l by (metis trace_set scan_and_report_core)
qed

text \<open>C13. A scan does not disturb the tracing. If no bucket lock is held, \<open>scan_and_report\<close> leaves the
  table of records, every counter but the two results it stores, the program's memory, the thread
  slots and the raw allocators as they were; so the books stay balanced for the same set of live
  blocks, and no bucket lock is left held.
\<close>

theorem scan_keeps_tracing:
  assumes "books w S H" "\<forall>i. \<not> s_bucket_locks (g_state w) i"
  shows "books (scan_and_report X w) S H \<and> (\<forall>i. \<not> s_bucket_locks (g_state (scan_and_report X w)) i) \<and>
    (\<exists>b n. g_state (scan_and_report X w) = (g_state w)\<lparr>s_leak_bytes_total := b, s_expired_alloc_count := n\<rparr>) \<and>
    g_entries (scan_and_report X w) = g_entries w \<and> g_mem (scan_and_report X w) = g_mem w \<and>
    g_threads (scan_and_report X w) = g_threads w \<and> raw_malloc (scan_and_report X w) = raw_malloc w \<and>
    raw_free (scan_and_report X w) = raw_free w"
proof -
  obtain b n where c: "trace_of (scan_and_report X w) = trace_of (store_results b n w)"
    using scan_trace [OF assms(2)] by blast
  note p = trace_parts [OF c]
  have "books (scan_and_report X w) S H = books w S H"
    by (rule books_same) (simp_all add: p same_books_def table_fields_def)
  moreover have "g_state (scan_and_report X w) = (g_state w)\<lparr>s_leak_bytes_total := b, s_expired_alloc_count := n\<rparr>"
    by (simp add: p)
  ultimately show ?thesis using assms p(2-) by (intro conjI exI [of _ b] exI [of _ n]) simp_all
qed

section \<open>The total of the scan\<close>

lemma word_of_unat: "of_nat (unat (x :: 'a :: len word)) = x"
  by simp

lemma word_sum_unat: "(\<Sum>a \<in> A. (f a :: 'a :: len word)) = of_nat (\<Sum>a \<in> A. unat (f a))"
  by (simp add: word_of_unat)

lemma records_distinct:
  assumes "chains_inv w bs fs"
  shows "distinct (records w bs p)"
proof -
  obtain bk where "s_buckets (g_state w) = Some bk" using assms by (auto simp: chains_inv_def)
  from chain_distinct [OF chains_bucket [OF assms this, of p]] show ?thesis by (simp add: records_def)
qed

lemma nodes_sum:
  fixes f :: "ptr \<Rightarrow> nat"
  assumes "table_inv w bs fs H"
  shows "(\<Sum>a \<in> nodes bs. f a) = (\<Sum>p | records w bs p \<noteq> []. \<Sum>a\<leftarrow>records w bs p. f a)"
proof -
  have ch: "chains_inv w bs fs" and fin: "finite (nodes bs)" using assms by (simp_all add: table_inv_def counts_inv_def)
  let ?P = "{p. records w bs p \<noteq> []}"
  have key: "e_ptr (g_entries w a) = p" if "a \<in> set (records w bs p)" for a p using that by (simp add: records_def)
  have sub: "set (records w bs p) \<subseteq> nodes bs" for p by (auto simp: records_def nodes_def)
  have "?P \<subseteq> (\<lambda>a. e_ptr (g_entries w a)) ` nodes bs"
  proof
    fix p assume "p \<in> ?P"
    then obtain a where "a \<in> set (records w bs p)" by (cases "records w bs p") auto
    then show "p \<in> (\<lambda>a. e_ptr (g_entries w a)) ` nodes bs" using key sub by blast
  qed
  then have "finite ?P" by (rule finite_subset) (rule finite_imageI [OF fin])
  then have "(\<Sum>a \<in> nodes bs. f a) = (\<Sum>p \<in> ?P. \<Sum>a \<in> set (records w bs p). f a)"
    unfolding nodes_records [OF ch] by (rule sum.UNION_disjoint) (use key in blast)+
  also have "\<dots> = (\<Sum>p \<in> ?P. \<Sum>a\<leftarrow>records w bs p. f a)"
  proof (rule sum.cong [OF refl])
    fix p
    show "(\<Sum>a \<in> set (records w bs p). f a) = (\<Sum>a\<leftarrow>records w bs p. f a)"
      by (subst sum_list_distinct_conv_sum_set [OF records_distinct [OF ch]]) simp
  qed
  finally show ?thesis .
qed

text \<open>The snapshot has every record, and the groups add up to their sizes.\<close>

lemma scan_total:
  assumes "books w S H" "\<forall>i. \<not> s_bucket_locks (g_state w) i" "s_initialized (g_state w)"
    and "raw_malloc w = F_LIBC" "\<And>l n. fst (x_malloc X l n) \<noteq> NULL"
    and "unat (s_entry_count (g_state w)) \<le> MTT_LEAK_DEDUP_SIZE"
  shows "s_leak_bytes_total (g_state (scan_and_report X w)) = s_current_bytes (g_state w)"
proof -
  define u where "u = before_snapshot X (scan_lock w)"
  have c: "core_of u = core_of w" by (simp add: u_def core_simps)
  note p = core_parts [OF c]
  have "books u S H" using assms(1) books_same [of w u S H] by (simp add: p same_books_def)
  then have lb: "unat (s_current_bytes (g_state w)) = live_bytes S" and "tracked u S H"
    using p by (simp_all add: books_def)
  from this(2) obtain bs fs where t: "table_inv u bs fs H"
    and S: "S = (\<lambda>p. map (\<lambda>a. e_size (g_entries u a)) (records u bs p))"
    by (rule tracked_elim)
  obtain q u' where m: "call_malloc X (s_entry_count (g_state u) * sizeof_mtt_alloc_snap) u = (q, u')" by fastforce
  then have "q \<noteq> NULL" using assms(4,5) by (auto simp: call_malloc_def p case_prod_beta dest: sym)
  then obtain block snaps v where sn: "scan_snapshot X u = (Some (block, snaps), v)"
    "mset snaps = image_mset (\<lambda>a. snap_of (g_entries u a)) (mset_set (nodes bs))"
    using snapshot_records [OF t _ m] assms(2) by (auto simp: p)
  have cv: "core_of v = core_of u" using core_snapshot [of u X] assms(2) sn(1) by (simp add: p)
  have "card (snap_hash ` set snaps) \<le> length snaps" by (meson card_image_le card_length finite_set le_trans)
  also have "\<dots> = card (nodes bs)" using sn(2) by (metis size_image_mset size_mset size_mset_set)
  also have "\<dots> \<le> MTT_LEAK_DEDUP_SIZE" using entry_count_exact [OF t] assms(6) by (simp add: p)
  finally have "table_bytes (fst (dedup_all X (g_time (scan_lock w)) snaps v)) = sum_list (map sn_size snaps)"
    using dedup_grouped [OF refl _ assms(5), of v snaps] assms(4) core_parts(5) [OF cv] by (simp add: p grouped_def)
  also have "\<dots> = (\<Sum>a \<in> nodes bs. e_size (g_entries u a))"
  proof -
    have "sum_list (map sn_size snaps) = sum_mset (image_mset sn_size (mset snaps))" by (simp add: sum_mset_sum_list [symmetric])
    then show ?thesis unfolding sn(2) by (simp add: image_mset.compositionality comp_def snap_of_def Let_def sum_unfold_sum_mset)
  qed
  also have "\<dots> = of_nat (live_bytes S)"
    unfolding word_sum_unat nodes_sum [OF t] S live_bytes_def map_map comp_def map_is_Nil_conv ..
  finally have b: "table_bytes (fst (dedup_all X (g_time (scan_lock w)) snaps v)) = s_current_bytes (g_state w)"
    using lb by (metis word_of_unat)
  have "s_initialized (g_state (scan_lock w))" using assms(3) by (simp add: scan_lock_def)
  from scan_some [OF this sn(1) [unfolded u_def]] obtain n where
    "trace_of (scan_and_report X w) = trace_of (store_results (s_current_bytes (g_state w)) n v)"
    unfolding b scan_and_report_core by blast
  from trace_parts(1) [OF this] show ?thesis by simp
qed

text \<open>C11. The total of a scan is the current usage: if the tracker is initialised, its books are balanced, no bucket
  lock is held, \<open>malloc\<close> does not fail and there are no more records than the table of leak sites can
  tell apart, then after \<open>scan_and_report\<close> the total of the leak sites is the number of bytes in use.
\<close>

theorem scan_total_exact:
  assumes "books w S H" "\<forall>i. \<not> s_bucket_locks (g_state w) i" "s_initialized (g_state w)"
    and "raw_malloc w = F_LIBC" "\<And>l n. fst (x_malloc X l n) \<noteq> NULL"
    and "unat (s_entry_count (g_state w)) \<le> MTT_LEAK_DEDUP_SIZE"
  shows "s_leak_bytes_total (g_state (scan_and_report X w)) = s_current_bytes (g_state w)"
  by (rule scan_total [OF assms])

text \<open>The record of \<open>one_record_world\<close> with its counters.\<close>

definition counted_world :: "ptr world" where
  "counted_world = upd_state (\<lambda>s. s\<lparr>s_initialized := True, s_current_bytes := 24, s_peak_bytes := 24,
     s_alloc_count := 1, s_free_count := 0\<rparr>) one_record_world"

lemma one_record_state:
  "s_bucket_count (g_state one_record_world) = s_bucket_count (g_state held_world)"
  "s_hash_seed (g_state one_record_world) = s_hash_seed (g_state held_world)"
  "pool_unlocked one_record_world" "r_cached_sites (g_reporter one_record_world) = None"
proof -
  have b: "s_buckets (g_state (held_world\<lparr>raw_malloc := F_LIBC\<rparr>)) = Some (\<lambda>_. NULL)" by (simp add: held_world_def)
  have n: "(0x9000 :: ptr) \<noteq> NULL" by simp
  show "s_bucket_count (g_state one_record_world) = s_bucket_count (g_state held_world)"
    "s_hash_seed (g_state one_record_world) = s_hash_seed (g_state held_world)" "pool_unlocked one_record_world"
    "r_cached_sites (g_reporter one_record_world) = None"
    unfolding one_record_world_def entry_add_eq [OF b n]
    by (simp_all add: Let_def pool_unlocked_def held_world_def zero_state_def demo_world_def)
qed

lemma counted_books: "books counted_world ((\<lambda>_. [])(0x20 := [24])) {}"
proof -
  let ?bs = "(\<lambda>_. [])(bucket_at held_world 0x20 := [0x9000 :: ptr])"
  have "records one_record_world ?bs p = ((\<lambda>_. [])(0x20 := [0x9000])) p" for p
    by (cases "p = 0x20") (auto simp: records_def one_record_state one_record(2))
  then have "records one_record_world ?bs = (\<lambda>_. [])(0x20 := [0x9000])" by blast
  then have "recs one_record_world ((\<lambda>_. [])(0x20 := [0x9000])) {}"
    using one_record(1) one_record_state(3) unfolding recs_def by blast
  then have "tracked one_record_world ((\<lambda>_. [])(0x20 := [24])) {}"
    unfolding tracked_def by (intro exI conjI) (auto simp: one_record(2) fun_eq_iff)
  then have "tracked counted_world ((\<lambda>_. [])(0x20 := [24])) {}"
    using tracked_fields [of counted_world one_record_world] by (simp add: counted_world_def table_fields_def)
  then show ?thesis by (simp add: books_def counted_world_def one_record(3) live_bytes_def)
qed

theorem scan_keeps_tracing_witness:
  "books (scan_and_report roomy_ext counted_world) ((\<lambda>_. [])(0x20 := [24])) {}"
  using scan_keeps_tracing [OF counted_books, of roomy_ext] one_record(4) by (simp add: counted_world_def)

theorem scan_total_exact_witness:
  "s_leak_bytes_total (g_state (scan_and_report roomy_ext counted_world)) = 24"
  using scan_total_exact [OF counted_books _ _ _ roomy_malloc] one_record
  by (simp add: counted_world_def MTT_LEAK_DEDUP_SIZE_def)

section \<open>The copies for the dashboard\<close>

text \<open>
  The dashboard walks the copies and the pairs up to the count: there are as many copies, and the
  pairs, if any, are those of the copies. Without the array of copies the handlers walk nothing.
\<close>

fun dashboard_ok :: "(ptr \<times> (ptr \<times> leak_site) option list) option \<times> nat \<times> (ptr \<times> (ptr \<times> ptr) list) option \<Rightarrow> bool" where
  "dashboard_ok (None, n, ps) = True"
| "dashboard_ok (Some (b, copies), n, None) = (length copies = n)"
| "dashboard_ok (Some (b, copies), n, Some (b', ps)) = (length copies = n \<and> map fst ps = map site_ptr copies)"

text \<open>All copies were made, \<open>n\<close> of them, and each has its pair.\<close>

fun dashboard_full ::
  "nat \<Rightarrow> (ptr \<times> (ptr \<times> leak_site) option list) option \<times> nat \<times> (ptr \<times> (ptr \<times> ptr) list) option \<Rightarrow> bool" where
  "dashboard_full n (Some (b, copies), m, Some (b', ps)) =
     (m = n \<and> length copies = n \<and> None \<notin> set copies \<and> map fst ps = map site_ptr copies)"
| "dashboard_full n _ = False"

text \<open>The C library has memory, and the files can be opened.\<close>

definition all_granted :: "'l ext \<Rightarrow> bool" where
  "all_granted X \<longleftrightarrow> (\<forall>l n. fst (x_malloc X l n) \<noteq> NULL) \<and> (\<forall>l f. x_fopen X l f)"

lemma core_dash: "snd (core_of w) = dash_of (g_reporter w)"
  by (simp add: core_of_def)

lemma dash_cong: "core_of w' = core_of w \<Longrightarrow> dash_of (g_reporter w') = dash_of (g_reporter w)"
  by (metis core_dash)

lemma dash_fields:
  assumes "core_of w' = core_of w"
  shows "r_cached_sites (g_reporter w') = r_cached_sites (g_reporter w)"
    "r_cached_site_count (g_reporter w') = r_cached_site_count (g_reporter w)"
    "r_cached_pairs (g_reporter w') = r_cached_pairs (g_reporter w)"
  using dash_cong [OF assms] by (simp_all add: dash_of_def)

lemmas dash_simps = dash_fields [OF core_call_free] dash_fields [OF core_call_malloc] dash_fields [OF core_copy_sites]

lemma freed_sites:
  assumes "raw_free w \<noteq> F_NULL"
  shows "r_cached_sites (g_reporter (free_cached_sites X w)) = None"
  using assms by (simp add: free_cached_sites_def Let_def split: option.splits prod.splits)

lemma freed_pairs:
  assumes "raw_free w \<noteq> F_NULL"
  shows "r_cached_pairs (g_reporter (free_cached_pairs X w)) = None"
    "r_cached_sites (g_reporter (free_cached_pairs X w)) = r_cached_sites (g_reporter w)"
  using assms by (simp_all add: free_cached_pairs_def dash_simps split: option.splits prod.splits)

lemma copy_sites_length: "length (fst (copy_sites X ss w)) = length ss"
  by (induction ss arbitrary: w) (simp_all add: Let_def case_prod_beta)

lemma cached_sites:
  assumes "r_cached_sites (g_reporter w) = None"
  shows "r_cached_pairs (g_reporter (cache_sites X sites w)) = r_cached_pairs (g_reporter w)"
    "r_cached_sites (g_reporter (cache_sites X sites w)) = Some (b, copies) \<Longrightarrow>
       r_cached_site_count (g_reporter (cache_sites X sites w)) = length copies \<and> map_option length sites = Some (length copies)"
  using assms
  by (auto simp: cache_sites_def Let_def case_prod_beta copy_sites_length dash_simps split: option.splits if_splits)

lemma cached_pairs:
  assumes "r_cached_pairs (g_reporter v) = None"
    and "\<And>b copies. r_cached_sites (g_reporter v) = Some (b, copies) \<Longrightarrow>
      r_cached_site_count (g_reporter v) = length copies \<and> (\<forall>ps. pairs = Some ps \<longrightarrow> length ps = length copies)"
  shows "dashboard_ok (dash_of (g_reporter (cache_pairs X pairs v)))"
proof -
  have f: "map (fst \<circ> (\<lambda>(c, _, se). (site_ptr c, se))) (zip cs ps) = map site_ptr cs"
    if "length ps = length cs" for cs :: "(ptr \<times> leak_site) option list" and ps :: "(ptr \<times> ptr) list"
    using that by (induction cs ps rule: list_induct2') (auto simp: case_prod_beta)
  show ?thesis
  proof (cases "r_cached_sites (g_reporter v)")
    case None
    then show ?thesis
      by (simp add: cache_pairs_def dash_of_def Let_def case_prod_beta dash_simps split: option.splits)
  next
    case (Some c)
    obtain b copies where c: "c = (b, copies)" by fastforce
    then show ?thesis
      using Some assms(2) [of b copies] assms(1)
      by (auto simp: f cache_pairs_def dash_of_def Let_def case_prod_beta dash_simps split: option.splits)
  qed
qed

lemma http_cache_ok:
  assumes "raw_free w \<noteq> F_NULL" "\<And>ss ps. sites = Some ss \<Longrightarrow> pairs = Some ps \<Longrightarrow> length ps = length ss"
  shows "dashboard_ok (dash_of (g_reporter (update_http_cache X sites pairs w)))"
proof -
  define u where "u = free_cached_pairs X (free_cached_sites X (cache_lock w))"
  define v where "v = cache_sites X sites u"
  have "raw_free (cache_lock w) \<noteq> F_NULL" "raw_free (free_cached_sites X (cache_lock w)) \<noteq> F_NULL"
    using assms(1) trace_parts(6) [of "cache_lock w" w]
      trace_parts(6) [of "free_cached_sites X (cache_lock w)" w] by (simp_all add: core_simps)
  then have u: "r_cached_sites (g_reporter u) = None" "r_cached_pairs (g_reporter u) = None"
    by (simp_all add: u_def freed_pairs freed_sites)
  have pv: "r_cached_pairs (g_reporter v) = None" using cached_sites(1) [OF u(1)] u(2) by (simp add: v_def)
  have "dashboard_ok (dash_of (g_reporter (cache_pairs X pairs v)))"
  proof (rule cached_pairs [OF pv])
    fix b copies assume "r_cached_sites (g_reporter v) = Some (b, copies)"
    with cached_sites(2) [OF u(1), of X sites b copies] assms(2)
    show "r_cached_site_count (g_reporter v) = length copies \<and> (\<forall>ps. pairs = Some ps \<longrightarrow> length ps = length copies)"
      by (auto simp: v_def)
  qed
  moreover have "dash_of (g_reporter (update_http_cache X sites pairs w)) = dash_of (g_reporter (cache_pairs X pairs v))"
    by (rule dash_cong) (simp add: update_http_cache_def v_def u_def Let_def core_simps)
  ultimately show ?thesis by simp
qed

lemma pair_sites_length: "length (fst (pair_sites X snaps ss w)) = length ss"
  by (induction ss arbitrary: w) (auto simp: Let_def case_prod_beta split: option.splits)

lemma collect_pairs_length:
  "fst (collect_pairs X snaps (Some (b, ss)) w) = Some (b', ps) \<Longrightarrow> length ps = length ss"
  "fst (collect_pairs X snaps None w) = None"
  by (auto simp: collect_pairs_def Let_def case_prod_beta pair_sites_length split: if_splits)

text \<open>The raw allocators and the copies, whatever becomes of the tracing state.\<close>

definition served_by :: "'l world \<Rightarrow> fnptr \<times> (ptr \<times> (ptr \<times> leak_site) option list) option \<times> nat \<times> (ptr \<times> (ptr \<times> ptr) list) option" where
  "served_by w = (raw_free w, dash_of (g_reporter w))"

lemma served_cong: "core_of w' = core_of w \<Longrightarrow> served_by w' = served_by w"
  by (simp add: core_of_def served_by_def)

lemma served_upd_state: "served_by (upd_state f w) = served_by w"
  by (simp add: served_by_def)

lemma served_stores: "served_by (store_leak_total t w) = served_by w" "served_by (store_expired arr w) = served_by w"
  by (simp_all add: store_leak_total_def store_expired_def served_upd_state)

lemma scan_some_dash:
  assumes "s_initialized (g_state w)" "scan_snapshot X (before_snapshot X w) = (Some (block, snaps), v)"
    and "raw_free v \<noteq> F_NULL" "dashboard_ok (dash_of (g_reporter v))"
  shows "dashboard_ok (dash_of (g_reporter (scan_and_report_locked X w)))"
proof -
  obtain t v1 where d: "dedup_all X (g_time w) snaps v = (t, v1)" by fastforce
  obtain arr n v2 where st: "sort_sites X t (resolve_sites X snaps t (store_leak_total t v1)) = (arr, n, v2)"
    by (metis prod.collapse)
  define ord where "ord = map_option (map_prod id (map (set_diff (r_prev_diff (g_reporter v2))))) arr"
  define sites where "sites = map_option (map snd \<circ> snd) ord"
  obtain prs v3 where c: "collect_pairs X snaps ord (store_expired ord v2) = (prs, v3)" by fastforce
  obtain opened v4 where wr: "write_reports X (g_time w) (length snaps) n sites (map_option (map snd \<circ> snd) prs) v3 = (opened, v4)"
    by fastforce
  define x where "x = save_diff X (g_time w) sites v4"
  have "served_by v1 = served_by v" using served_cong [OF core_stages(1)] d by (metis snd_conv)
  moreover have "served_by v2 = served_by (resolve_sites X snaps t (store_leak_total t v1))"
    using served_cong [OF core_stages(3)] st by (metis snd_conv)
  moreover have "served_by v3 = served_by (store_expired ord v2)" using served_cong [OF core_stages(4)] c by (metis snd_conv)
  moreover have "served_by v4 = served_by v3" using served_cong [OF core_write_reports] wr by (metis snd_conv)
  ultimately have v4: "served_by v4 = served_by v" and x: "served_by x = served_by v"
    by (simp_all add: x_def served_stores served_cong [OF core_save_diff] served_cong [OF core_stages(2)])
  have len: "length ps = length ss" if "sites = Some ss" "map_option snd prs = Some ps" for ss ps
    using that collect_pairs_length(1) [of X snaps] c by (auto simp: sites_def) (metis fst_conv prod.collapse)
  have ok: "dashboard_ok (dash_of (g_reporter (update_http_cache X sites (map_option snd prs) x)))"
    using http_cache_ok [of x sites "map_option snd prs" X] len x assms(3) by (simp add: served_by_def)
  have "scan_and_report_locked X w =
      scan_cleanup X block ord prs t (if opened then update_http_cache X sites (map_option snd prs) x else v4)"
    using assms(1,2) d st c wr
    by (simp add: scan_and_report_locked_def before_snapshot_def [symmetric] Let_def ord_def [symmetric]
        sites_def [symmetric] x_def [symmetric])
  then show ?thesis
    using ok v4 assms(4) by (auto simp: served_by_def dash_cong [OF core_cleanup])
qed

section \<open>A scan with memory\<close>

lemma granted_malloc: "all_granted X \<Longrightarrow> raw_malloc w = F_LIBC \<Longrightarrow> fst (call_malloc X n w) \<noteq> NULL"
  by (simp add: all_granted_def call_malloc_def case_prod_beta)

lemma copy_sites_granted: "all_granted X \<Longrightarrow> raw_malloc w = F_LIBC \<Longrightarrow> None \<notin> set (fst (copy_sites X ss w))"
proof (induction ss arbitrary: w)
  case (Cons x ss)
  have "raw_malloc (snd (call_malloc X sizeof_leak_site w)) = F_LIBC"
    using core_parts(5) [OF core_call_malloc [of X sizeof_leak_site w]] Cons.prems(2) by simp
  then show ?case using Cons granted_malloc [OF Cons.prems, of sizeof_leak_site] by (simp add: Let_def case_prod_beta)
qed simp

lemma http_cache_full:
  assumes "all_granted X" "raw_malloc w = F_LIBC" "raw_free w \<noteq> F_NULL" "ss \<noteq> []" "length ps = length ss"
  shows "dashboard_full (length ss) (dash_of (g_reporter (update_http_cache X (Some ss) (Some ps) w)))"
proof -
  define u where "u = free_cached_pairs X (free_cached_sites X (cache_lock w))"
  define v where "v = cache_sites X (Some ss) u"
  define z where "z = cache_pairs X (Some ps) v"
  have ru: "raw_malloc u = F_LIBC" using assms(2) trace_parts(5) [of u w] by (simp add: u_def core_simps)
  have rv: "raw_malloc v = F_LIBC"
    using ru trace_parts(5) [of v u] by (simp add: v_def cache_sites_def Let_def case_prod_beta core_simps)
  define c where "c = fst (copy_sites X ss (snd (call_malloc X (of_nat (length ss) * 8) u)))"
  have c: "length c = length ss" "None \<notin> set c"
    using copy_sites_length copy_sites_granted [OF assms(1), of "snd (call_malloc X (of_nat (length ss) * 8) u)" ss]
      core_parts(5) [OF core_call_malloc [of X "of_nat (length ss) * 8" u]] ru by (simp_all add: c_def)
  have v: "r_cached_sites (g_reporter v) = Some (fst (call_malloc X (of_nat (length ss) * 8) u), c)"
    "r_cached_site_count (g_reporter v) = length ss"
    using assms(4) granted_malloc [OF assms(1) ru, of "of_nat (length ss) * 8"]
    by (simp_all add: v_def cache_sites_def Let_def case_prod_beta c_def)
  have f: "map (fst \<circ> (\<lambda>(x, _, se). (site_ptr x, se))) (zip c ps) = map site_ptr c"
    using assms(5) c(1) by (intro nth_equalityI) (simp_all add: case_prod_beta)
  have "ps \<noteq> []" using assms(4,5) by auto
  then have "dashboard_full (length ss) (dash_of (g_reporter z))"
    using granted_malloc [OF assms(1) rv, of "of_nat (length ps) * 16"] v c f
    by (simp add: z_def cache_pairs_def Let_def case_prod_beta [of _ "call_malloc X n w" for n w] dash_of_def dash_simps)
  moreover have "dash_of (g_reporter (update_http_cache X (Some ss) (Some ps) w)) = dash_of (g_reporter z)"
    by (rule dash_cong) (simp add: update_http_cache_def z_def v_def u_def Let_def core_simps)
  ultimately show ?thesis by simp
qed

lemma scan_some_full:
  assumes "s_initialized (g_state w)" "scan_snapshot X (before_snapshot X w) = (Some (block, snaps), v)"
    and "raw_free v \<noteq> F_NULL" "raw_malloc v = F_LIBC" "all_granted X" "snaps \<noteq> []"
    and "card (snap_hash ` set snaps) \<le> MTT_LEAK_DEDUP_SIZE"
  shows "dashboard_full (card (snap_hash ` set snaps)) (dash_of (g_reporter (scan_and_report_locked X w)))"
proof -
  obtain t v1 where d: "dedup_all X (g_time w) snaps v = (t, v1)" by fastforce
  have g: "leak_table_ok t" "unat (lt_count t) = card (snap_hash ` set snaps)"
    using dedup_grouped [OF refl assms(4) _ assms(7), of X "g_time w"] assms(5) d by (simp_all add: all_granted_def grouped_def)
  have "0 < unat (lt_count t)" using g(2) assms(6) by (simp add: card_gt_0_iff)
  then have pos: "0 < lt_count t" by (simp add: word_less_nat_alt)
  define r where "r = resolve_sites X snaps t (store_leak_total t v1)"
  have raws: "raw_malloc v1 = F_LIBC" "raw_free v1 \<noteq> F_NULL"
    using core_parts(5,6) [OF core_stages(1) [of X "g_time w" snaps v]] assms(3,4) d by simp_all
  then have rr: "raw_malloc r = F_LIBC" "raw_free r \<noteq> F_NULL"
    using core_parts(5,6) [OF core_stages(2) [of X snaps t "store_leak_total t v1"]]
    by (simp_all add: r_def store_leak_total_def)
  define blk where "blk = fst (call_malloc X (lt_count t * 8) r)"
  define v2 where "v2 = snd (call_malloc X (lt_count t * 8) r)"
  define srt where "srt = qsort (\<lambda>a b. cmp_leak_by_count (snd a) (snd b)) (all_sites t)"
  have ls: "length (all_sites t) = unat (lt_count t)" by (rule all_sites_length [OF g(1)])
  have st: "sort_sites X t r = (Some (blk, srt), unat (lt_count t), v2)"
    using pos granted_malloc [OF assms(5) rr(1), of "lt_count t * 8"] ls
    by (simp add: sort_sites_def Let_def case_prod_beta blk_def v2_def srt_def)
  have len: "length srt = card (snap_hash ` set snaps)" using ls g(2) by (metis mset_qsort size_mset srt_def)
  have r2: "raw_malloc v2 = F_LIBC" "raw_free v2 \<noteq> F_NULL"
    using core_parts(5,6) [OF core_call_malloc [of X "lt_count t * 8" r]] rr by (simp_all add: v2_def)
  define arr where "arr = Some (blk, srt)"
  define ord where "ord = map_option (map_prod id (map (set_diff (r_prev_diff (g_reporter v2))))) arr"
  define sites where "sites = map snd (map (set_diff (r_prev_diff (g_reporter v2))) srt)"
  define so where "so = map_option (map snd \<circ> snd) ord"
  have so: "so = Some sites" by (simp add: so_def ord_def arr_def sites_def)
  have sl: "length sites = card (snap_hash ` set snaps)" by (simp add: sites_def len)
  then have ne: "sites \<noteq> []" using assms(6) by auto
  obtain prs v3 where c: "collect_pairs X snaps ord (store_expired ord v2) = (prs, v3)" by fastforce
  have r3: "raw_malloc v3 = F_LIBC" "raw_free v3 \<noteq> F_NULL"
    using core_parts(5,6) [OF core_stages(4) [of X snaps ord "store_expired ord v2"]] c r2 by (simp_all add: store_expired_def)
  have "raw_malloc (store_expired ord v2) = F_LIBC" using r2 by (simp add: store_expired_def)
  then obtain bp ps where prs: "prs = Some (bp, ps)" "length ps = length sites"
    using c ne granted_malloc [OF assms(5), of "store_expired ord v2"]
    by (auto simp: collect_pairs_def ord_def arr_def sites_def Let_def case_prod_beta pair_sites_length split: if_splits)
  obtain opened v4 where wr: "write_reports X (g_time w) (length snaps) (unat (lt_count t)) so
      (map_option (map snd \<circ> snd) prs) v3 = (opened, v4)"
    by fastforce
  have op: "opened" using wr assms(5) by (auto simp: write_reports_def all_granted_def Let_def case_prod_beta)
  define x where "x = save_diff X (g_time w) so v4"
  have "core_of v4 = core_of v3" using core_write_reports wr by (metis snd_conv)
  then have cx: "core_of x = core_of v3" by (simp add: x_def core_simps)
  have full: "dashboard_full (length sites) (dash_of (g_reporter (update_http_cache X (Some sites) (Some ps) x)))"
    using r3 core_parts(5,6) [OF cx] by (intro http_cache_full [OF assms(5) _ _ ne prs(2)]) simp_all
  have "scan_and_report_locked X w = scan_cleanup X block ord prs t (update_http_cache X so (map_option snd prs) x)"
    using assms(1,2) d st [folded arr_def] c wr op
    by (simp add: scan_and_report_locked_def before_snapshot_def [symmetric] Let_def ord_def [symmetric]
        so_def [symmetric] x_def [symmetric] r_def [symmetric])
  then show ?thesis using full sl so prs(1) by (simp add: dash_cong [OF core_cleanup])
qed

text \<open>The snapshot of a tracker whose books are balanced.\<close>

lemma books_snapshot:
  assumes "books w S H" "\<forall>i. \<not> s_bucket_locks (g_state w) i" "raw_malloc w = F_LIBC" "\<And>l n. fst (x_malloc X l n) \<noteq> NULL"
  shows "\<exists>bs fs block snaps v. table_inv w bs fs H \<and>
    scan_snapshot X (before_snapshot X (scan_lock w)) = (Some (block, snaps), v) \<and>
    mset snaps = image_mset (\<lambda>a. snap_of (g_entries w a)) (mset_set (nodes bs)) \<and> core_of v = core_of w"
proof -
  define u where "u = before_snapshot X (scan_lock w)"
  have c: "core_of u = core_of w" by (simp add: u_def core_simps)
  note p = core_parts [OF c]
  obtain bs fs where t: "table_inv w bs fs H" using books_tracked [OF assms(1)] by (auto simp: tracked_def recs_def)
  then have tu: "table_inv u bs fs H" using table_inv_cong [of u w] by (simp add: p)
  obtain q u' where m: "call_malloc X (s_entry_count (g_state u) * sizeof_mtt_alloc_snap) u = (q, u')" by fastforce
  then have "q \<noteq> NULL" using assms(3,4) by (auto simp: call_malloc_def p case_prod_beta dest: sym)
  then obtain block snaps v where sn: "scan_snapshot X u = (Some (block, snaps), v)"
    "mset snaps = image_mset (\<lambda>a. snap_of (g_entries w a)) (mset_set (nodes bs))"
    using snapshot_records [OF tu _ m] assms(2) by (auto simp: p)
  have "core_of v = core_of w" using core_snapshot [of u X] assms(2) sn(1) c by (simp add: p)
  then show ?thesis using t sn unfolding u_def by blast
qed

lemma dashboard_kept:
  assumes "dashboard_ok (dash_of (g_reporter w))" "raw_free w \<noteq> F_NULL" "\<forall>i. \<not> s_bucket_locks (g_state w) i"
  shows "dashboard_ok (dash_of (g_reporter (scan_and_report X w)))"
proof -
  let ?w = "scan_lock w"
  have l: "core_of ?w = core_of w" by (simp add: core_simps)
  have locks: "\<forall>i. \<not> s_bucket_locks (g_state ?w) i" using assms(3) core_parts(1) [OF l] by simp
  have "dashboard_ok (dash_of (g_reporter (scan_and_report_locked X ?w)))"
  proof (cases "s_initialized (g_state ?w) \<and> fst (scan_snapshot X (before_snapshot X ?w)) \<noteq> None")
    case True
    then obtain block snaps v where sn: "scan_snapshot X (before_snapshot X ?w) = (Some (block, snaps), v)"
      by (metis option.exhaust prod.collapse)
    have "core_of v = core_of w"
      using core_snapshot [OF before_snapshot_locks [OF locks], of X X] sn l by (simp add: core_simps)
    from served_cong [OF this] have "raw_free v \<noteq> F_NULL" "dashboard_ok (dash_of (g_reporter v))"
      using assms(1,2) by (simp_all add: served_by_def)
    with True show ?thesis by (intro scan_some_dash [OF _ sn]) simp_all
  next
    case False
    then have "core_of (scan_and_report_locked X ?w) = core_of w" using scan_none [of ?w X] locks l by metis
    from dash_cong [OF this] show ?thesis using assms(1) by simp
  qed
  then show ?thesis by (simp add: scan_and_report_def dash_cong [OF core_locks(4)])
qed

text \<open>C37. What the dashboard walks is in bounds: if the number of cached sites is the length of the array of
  copies and the cached pairs, if any, are those of these copies, then they still are after a scan, even one in
  which an allocation or a file fails; so a request never reads past either array. And where memory is granted, the
  files can be opened, the tracker is initialised with its books balanced, and there are records, but no
  more than the table of leak sites can tell apart, then after the scan there is a copy for each different
  key of a record, none missing, and every copy has its pair. The releasing pointer is set and no bucket
  lock is held.\<close>

theorem dashboard_in_bounds:
  assumes "dashboard_ok (dash_of (g_reporter w))" "raw_free w \<noteq> F_NULL" "\<forall>i. \<not> s_bucket_locks (g_state w) i"
  shows "dashboard_ok (dash_of (g_reporter (scan_and_report X w))) \<and>
    (all_granted X \<and> raw_malloc w = F_LIBC \<and> s_initialized (g_state w) \<and> books w S H \<and> 0 < s_entry_count (g_state w) \<and>
       unat (s_entry_count (g_state w)) \<le> MTT_LEAK_DEDUP_SIZE \<longrightarrow>
     (\<exists>bs fs. table_inv w bs fs H \<and>
        dashboard_full (card ((\<lambda>a. snap_hash (snap_of (g_entries w a))) ` nodes bs)) (dash_of (g_reporter (scan_and_report X w)))))"
proof (intro conjI impI; (elim conjE)?)
  show "dashboard_ok (dash_of (g_reporter (scan_and_report X w)))" by (rule dashboard_kept [OF assms])
next
  assume a: "all_granted X" "raw_malloc w = F_LIBC" "s_initialized (g_state w)" "books w S H" "0 < s_entry_count (g_state w)"
    "unat (s_entry_count (g_state w)) \<le> MTT_LEAK_DEDUP_SIZE"
  have "fst (x_malloc X l n) \<noteq> NULL" for l n using a(1) by (simp add: all_granted_def)
  from books_snapshot [OF a(4) assms(3) a(2) this] obtain bs fs block snaps v where t: "table_inv w bs fs H"
    and sn: "scan_snapshot X (before_snapshot X (scan_lock w)) = (Some (block, snaps), v)"
    and ms: "mset snaps = image_mset (\<lambda>a. snap_of (g_entries w a)) (mset_set (nodes bs))" and cv: "core_of v = core_of w"
    by blast
  have fin: "finite (nodes bs)" using t by (simp add: table_inv_def counts_inv_def)
  have "set snaps = (\<lambda>a. snap_of (g_entries w a)) ` nodes bs" using ms fin by (metis finite_set_mset_mset_set set_image_mset set_mset_mset)
  then have keys: "snap_hash ` set snaps = (\<lambda>a. snap_hash (snap_of (g_entries w a))) ` nodes bs" by (simp add: image_image)
  have len: "length snaps = unat (s_entry_count (g_state w))"
    using ms entry_count_exact [OF t] by (metis size_image_mset size_mset size_mset_set)
  then have "snaps \<noteq> []" using a(5) by (auto simp: word_less_nat_alt)
  moreover have "card (snap_hash ` set snaps) \<le> length snaps" by (meson card_image_le card_length finite_set le_trans)
  then have "card (snap_hash ` set snaps) \<le> MTT_LEAK_DEDUP_SIZE" using len a(6) by simp
  moreover have "s_initialized (g_state (scan_lock w))" using a(3) by (simp add: scan_lock_def)
  ultimately have "dashboard_full (card (snap_hash ` set snaps)) (dash_of (g_reporter (scan_and_report_locked X (scan_lock w))))"
    using scan_some_full [OF _ sn _ _ a(1)] core_parts(5,6) [OF cv] assms(2) a(2) by simp
  then show "\<exists>bs fs. table_inv w bs fs H \<and>
      dashboard_full (card ((\<lambda>a. snap_hash (snap_of (g_entries w a))) ` nodes bs)) (dash_of (g_reporter (scan_and_report X w)))"
    using t keys by (intro exI [of _ bs] exI [of _ fs]) (simp add: scan_and_report_def dash_cong [OF core_locks(4)])
qed

theorem dashboard_in_bounds_witness:
  "\<exists>n. dashboard_full n (dash_of (g_reporter (scan_and_report roomy_ext (counted_world\<lparr>raw_free := F_LIBC\<rparr>))))"
proof -
  let ?w = "counted_world\<lparr>raw_free := F_LIBC\<rparr>"
  have "r_cached_sites (g_reporter counted_world) = None" by (simp add: counted_world_def one_record_state(4))
  then have ok: "dashboard_ok (dash_of (g_reporter ?w))" by (simp add: dash_of_def)
  have "books ?w ((\<lambda>_. [])(0x20 := [24])) {}"
    using counted_books books_same [of counted_world ?w "(\<lambda>_. [])(0x20 := [24])" "{}"] by (simp add: same_books_def)
  moreover have "all_granted roomy_ext" using roomy_malloc by (simp add: all_granted_def roomy_ext_def demo_ext_def)
  ultimately show ?thesis
    using dashboard_in_bounds [OF ok, of roomy_ext "(\<lambda>_. [])(0x20 := [24])" "{}"] one_record
    by (auto simp: counted_world_def MTT_LEAK_DEDUP_SIZE_def)
qed

end
