(* ===== verification/Scan_Locks.thy ===== *)
theory Scan_Locks
  imports Scan_Effect
begin

text \<open>
  The locks of a scan. A thread that scans takes the scan mutex, the lock of the dashboard's copies, the lock of
  the sample ring, the lock of the stack cache and the stripe locks; it never returns if one of them is
  held for good, if an allocator pointer is NULL, or if it writes the JSON file without the array of
  sites. From a state in which a scan can pass, it passes and leaves such a state, so the reporter
  thread ends once it is told to stop.
\<close>

section \<open>States in which a scan can pass\<close>

text \<open>No JSON file is asked for, or the C library always has memory for the array it is written from.\<close>

definition json_safe :: "'l ext \<Rightarrow> 'l world \<Rightarrow> bool" where
  "json_safe X w \<longleftrightarrow> (\<forall>l n. fst (x_malloc X l n) \<noteq> NULL) \<or>
     (if g_json_checked w then g_json_path w else x_getenv X ''MTT_REPORT_FILE'') \<in> {None, Some []}"

text \<open>The two flags tell whether the scan mutex and the lock of the copies are taken, by this thread.\<close>

definition fit :: "'l ext \<Rightarrow> bool \<Rightarrow> bool \<Rightarrow> 'l world \<Rightarrow> bool" where
  "fit X sm cl w \<longleftrightarrow>
     \<not> g_hung w \<and> r_scan_mutex (g_reporter w) = sm \<and> r_cache_lock (g_reporter w) = cl \<and>
     \<not> ts_lock (g_time_series w) \<and> \<not> sc_lock (g_stack_cache w) \<and> (\<forall>i. \<not> s_bucket_locks (g_state w) i) \<and>
     raw_malloc w = F_LIBC \<and> raw_free w = F_LIBC \<and> s_buckets (g_state w) \<noteq> None \<and> json_safe X w"

named_theorems fit_simps "steps after which a scan can still pass"

lemma json_upd [fit_simps]:
  "json_safe X (w\<lparr>g_ext := l\<rparr>) = json_safe X w" "json_safe X (w\<lparr>g_files := fs\<rparr>) = json_safe X w"
  "json_safe X (upd_state f w) = json_safe X w" "json_safe X (upd_reporter h w) = json_safe X w"
  "json_safe X (w\<lparr>g_stack_heap := sh\<rparr>) = json_safe X w" "json_safe X (w\<lparr>g_stack_cache := sc\<rparr>) = json_safe X w"
  "json_safe X (w\<lparr>g_addr_cache := ac\<rparr>) = json_safe X w" "json_safe X (w\<lparr>g_non_pie_cached := n\<rparr>) = json_safe X w"
  "json_safe X (w\<lparr>g_exe_path := ep\<rparr>) = json_safe X w" "json_safe X (w\<lparr>g_exec_ranges := er\<rparr>) = json_safe X w"
  "json_safe X (w\<lparr>g_time_series := ts\<rparr>) = json_safe X w" "json_safe X (w\<lparr>g_hung := b\<rparr>) = json_safe X w"
  by (simp_all add: json_safe_def)

lemma fit_upd [fit_simps]:
  "fit X a b (w\<lparr>g_ext := l\<rparr>) = fit X a b w" "fit X a b (w\<lparr>g_files := fs\<rparr>) = fit X a b w"
  "fit X a b (w\<lparr>g_stack_heap := sh\<rparr>) = fit X a b w" "fit X a b (w\<lparr>g_addr_cache := ac\<rparr>) = fit X a b w"
  "fit X a b (w\<lparr>g_non_pie_cached := n\<rparr>) = fit X a b w" "fit X a b (w\<lparr>g_exe_path := ep\<rparr>) = fit X a b w"
  "fit X a b (w\<lparr>g_exec_ranges := er\<rparr>) = fit X a b w"
  "(\<And>s. s_bucket_locks (f s) = s_bucket_locks s) \<Longrightarrow> (\<And>s. s_buckets (f s) = s_buckets s) \<Longrightarrow> fit X a b (upd_state f w) = fit X a b w"
  "(\<And>r. r_scan_mutex (h r) = r_scan_mutex r) \<Longrightarrow> (\<And>r. r_cache_lock (h r) = r_cache_lock r) \<Longrightarrow>
     fit X a b (upd_reporter h w) = fit X a b w"
  by (simp_all add: fit_def fit_simps)

lemma fit_call [fit_simps]:
  "fit X a b w \<Longrightarrow> fit X a b (snd (call_malloc X n w))" "fit X a b w \<Longrightarrow> fit X a b (call_free X p w)"
  "fit X a b w \<Longrightarrow> fit X a b (free_block X p w)"
proof -
  show "fit X a b w \<Longrightarrow> fit X a b (snd (call_malloc X n w))"
    by (simp add: call_malloc_def fit_def case_prod_beta fit_simps)
  show f: "fit X a b w \<Longrightarrow> fit X a b (call_free X p w)" by (simp add: call_free_def fit_def fit_simps)
  then show "fit X a b w \<Longrightarrow> fit X a b (free_block X p w)" by (simp add: free_block_def)
qed

lemma fit_fold: "(\<And>x u. fit X a b u \<Longrightarrow> fit X a b (f x u)) \<Longrightarrow> fit X a b w \<Longrightarrow> fit X a b (fold f xs w)"
  by (induction xs arbitrary: w) simp_all

text \<open>Taking and giving back the two locks of the reporter.\<close>

lemma fit_locks:
  "fit X sm False w \<Longrightarrow> fit X sm True (cache_lock w)" "fit X sm True w \<Longrightarrow> fit X sm False (cache_unlock w)"
  "fit X False cl w \<Longrightarrow> fit X True cl (scan_lock w)" "fit X True cl w \<Longrightarrow> fit X False cl (scan_unlock w)"
  by (simp_all add: fit_def cache_lock_def cache_unlock_def scan_lock_def scan_unlock_def fit_simps)

section \<open>The stages\<close>

lemma fit_get_range [fit_simps]: "fit X a b w \<Longrightarrow> fit X a b (snd (snd (mtt_ts_get_range i n w)))"
  by (auto simp: mtt_ts_get_range_def Let_def fit_def fit_simps)

lemma fit_copy_points [fit_simps]: "fit X a b w \<Longrightarrow> (l \<Longrightarrow> \<not> b) \<Longrightarrow> fit X a b (copy_points X l pts w)"
  by (cases l) (simp_all add: copy_points_def Let_def case_prod_beta fit_simps fit_locks)

lemma fit_refresh_ts [fit_simps]: "fit X a b w \<Longrightarrow> (l \<Longrightarrow> \<not> b) \<Longrightarrow> fit X a b (refresh_ts_cache X l w)"
  by (simp add: refresh_ts_cache_def Let_def case_prod_beta fit_simps)

lemma fit_validate_refresh [fit_simps]: "fit X a b w \<Longrightarrow> fit X a b (mtt_addr_validate_refresh X w)"
  by (simp add: mtt_addr_validate_refresh_def parse_maps_locked_def fit_simps split: option.splits)

lemma fit_snap_alloc [fit_simps]: "fit X a b w \<Longrightarrow> fit X a b (snd (snd (snap_alloc X n w)))"
proof (induction X n w rule: snap_alloc.induct)
  case (1 X n w)
  obtain p u where m: "call_malloc X (n * sizeof_mtt_alloc_snap) w = (p, u)" by fastforce
  have "fit X a b u" using fit_call(1) [OF 1(2), of "n * sizeof_mtt_alloc_snap"] m by simp
  moreover have "p = NULL \<Longrightarrow> 1024 \<le> n div 2 \<Longrightarrow> fit X a b (snd (snd (snap_alloc X (n div 2) u)))"
    using 1(1) [OF m [symmetric]] calculation by simp
  ultimately show ?case using m by (subst snap_alloc.simps) simp
qed

lemma fit_snapshot [fit_simps]:
  assumes "fit X a b w"
  shows "fit X a b (snd (scan_snapshot X w))"
proof -
  let ?u = "snd (snd (snap_alloc X (s_entry_count (g_state w)) w))"
  have u: "fit X a b ?u" by (rule fit_snap_alloc [OF assms])
  then obtain bk where bk: "s_buckets (g_state ?u) = Some bk" and l: "\<forall>i. \<not> s_bucket_locks (g_state ?u) i"
    by (auto simp: fit_def)
  show ?thesis
    using assms u bk by (simp add: scan_snapshot_def Let_def case_prod_beta snap_locks_frame [OF l])
qed

lemma fit_locate_frame [fit_simps]: "fit X a b w \<Longrightarrow> fit X a b (snd (locate_frame X p w))"
proof -
  have n: "fit X a b (snd (main_is_non_pie X u)) = fit X a b u" for u :: "'a world"
    by (simp add: main_is_non_pie_def Let_def fit_simps split: option.splits)
  have p: "fit X a b (snd (is_main_exe_path X f u)) = fit X a b u" for f and u :: "'a world"
    by (simp add: is_main_exe_path_def fit_simps split: option.splits)
  show "fit X a b w \<Longrightarrow> fit X a b (snd (locate_frame X p w))"
    by (simp add: locate_frame_def frame_addr2line_addr_def Let_def case_prod_beta n p split: option.splits prod.splits)
qed

lemma fit_resolve_into [fit_simps]: "fit X a b w \<Longrightarrow> fit X a b (resolve_into X e i w)"
proof -
  have "fit X a b w \<Longrightarrow> fit X a b (snd (resolve_one_frame X p n w))" for p n
    by (simp add: resolve_one_frame_def addr_cache_insert_def Let_def case_prod_beta fit_simps split: option.splits)
  then show "fit X a b w \<Longrightarrow> fit X a b (resolve_into X e i w)"
    by (simp add: resolve_into_alt Let_def fit_simps split: option.splits)
qed

lemma fit_stack_resolve [fit_simps]: "fit X a b w \<Longrightarrow> fit X a b (mtt_stack_resolve X e w)"
  by (simp add: mtt_stack_resolve_def Let_def fit_simps fit_fold)

lemma fit_stack_lookup [fit_simps]: "fit X a b w \<Longrightarrow> fit X a b (snd (mtt_stack_cache_lookup X fs n w))"
  by (simp add: mtt_stack_cache_lookup_def sc_lock_set_def Let_def case_prod_beta call_malloc_def fit_def fit_simps
      split: option.splits)

lemma fit_scan_hash [fit_simps]: "fit X a b w \<Longrightarrow> fit X a b (snd (scan_hash X sn w))"
  by (simp add: scan_hash_def Let_def case_prod_beta fit_simps)

lemma fit_dedup_all [fit_simps]: "fit X a b w \<Longrightarrow> fit X a b (snd (dedup_all X now sns w))"
proof -
  have s: "fit X a b (snd tw) \<Longrightarrow> fit X a b (snd (dedup_snap X now sn tw))" for sn tw
    by (simp add: dedup_snap_def Let_def case_prod_beta fit_simps)
  have "fit X a b (snd tw) \<Longrightarrow> fit X a b (snd (fold (dedup_snap X now) sns tw))" for tw
    by (induction sns arbitrary: tw) (simp_all add: s)
  then show "fit X a b w \<Longrightarrow> fit X a b (snd (dedup_all X now sns w))" by (simp add: dedup_all_def)
qed

lemma fit_stages [fit_simps]:
  "fit X a b w \<Longrightarrow> fit X a b (resolve_sites X sns t w)" "fit X a b w \<Longrightarrow> fit X a b (snd (snd (sort_sites X t w)))"
  "fit X a b w \<Longrightarrow> fit X a b (snd (collect_pairs X sns arr w))"
  "fit X a b w \<Longrightarrow> fit X a b (store_leak_total t w)" "fit X a b w \<Longrightarrow> fit X a b (store_expired arr w)"
proof -
  have "fit X a b u \<Longrightarrow> fit X a b (resolve_site X sns x u)" for x u
    by (simp add: resolve_site_def Let_def case_prod_beta fit_simps split: option.splits)
  then show "fit X a b w \<Longrightarrow> fit X a b (resolve_sites X sns t w)" by (simp add: resolve_sites_def fit_fold)
  show "fit X a b w \<Longrightarrow> fit X a b (snd (snd (sort_sites X t w)))"
    by (simp add: sort_sites_def Let_def case_prod_beta fit_simps)
  have "fit X a b u \<Longrightarrow> fit X a b (snd (pair_sites X sns xs u))" for xs u
    by (induction xs arbitrary: u) (auto simp: Let_def case_prod_beta fit_simps split: option.splits)
  then show "fit X a b w \<Longrightarrow> fit X a b (snd (collect_pairs X sns arr w))"
    by (simp add: collect_pairs_def Let_def case_prod_beta fit_simps split: option.splits)
  show "fit X a b w \<Longrightarrow> fit X a b (store_leak_total t w)" "fit X a b w \<Longrightarrow> fit X a b (store_expired arr w)"
    by (simp_all add: store_leak_total_def store_expired_def fit_simps)
qed

text \<open>Writing the JSON file without the array of sites is the one step that needs the memory.\<close>

lemma fit_write_json:
  assumes "fit X a b w" "(\<forall>l n. fst (x_malloc X l n) \<noteq> NULL) \<Longrightarrow> sites = None \<Longrightarrow> n = 0"
  shows "fit X a b (write_json X now sites n w)"
proof -
  define u where "u = (if g_json_checked w then w
    else w\<lparr>g_json_path := x_getenv X ''MTT_REPORT_FILE'', g_json_checked := True\<rparr>)"
  have u: "fit X a b u" using assms(1) by (auto simp: u_def fit_def json_safe_def split: if_splits)
  have f: "fit X a b (snd (rename_file X f g (write_file f t u)))" for f g t
    using u by (simp add: rename_file_def write_file_def fit_simps)
  show ?thesis
  proof (cases "g_json_path u \<in> {None, Some []}")
    case True
    then have "write_json X now sites n w = u"
      by (auto simp: write_json_def u_def [symmetric] Let_def split: option.splits)
    then show ?thesis using u by simp
  next
    case False
    have "json_safe X u" "g_json_checked u" using u by (simp_all add: fit_def u_def)
    then have "\<forall>l n. fst (x_malloc X l n) \<noteq> NULL" using False by (auto simp: json_safe_def)
    with assms(2) have "sites = None \<Longrightarrow> n = 0" by blast
    then show ?thesis
      using u f by (simp add: write_json_def u_def [symmetric] Let_def split: option.splits)
  qed
qed

lemma fit_write_reports:
  assumes "fit X a b w" "(\<forall>l n. fst (x_malloc X l n) \<noteq> NULL) \<Longrightarrow> sites = None \<Longrightarrow> n = 0"
  shows "fit X a b (snd (write_reports X now k n sites es w))"
proof -
  have g: "fit X a b (mtt_flamegraph_write X d nm ss ps u)" if "fit X a b u" for d nm ss ps and u :: "'a world"
    using that by (simp add: mtt_flamegraph_write_def Let_def fit_simps split: option.splits)
  have r: "fit X a b (snd (rename_file X f h (write_file f t u)))" if "fit X a b u" for f h t and u :: "'a world"
    using that by (simp add: rename_file_def write_file_def fit_simps)
  show ?thesis
    unfolding write_reports_def Let_def case_prod_beta
    using assms by (auto simp: fit_simps intro!: fit_write_json g r)
qed

lemma fit_save_diff [fit_simps]: "fit X a b w \<Longrightarrow> fit X a b (save_diff X now ss w)"
  by (simp add: save_diff_def Let_def case_prod_beta fit_simps split: option.splits)

lemma fit_http_cache [fit_simps]:
  assumes "fit X sm False w"
  shows "fit X sm False (update_http_cache X sites pairs w)"
proof -
  have c: "fit X a b u \<Longrightarrow> fit X a b (free_copy X x u)" for a b x and u :: "'a world"
    by (simp add: free_copy_def fit_simps split: option.splits prod.splits)
  have s: "fit X a b u \<Longrightarrow> fit X a b (free_cached_sites X u)" "fit X a b u \<Longrightarrow> fit X a b (free_cached_pairs X u)"
    for a b and u :: "'a world"
    by (simp_all add: free_cached_sites_def free_cached_pairs_def Let_def c fit_fold fit_simps split: option.splits prod.splits)
  have k: "fit X a b u \<Longrightarrow> fit X a b (snd (copy_sites X ss u))" for a b ss and u :: "'a world"
    by (induction ss arbitrary: u) (simp_all add: Let_def case_prod_beta fit_simps)
  have d: "fit X a b u \<Longrightarrow> fit X a b (cache_sites X sites u)" "fit X a b u \<Longrightarrow> fit X a b (cache_pairs X pairs u)"
    for a b and u :: "'a world"
    by (simp_all add: cache_sites_def cache_pairs_def Let_def case_prod_beta k fit_simps split: option.splits)
  show ?thesis
    unfolding update_http_cache_def Let_def
    by (intro fit_locks(2) fit_refresh_ts d s fit_locks(1) assms) simp
qed

lemma fit_cleanup [fit_simps]: "fit X a b w \<Longrightarrow> fit X a b (scan_cleanup X blk arr ps t w)"
  by (simp add: scan_cleanup_def Let_def case_prod_beta fit_simps fit_fold)

lemma sorted_granted:
  assumes "\<forall>l n. fst (x_malloc X l n) \<noteq> NULL" "raw_malloc w = F_LIBC" "sort_sites X t w = (None, n, w')"
  shows "n = 0"
  using assms by (auto simp: sort_sites_def call_malloc_def Let_def case_prod_beta split: if_splits)

section \<open>A scan\<close>

lemma fit_scan_some:
  assumes sn: "scan_snapshot X (before_snapshot X w) = (Some (block, snaps), v)" and "s_initialized (g_state w)"
    and v: "fit X True False v"
  shows "fit X True False (scan_and_report_locked X w)"
proof -
  obtain t v1 where d: "dedup_all X (g_time w) snaps v = (t, v1)" by fastforce
  have v1: "fit X True False v1" using fit_dedup_all [OF v, of "g_time w" snaps] d by simp
  define r where "r = resolve_sites X snaps t (store_leak_total t v1)"
  have r: "fit X True False r" using v1 by (simp add: r_def fit_simps)
  obtain arr n v2 where st: "sort_sites X t r = (arr, n, v2)" by (metis prod.collapse)
  have v2: "fit X True False v2" using fit_stages(2) [OF r, of t] st by simp
  define ord where "ord = map_option (map_prod id (map (set_diff (r_prev_diff (g_reporter v2))))) arr"
  define sites where "sites = map_option (map snd \<circ> snd) ord"
  have none: "n = 0" if "\<forall>l n. fst (x_malloc X l n) \<noteq> NULL" "sites = None"
    using sorted_granted [OF that(1), of r t n v2] that(2) r st by (simp add: sites_def ord_def fit_def)
  obtain prs v3 where c: "collect_pairs X snaps ord (store_expired ord v2) = (prs, v3)" by fastforce
  have v3: "fit X True False v3" using fit_stages(3) [OF fit_stages(5) [OF v2], of snaps ord ord] c by simp
  obtain opened v4 where wr: "write_reports X (g_time w) (length snaps) n sites (map_option (map snd \<circ> snd) prs) v3 = (opened, v4)"
    by fastforce
  have "fit X True False (snd (write_reports X (g_time w) (length snaps) n sites (map_option (map snd \<circ> snd) prs) v3))"
    by (rule fit_write_reports [OF v3 none])
  then have v4: "fit X True False v4" by (simp only: wr snd_conv)
  have "scan_and_report_locked X w = scan_cleanup X block ord prs t
      (if opened then update_http_cache X sites (map_option snd prs) (save_diff X (g_time w) sites v4) else v4)"
    using assms(2) sn d st c wr
    by (simp add: scan_and_report_locked_def before_snapshot_def [symmetric] Let_def ord_def [symmetric]
        sites_def [symmetric] r_def [symmetric])
  then show ?thesis using v4 by (simp add: fit_simps)
qed

lemma fit_scan_locked:
  assumes "fit X True False w"
  shows "fit X True False (scan_and_report_locked X w)"
proof -
  have "fit X True False (before_snapshot X w)" using assms by (simp add: before_snapshot_def fit_simps)
  note fs = fit_snapshot [OF this]
  consider "\<not> s_initialized (g_state w)" | v where "s_initialized (g_state w)" "scan_snapshot X (before_snapshot X w) = (None, v)"
    | block snaps v where "s_initialized (g_state w)" "scan_snapshot X (before_snapshot X w) = (Some (block, snaps), v)"
    by (metis option.exhaust prod.collapse)
  then show ?thesis
  proof cases
    case 3
    then show ?thesis using fit_scan_some fs by (metis snd_conv)
  qed (use assms fs in \<open>simp_all add: scan_and_report_locked_def before_snapshot_def [symmetric]\<close>)
qed

lemma fit_scan [fit_simps]: "fit X False False w \<Longrightarrow> fit X False False (scan_and_report X w)"
  unfolding scan_and_report_def by (intro fit_locks(4) fit_scan_locked fit_locks(3))

section \<open>The reporter thread\<close>

lemma record_point_running [simp]: "g_reporter (mtt_ts_record_point X w) = g_reporter w"
  by (simp add: mtt_ts_record_point_def Let_def)

lemma fit_record_point [fit_simps]: "fit X a b w \<Longrightarrow> fit X a b (mtt_ts_record_point Y w)"
  by (simp add: mtt_ts_record_point_def ts_write_def fit_def fit_simps Let_def)

lemma fit_heartbeat [fit_simps]: "fit X a b w \<Longrightarrow> fit X a b (mtt_heartbeat_write Y w)"
  by (simp add: mtt_heartbeat_write_def write_file_def Let_def fit_simps)

text \<open>Other threads leave the locks as they find them: what they hold they hold between two steps of theirs.\<close>

definition polite :: "'l ext \<Rightarrow> ('l world \<Rightarrow> 'l world) \<Rightarrow> bool" where
  "polite X env \<longleftrightarrow> (\<forall>v. fit X False False v \<longrightarrow> fit X False False (env v))"

text \<open>A sleep with a stop among the steps to come: the thread wakes, with the stop still to come or in force.\<close>

lemma sleep_with_stop:
  assumes "\<And>v. \<not> r_running (g_reporter (stop v))" "list_all (polite X) (as @ [stop])" "fit X False False w"
  shows "\<exists>es u. reporter_sleep X k (as @ stop # bs) w = (False, es, u) \<and> fit X False False u \<and>
    ((\<exists>as'. es = as' @ stop # bs \<and> list_all (polite X) as') \<or> \<not> r_running (g_reporter u))"
  using assms(2,3)
proof (induction k arbitrary: as w)
  case (Suc k)
  define f where "f = (if as = [] then stop else hd as)"
  define v where "v = upd_state (\<lambda>s. s\<lparr>s_peak_updated := False\<rparr>) (mtt_ts_record_point X (f w))"
  have "polite X f" using Suc.prems(1) by (cases as) (simp_all add: f_def)
  then have v: "fit X False False v" using Suc.prems(2) by (simp add: v_def polite_def fit_simps)
  have rest: "as @ stop # bs = f # (if as = [] then bs else tl as @ stop # bs)" by (cases as) (simp_all add: f_def)
  define more where "more = (if as = [] then bs else tl as @ stop # bs)"
  let ?peak = "s_peak_updated (g_state (mtt_ts_record_point X (f w)))"
  have eq: "reporter_sleep X (Suc k) (as @ stop # bs) w =
      (if r_running (g_reporter w) then if ?peak then (False, more, v) else reporter_sleep X k more v
       else (False, as @ stop # bs, w))"
    unfolding rest more_def [symmetric] by (simp add: Let_def v_def)
  have keep: "list_all (polite X) as" using Suc.prems(1) by simp
  show ?case
  proof (cases "as = []")
    case True
    then have nr: "\<not> r_running (g_reporter v)" using assms(1) by (simp add: v_def f_def)
    then have "reporter_sleep X k more v = (False, more, v)" by (cases k) simp_all
    then show ?thesis unfolding eq using nr v Suc.prems(2) keep by auto
  next
    case False
    then have m: "more = tl as @ stop # bs" "list_all (polite X) (tl as @ [stop])" "list_all (polite X) (tl as)"
      using Suc.prems(1) by (cases as; simp add: more_def)+
    show ?thesis unfolding eq using Suc.IH [OF m(2) v] m(1,3) v Suc.prems(2) keep by auto
  qed
qed auto

text \<open>C38. The reporter thread stops when told: from a state in which a scan can pass (the allocator pointers set,
  a table of buckets, and none of the scan mutex, the locks of the copies, of the sample ring and of the
  stack cache and the stripe locks held), with other threads that leave these locks free at the seconds at
  which the reporter wakes, if at any second of any sleep one of them clears the flag that keeps the
  reporter running, then the loop ends, after one last scan made with the flag cleared; neither that scan nor any
  before it blocks, and all the locks are free again. If a JSON file is asked for, the C library has memory.\<close>

theorem reporter_stops:
  assumes "\<And>v. \<not> r_running (g_reporter (stop v))" "list_all (polite X) (as @ [stop])" "fit X False False w"
  shows "\<exists>u. reporter_loop X (as @ stop # bs) w = (True, scan_and_report X u) \<and> \<not> r_running (g_reporter u) \<and>
    \<not> g_hung (scan_and_report X u) \<and> fit X False False (scan_and_report X u)"
  using assms(2,3)
proof (induction X "as @ stop # bs" w arbitrary: as rule: reporter_loop.induct)
  case (1 X w)
  have last: "\<not> g_hung (scan_and_report X u) \<and> fit X False False (scan_and_report X u)" if "fit X False False u" for u
    using fit_scan [OF that] by (simp add: fit_def)
  show ?case
  proof (cases "r_running (g_reporter w)")
    case True
    obtain es u where sl: "reporter_sleep X MTT_REPORT_INTERVAL_SEC (as @ stop # bs) w = (False, es, u)"
      and u: "fit X False False u"
      and es: "(\<exists>as'. es = as' @ stop # bs \<and> list_all (polite X) as') \<or> \<not> r_running (g_reporter u)"
      using sleep_with_stop [where stop = stop, OF assms(1) 1(2,3)] by blast
    note step = reporter_loop.simps [of X "as @ stop # bs" w]
    show ?thesis
    proof (cases "r_running (g_reporter u)")
      case running: True
      then obtain as' where as': "es = as' @ stop # bs" "list_all (polite X) (as' @ [stop])" using es 1(2) by auto
      have "fit X False False (mtt_heartbeat_write X (scan_and_report X u))" using u by (simp add: fit_simps)
      from 1(1) [OF True sl [symmetric] refl _ _ as'(2)] as'(1) running this show ?thesis
        using True step sl by auto
    next
      case False
      then show ?thesis using step sl True last [OF u] reporter_loop.simps [of X es u] by auto
    qed
  next
    case False
    then show ?thesis using last [OF 1(3)] by (auto simp: reporter_loop.simps [of X _ w])
  qed
qed

definition reporting_world :: "ptr world" where
  "reporting_world = upd_reporter (\<lambda>r. r\<lparr>r_running := True\<rparr>) (counted_world\<lparr>raw_free := F_LIBC\<rparr>)"

lemma reporting_fit: "fit roomy_ext False False reporting_world"
proof -
  have b: "s_buckets (g_state (held_world\<lparr>raw_malloc := F_LIBC\<rparr>)) = Some (\<lambda>_. NULL)" by (simp add: held_world_def)
  have n: "(0x9000 :: ptr) \<noteq> NULL" by simp
  show ?thesis
    using one_record(4) roomy_malloc
    unfolding reporting_world_def counted_world_def fit_def json_safe_def one_record_world_def entry_add_eq [OF b n]
    by (simp add: Let_def held_world_def zero_state_def demo_world_def)
qed

theorem reporter_stops_witness:
  "\<exists>u. reporter_loop roomy_ext [id, mtt_reporter_stop, id] reporting_world = (True, scan_and_report roomy_ext u) \<and>
     \<not> g_hung (scan_and_report roomy_ext u)"
proof -
  have "polite roomy_ext mtt_reporter_stop" by (simp add: polite_def mtt_reporter_stop_def fit_def json_upd)
  then have "list_all (polite roomy_ext) ([id] @ [mtt_reporter_stop])" by (simp add: polite_def)
  from reporter_stops [OF _ this reporting_fit, of "[id]"] show ?thesis by (auto simp: mtt_reporter_stop_def)
qed

end
