(* ===== verification/Http_Server.thy ===== *)
theory Http_Server
  imports Scan_Effect
begin

text \<open>
  The dashboard of \<^verbatim>\<open>http_server.c\<close>: JSON strings and objects, the three pages, the parsing of a
  request and the thread that serves them. A response is the string of the bytes handed to \<open>write\<close>;
  the HTML page, a constant of the source, is an argument. What a client sends and what
  \<open>poll\<close>, \<open>accept\<close> and \<open>recv\<close> return in a round are the values of a list.
\<close>

section \<open>JSON\<close>

definition quote_char :: char where "quote_char = CHR 0x22"
definition backslash :: char where "backslash = CHR 0x5C"

definition json_char :: "char \<Rightarrow> string" where
  "json_char c =
     (if c = quote_char \<or> c = backslash then [backslash, c]
      else if (of_char c :: nat) < 0x20 then [backslash, CHR ''u''] @ zero_pad 4 (hex_string (of_char c))
      else [c])"

definition json_escape :: "string \<Rightarrow> string" where
  "json_escape str = concat (map json_char str)"

definition write_json_string :: "string \<Rightarrow> string" where
  "write_json_string str = quote_char # json_escape str @ [quote_char]"

text \<open>
  The frames of a site. A stack that is not resolved yet is resolved first; then come the frames that
  are not the tracer's own, else, from the second on, all frames marked as internal.
\<close>

definition int_frame :: "string \<Rightarrow> ptr \<Rightarrow> string" where
  "int_frame raw_sym frame =
     quote_char # ''[INT] '' @
     (if raw_sym \<noteq> [] then json_escape raw_sym else copy_trunc 4096 (''0x'' @ hex_string (unat frame))) @ [quote_char]"

definition leak_frames :: "stack_entry \<Rightarrow> string list" where
  "leak_frames e =
     (let texts = frame_texts e;
          items = (if k_is_resolved e then map write_json_string (filter (\<lambda>t. \<not> own_frame t) texts) else []);
          items = (if items = [] \<and> k_frame_count e > 0
                   then map write_json_string (filter (\<lambda>t. \<not> own_frame t) (tl texts)) else items)
      in if items = [] \<and> k_frame_count e > 1 then map2 int_frame (tl texts) (tl (k_frames e)) else items)"

definition leak_head :: "leak_site \<Rightarrow> string" where
  "leak_head site = copy_trunc 4096
     (''{\"hash\":\"0x'' @ hex_string (unat (l_stack_hash site)) @ ''\",\"count\":'' @ dec_string (unat (l_count site)) @
      '',\"per_leak_size\":'' @ dec_string (unat (l_per_leak_size site)) @
      '',\"total_size\":'' @ dec_string (unat (l_total_size site)) @
      '',\"diff_size\":'' @ dec_string (unat (l_diff_size site)) @
      '',\"is_expired\":'' @ (if l_is_expired site then ''1'' else ''0'') @
      '',\"first_seen\":'' @ int_string (l_first_seen site) @
      '',\"last_seen\":'' @ int_string (l_last_seen site) @ '',\"stack\":['')"

definition leak_object :: "'l world \<Rightarrow> leak_site \<Rightarrow> ptr \<Rightarrow> string" where
  "leak_object w site se =
     leak_head site @ (if se = NULL then [] else join (CHR '','') (leak_frames (g_stack_heap w se))) @ '']}''"

definition write_leak_json :: "'l ext \<Rightarrow> leak_site option \<Rightarrow> ptr \<Rightarrow> 'l world \<Rightarrow> string \<times> 'l world" where
  "write_leak_json X site se w =
     (case site of
        None \<Rightarrow> (''{}'', w)
      | Some site \<Rightarrow>
          let w = (if se \<noteq> NULL \<and> \<not> k_is_resolved (g_stack_heap w se) then mtt_stack_resolve X se w else w)
          in (leak_object w site se, w))"

section \<open>Pages\<close>

definition crlf :: string where "crlf = [CHR 0x0D, CHR 0x0A]"

definition ok_header :: "string \<Rightarrow> string" where
  "ok_header content_type =
     ''HTTP/1.0 200 OK'' @ crlf @ ''Content-Type: '' @ content_type @ ''; charset=utf-8'' @ crlf @
     ''Cache-Control: no-store, no-cache, max-age=0'' @ crlf @ ''Connection: close'' @ crlf @ crlf"

definition handle_root :: "string \<Rightarrow> string" where
  "handle_root html = ok_header ''text/html'' @ html"

text \<open>The entry of the pair whose site is a copy, by its address.\<close>

definition stack_of_copy :: "(ptr \<times> (ptr \<times> ptr) list) option \<Rightarrow> nat \<Rightarrow> ptr \<Rightarrow> ptr" where
  "stack_of_copy pairs site_count p =
     (case pairs of
        None \<Rightarrow> NULL
      | Some (_, ps) \<Rightarrow>
          (case List.find (\<lambda>(site, _). site = p) (take site_count ps) of None \<Rightarrow> NULL | Some (_, se) \<Rightarrow> se))"

fun leak_items :: "'l ext \<Rightarrow> (ptr \<Rightarrow> ptr) \<Rightarrow> (ptr \<times> leak_site) option list \<Rightarrow> 'l world \<Rightarrow> string list \<times> 'l world" where
  "leak_items X stack_of [] w = ([], w)"
| "leak_items X stack_of (None # copies) w = leak_items X stack_of copies w"
| "leak_items X stack_of (Some (p, site) # copies) w =
     (let (item, w) = write_leak_json X (Some site) (stack_of p) w;
          (items, w) = leak_items X stack_of copies w
      in (item # items, w))"

text \<open>The list of sites under the cache lock. A count beyond the end of an array would be read out of bounds.\<close>

definition leak_list :: "'l ext \<Rightarrow> 'l world \<Rightarrow> string \<times> 'l world" where
  "leak_list X w =
     (let w = cache_lock w; rep = g_reporter w; n = r_cached_site_count rep;
          (items, w) =
            (case r_cached_sites rep of
               None \<Rightarrow> ([], w)
             | Some (_, copies) \<Rightarrow>
                 if length copies < n \<or> (case r_cached_pairs rep of None \<Rightarrow> False | Some (_, ps) \<Rightarrow> length ps < n)
                 then ([], w\<lparr>g_hung := True\<rparr>)
                 else leak_items X (stack_of_copy (r_cached_pairs rep) n) (take n copies) w)
      in (join (CHR '','') items, cache_unlock w))"

definition handle_api_leaks :: "'l ext \<Rightarrow> 'l world \<Rightarrow> string \<times> 'l world" where
  "handle_api_leaks X w =
     (let (leaks, w) = leak_list X w
      in (ok_header ''application/json'' @ ''{\"leaks\":['' @ leaks @ '']}'', w))"

definition point_object :: "ts_point \<Rightarrow> string" where
  "point_object pt = copy_trunc 8192
     (''{\"ts\":'' @ int_string (p_timestamp pt) @ '',\"cur\":'' @ dec_string (unat (p_current_bytes pt)) @
      '',\"peak\":'' @ dec_string (unat (p_peak_bytes pt)) @ '',\"allocs\":'' @ dec_string (unat (p_alloc_count pt)) @
      '',\"frees\":'' @ dec_string (unat (p_free_count pt)) @ '',\"entries\":'' @ dec_string (unat (p_entry_count pt)) @
      '',\"rss\":'' @ dec_string (unat (p_rss_bytes pt)) @ '',\"leak\":'' @ dec_string (unat (p_leak_bytes pt)) @
      '',\"talloc\":'' @ dec_string (unat (p_total_alloc_bytes pt)) @ ''}'')"

definition series_list :: "'l ext \<Rightarrow> 'l world \<Rightarrow> string \<times> 'l world" where
  "series_list X w =
     (if mtt_ts_is_ready w \<and> raw_malloc w \<noteq> F_NULL then
        let (ts_buf, w) = call_malloc X (360 * sizeof_ts_point) w
        in if ts_buf = NULL then ([], w)
           else
             let (_, pts, w) = mtt_ts_get_range 0 360 w
             in (join (CHR '','') (map point_object (filter (\<lambda>pt. p_timestamp pt \<noteq> 0) pts)), call_free X ts_buf w)
      else ([], w))"

definition stats_object :: "mtt_state \<Rightarrow> int \<Rightarrow> int \<Rightarrow> size_t \<Rightarrow> string" where
  "stats_object s session_ts now rss =
     (let allocs = s_alloc_count s; frees = s_free_count s;
          leak_count = (if allocs > frees then allocs - frees else 0)
      in copy_trunc 8192
        ('',\"session_start\":'' @ int_string session_ts @ '',\"last_scan\":'' @ int_string now @
         '',\"stats\":{\"current_bytes\":'' @ dec_string (unat (s_current_bytes s)) @
         '',\"peak_bytes\":'' @ dec_string (unat (s_peak_bytes s)) @ '',\"alloc_count\":'' @ dec_string (unat allocs) @
         '',\"free_count\":'' @ dec_string (unat frees) @ '',\"leak_count\":'' @ dec_string (unat leak_count) @
         '',\"total_allocated\":'' @ dec_string (unat (s_total_bytes s)) @
         '',\"rss_bytes\":'' @ dec_string (unat rss) @
         ''},\"pool\":{\"used\":'' @ dec_string (unat (s_pool_used s)) @
         '',\"capacity\":'' @ dec_string (unat (s_pool_capacity s)) @
         '',\"bytes_used\":'' @ dec_string (unat (s_pool_used s * sizeof_mtt_entry)) @
         '',\"bytes_total\":'' @ dec_string (unat (s_pool_raw_size s)) @
         '',\"mode\":'' @ int_string (pool_mode_code (s_pool_mode s)) @ ''}''))"

text \<open>The memory in use by the process is read only by a thread that has a slot.\<close>

definition handle_api_data :: "'l ext \<Rightarrow> int \<Rightarrow> 'l world \<Rightarrow> string \<times> 'l world" where
  "handle_api_data X tid w =
     (let (ctx, w) = mtt_thread_get X tid w;
          s = g_state w;
          rss = (case ctx of None \<Rightarrow> 0 | Some _ \<Rightarrow> rss_bytes X w);
          start = copy_trunc 8192 (''{\"pid\":'' @ int_string (x_getpid X (g_ext w)) @ '',\"proc_name\":'');
          stats = stats_object s (r_session_start (g_reporter w)) (g_time w) rss;
          (points, w) = series_list X w;
          (leaks, w) = leak_list X w
      in (ok_header ''application/json'' @ start @ write_json_string (report_proc_name s) @ stats @
          '',\"time_series\":['' @ points @ ''],\"leaks\":['' @ leaks @ '']}'', w))"

definition handle_404 :: string where
  "handle_404 =
     (let body = ''{\"error\":\"not found\"}''
      in copy_trunc 256 (''HTTP/1.0 404 Not Found'' @ crlf @ ''Content-Type: application/json'' @ crlf @
           ''Content-Length: '' @ dec_string (length body) @ crlf @ ''Connection: close'' @ crlf @ crlf) @ body)"

section \<open>Requests\<close>

definition parse_request :: "string \<Rightarrow> nat \<Rightarrow> string option" where
  "parse_request req maxlen =
     (if maxlen = 0 \<or> \<not> starts_with ''GET '' req then None
      else
        let start = drop 4 req
        in case strchr start (CHR '' '') of
             None \<Rightarrow> None
           | Some len \<Rightarrow> Some (take (if len \<ge> maxlen then maxlen - 1 else len) start))"

text \<open>The first line of the received bytes, which a NUL ends too.\<close>

definition request_line :: "string \<Rightarrow> string" where
  "request_line received =
     (let req_buf = takeWhile (\<lambda>c. c \<noteq> CHR 0x00) received
      in case strstr req_buf crlf of None \<Rightarrow> req_buf | Some i \<Rightarrow> take i req_buf)"

datatype page = Page_root | Page_data | Page_leaks | Page_404

definition route :: "string \<Rightarrow> page" where
  "route received =
     (case parse_request (request_line received) MTT_HTTP_MAX_PATH of
        None \<Rightarrow> Page_404
      | Some p \<Rightarrow>
          if p = ''/'' then Page_root
          else if p = ''/api/data'' then Page_data
          else if p = ''/api/leaks'' then Page_leaks
          else Page_404)"

definition respond :: "'l ext \<Rightarrow> string \<Rightarrow> int \<Rightarrow> string \<Rightarrow> 'l world \<Rightarrow> string \<times> 'l world" where
  "respond X html tid received w =
     (case route received of
        Page_root \<Rightarrow> (handle_root html, w)
      | Page_data \<Rightarrow> handle_api_data X tid w
      | Page_leaks \<Rightarrow> handle_api_leaks X w
      | Page_404 \<Rightarrow> (handle_404, w))"

text \<open>What \<open>recv\<close> returns, tried again at most three times while it says so.\<close>

datatype received = Recv_again | Recv_error | Recv_data string

fun recv_retry :: "nat \<Rightarrow> (nat \<Rightarrow> received) \<Rightarrow> nat \<Rightarrow> received" where
  "recv_retry 0 results i = results i"
| "recv_retry (Suc retries) results i =
     (case results i of Recv_again \<Rightarrow> recv_retry retries results (Suc i) | r \<Rightarrow> r)"

definition recv_request :: "(nat \<Rightarrow> received) \<Rightarrow> string option" where
  "recv_request results =
     (case recv_retry 3 results 0 of
        Recv_data bytes \<Rightarrow> if bytes = [] then None else Some (take (MTT_HTTP_BUF_SIZE - 1) bytes)
      | _ \<Rightarrow> None)"

text \<open>
  The rounds of the thread: an interrupted or empty wait goes on, another failure of \<open>poll\<close> or
  \<open>accept\<close> ends it, a client is served and closed. The result says whether the thread
  has ended, and what it sent to each client.
\<close>

datatype http_event = Wait_again | Wait_failed | Client "nat \<Rightarrow> received"

fun http_loop ::
  "'l ext \<Rightarrow> string \<Rightarrow> int \<Rightarrow> (('l world \<Rightarrow> 'l world) \<times> http_event) list \<Rightarrow> 'l world \<Rightarrow> bool \<times> string list \<times> 'l world" where
  "http_loop X html tid [] w = (\<not> h_running (g_http_server w), [], w)"
| "http_loop X html tid ((env, event) # rounds) w =
     (if \<not> h_running (g_http_server w) then (True, [], w)
      else
        let w = env w
        in case event of
             Wait_again \<Rightarrow> http_loop X html tid rounds w
           | Wait_failed \<Rightarrow> (True, [], w)
           | Client results \<Rightarrow>
               let (sent, w) =
                     (case recv_request results of
                        None \<Rightarrow> ([], w)
                      | Some bytes \<Rightarrow> respond X html tid bytes w);
                   (ended, texts, w) = http_loop X html tid rounds w
               in (ended, sent # texts, w))"

definition http_thread_fn ::
  "'l ext \<Rightarrow> string \<Rightarrow> int \<Rightarrow> (('l world \<Rightarrow> 'l world) \<times> http_event) list \<Rightarrow> 'l world \<Rightarrow> bool \<times> string list \<times> 'l world" where
  "http_thread_fn X html tid rounds w =
     (let (ctx, w) = mtt_thread_get X tid w
      in http_loop X html tid rounds
           (case ctx of None \<Rightarrow> w | Some i \<Rightarrow> upd_slot i (\<lambda>t. t\<lparr>t_tool_internal := 1\<rparr>) w))"

section \<open>JSON strings are read back\<close>

text \<open>
  A reader of the string syntax of RFC 8259 over bytes, for code points below 256: after the opening
  quote, no control character may stand for itself, and a backslash begins an escape.
\<close>

definition json_simple_escape :: "char \<Rightarrow> char option" where
  "json_simple_escape c =
     (if c \<in> {quote_char, backslash, CHR ''/''} then Some c
      else if c = CHR ''b'' then Some (CHR 0x08)
      else if c = CHR ''f'' then Some (CHR 0x0C)
      else if c = CHR ''n'' then Some (CHR 0x0A)
      else if c = CHR ''r'' then Some (CHR 0x0D)
      else if c = CHR ''t'' then Some (CHR 0x09)
      else None)"

fun json_chars :: "string \<Rightarrow> (string \<times> string) option" where
  "json_chars [] = None"
| "json_chars (c # cs) =
     (if c = quote_char then Some ([], cs)
      else if c = backslash then
        (case cs of
           [] \<Rightarrow> None
         | e # ds \<Rightarrow>
             if e = CHR ''u'' then
               (if length ds < 4 \<or> \<not> list_all is_hex (take 4 ds) \<or> hex_value (take 4 ds) \<ge> 256 then None
                else map_option (apfst (Cons (char_of (hex_value (take 4 ds))))) (json_chars (drop 4 ds)))
             else
               (case json_simple_escape e of
                  None \<Rightarrow> None
                | Some d \<Rightarrow> map_option (apfst (Cons d)) (json_chars ds)))
      else if (of_char c :: nat) < 0x20 then None
      else map_option (apfst (Cons c)) (json_chars cs))"

definition json_string :: "string \<Rightarrow> (string \<times> string) option" where
  "json_string txt = (case txt of c # cs \<Rightarrow> if c = quote_char then json_chars cs else None | [] \<Rightarrow> None)"

lemma hex4:
  assumes "n < 32"
  shows "length (zero_pad 4 (hex_string n)) = 4" "list_all is_hex (zero_pad 4 (hex_string n))"
    "hex_value (zero_pad 4 (hex_string n)) = n"
proof -
  have pad: "zero_pad 4 [c] = [CHR ''0'', CHR ''0'', CHR ''0'', c]" "zero_pad 4 [c, d] = [CHR ''0'', CHR ''0'', c, d]" for c d
    by (simp_all add: zero_pad_def numeral_eq_Suc)
  have "zero_pad 4 (hex_string n) = [CHR ''0'', CHR ''0'', hex_char (n div 16), hex_char (n mod 16)]"
  proof (cases "n < 16")
    case True
    then have "hex_string n = [hex_char n]" "n div 16 = 0" "n mod 16 = n" by (simp_all add: hex_string.simps [of n])
    moreover have "hex_char 0 = CHR ''0''" by code_simp
    ultimately show ?thesis by (simp add: pad)
  next
    case False
    then have "n div 16 = 1" using assms by simp
    with False have "hex_string n = [hex_char 1, hex_char (n mod 16)]"
      by (simp add: hex_string.simps [of n] hex_string.simps [of "Suc 0"])
    then show ?thesis using \<open>n div 16 = 1\<close> by (simp add: pad)
  qed
  moreover have "n div 16 < 16" using assms by simp
  moreover have "is_hex (CHR ''0'')" "hex_val (CHR ''0'') = 0" by (simp_all add: is_hex_def hex_val_def)
  ultimately show "length (zero_pad 4 (hex_string n)) = 4" "list_all is_hex (zero_pad 4 (hex_string n))"
    "hex_value (zero_pad 4 (hex_string n)) = n"
    by (simp_all add: hex_char_props hex_value_def)
qed

lemma json_chars_char: "json_chars (json_char c @ rest) = map_option (apfst (Cons c)) (json_chars rest)"
proof -
  consider "c = quote_char" | "c = backslash" | "c \<noteq> quote_char" "c \<noteq> backslash" "(of_char c :: nat) < 0x20"
    | "c \<noteq> quote_char" "c \<noteq> backslash" "\<not> (of_char c :: nat) < 0x20"
    by blast
  then show ?thesis
  proof cases
    case 3
    have q: "backslash \<noteq> quote_char" by (simp add: backslash_def quote_char_def)
    from 3 show ?thesis
      using hex4 [of "of_char c"] q by (simp add: json_char_def)
  qed (simp_all add: json_char_def json_simple_escape_def backslash_def quote_char_def)
qed

text \<open>C40. JSON strings survive the escaping: whatever bytes a process name or a symbol consists of, quotes,
  backslashes and control characters included, a JSON reader gets exactly these bytes back from
  what \<open>write_json_string\<close> writes, and ends where it ends.
\<close>

theorem json_string_roundtrip: "json_string (write_json_string str @ rest) = Some (str, rest)"
proof -
  have "json_chars (json_escape str @ quote_char # rest) = Some (str, rest)"
    by (induction str) (simp_all add: json_escape_def json_chars_char)
  then show ?thesis by (simp add: json_string_def write_json_string_def)
qed

section \<open>Routing\<close>

lemma strchr_Some:
  "strchr s c = Some i \<Longrightarrow> i < length s \<and> s ! i = c \<and> c \<notin> set (take i s)"
  by (induction s c arbitrary: i rule: strchr.induct) (auto split: if_splits)

lemma strchr_found: "c \<notin> set p \<Longrightarrow> strchr (p @ c # r) c = Some (length p)"
  by (induction p) auto

text \<open>A path that is short enough and has no blank is the path of a request just if the request begins with it.\<close>

lemma parse_request_iff:
  assumes "Suc (length p) < maxlen" "CHR '' '' \<notin> set p"
  shows "parse_request req maxlen = Some p \<longleftrightarrow> starts_with (''GET '' @ p @ '' '') req"
proof
  assume l: "parse_request req maxlen = Some p"
  then obtain r len where r: "req = ''GET '' @ r" and c: "strchr r (CHR '' '') = Some len"
    and p: "p = take (if len \<ge> maxlen then maxlen - 1 else len) r"
    using assms(1) by (auto simp: parse_request_def starts_with_iff Let_def split: if_splits option.splits)
  have "len < length r" "r ! len = CHR '' ''" using strchr_Some [OF c] by simp_all
  moreover have "len < maxlen" using p assms(1) \<open>len < length r\<close> by (auto split: if_splits)
  ultimately have "r = p @ CHR '' '' # drop (Suc len) r" using p id_take_nth_drop [of len r] by simp
  then show "starts_with (''GET '' @ p @ '' '') req" using r by (simp add: starts_with_iff) blast
next
  assume "starts_with (''GET '' @ p @ '' '') req"
  then obtain r where "req = ''GET '' @ p @ CHR '' '' # r" by (auto simp: starts_with_iff)
  then show "parse_request req maxlen = Some p"
    using assms strchr_found [OF assms(2), of r] by (simp add: parse_request_def starts_with_iff)
qed

text \<open>Routing is a test on the beginning of the request line: the dashboard, the data and the leak list
  are returned for exactly the lines that begin with a \<open>GET\<close> of their path and a blank, and every
  other request, whatever its bytes and its length, gets the 404 page. (No path that is cut to the
  buffer can be taken for one of the three.)
\<close>

theorem route_iff:
  "route received =
     (let line = request_line received
      in if starts_with ''GET / '' line then Page_root
         else if starts_with ''GET /api/data '' line then Page_data
         else if starts_with ''GET /api/leaks '' line then Page_leaks
         else Page_404)"
proof -
  let ?p = "parse_request (request_line received) MTT_HTTP_MAX_PATH"
  have "(?p = Some ''/'') = starts_with ''GET / '' (request_line received)"
    "(?p = Some ''/api/data'') = starts_with ''GET /api/data '' (request_line received)"
    "(?p = Some ''/api/leaks'') = starts_with ''GET /api/leaks '' (request_line received)"
    using parse_request_iff [of "''/''"] parse_request_iff [of "''/api/data''"] parse_request_iff [of "''/api/leaks''"]
    by (simp_all add: MTT_HTTP_MAX_PATH_def)
  then show ?thesis by (auto simp: route_def Let_def split: option.split)
qed

section \<open>The list of leak sites\<close>

lemma cache_lock_unlock: "\<not> r_cache_lock (g_reporter w) \<Longrightarrow> cache_unlock (cache_lock w) = w"
  by (simp add: cache_lock_def cache_unlock_def)

text \<open>The addresses of the copies, and the sites with the entries of their pairs.\<close>

definition copy_addrs :: "(ptr \<times> leak_site) option list \<Rightarrow> ptr list" where
  "copy_addrs copies = [p. Some (p, _) \<leftarrow> copies]"

definition listed_sites :: "(ptr \<times> leak_site) option list \<Rightarrow> (ptr \<times> ptr) list \<Rightarrow> (leak_site \<times> ptr) list" where
  "listed_sites copies ps = [(site, se). (Some (p, site), (q, se)) \<leftarrow> zip copies ps]"

lemma copy_addrs_simps [simp]:
  "copy_addrs [] = []" "copy_addrs (None # cs) = copy_addrs cs" "copy_addrs (Some (p, site) # cs) = p # copy_addrs cs"
  by (simp_all add: copy_addrs_def)

lemma listed_simps [simp]:
  "listed_sites [] ps = []" "listed_sites (None # cs) (x # ps) = listed_sites cs ps"
  "listed_sites (Some (p, site) # cs) ((q, se) # ps) = (site, se) # listed_sites cs ps"
  by (simp_all add: listed_sites_def split: prod.split)

lemma leak_items_resolved:
  assumes "map fst ps = map site_ptr cs" "distinct (copy_addrs cs)" "NULL \<notin> set (copy_addrs cs)"
    and "\<forall>(q, se) \<in> set ps. se = NULL \<or> k_is_resolved (g_stack_heap w se)"
    and "\<And>p. p \<in> set (copy_addrs cs) \<Longrightarrow> st p = (case List.find (\<lambda>(a, _). a = p) ps of None \<Rightarrow> NULL | Some (_, se) \<Rightarrow> se)"
  shows "leak_items X st cs w = (map (\<lambda>(site, se). leak_object w site se) (listed_sites cs ps), w)"
  using assms
proof (induction cs arbitrary: ps)
  case (Cons c cs)
  obtain q se ps' where ps: "ps = (q, se) # ps'" "q = site_ptr c" "map fst ps' = map site_ptr cs"
    using Cons.prems(1) by (auto simp: map_eq_Cons_conv)
  show ?case
  proof (cases c)
    case None
    then have "leak_items X st cs w = (map (\<lambda>(site, se). leak_object w site se) (listed_sites cs ps'), w)"
      using Cons.prems ps by (intro Cons.IH) (auto simp: site_ptr_def)
    then show ?thesis using None ps by simp
  next
    case (Some a)
    obtain p site where a: "a = (p, site)" by fastforce
    have "leak_items X st cs w = (map (\<lambda>(site, se). leak_object w site se) (listed_sites cs ps'), w)"
      using Cons.prems ps Some a by (intro Cons.IH) (auto simp: site_ptr_def)
    moreover have "st p = se" using Cons.prems(5) [of p] ps Some a by (simp add: site_ptr_def)
    ultimately show ?thesis using Some a ps Cons.prems(4) by (auto simp: write_leak_json_def)
  qed
qed simp

text \<open>C39. The leak list is what the last scan left for it: with the copies and pairs of a scan, an unlocked cache,
  copies at different addresses and resolved stacks, \<open>GET /api/leaks\<close> returns the header and one object
  for each site that was copied, in the order of the scan and each with the stack of its own pair,
  separated by commas, and changes nothing.
\<close>

theorem api_leaks_lists:
  assumes "dashboard_ok (dash_of (g_reporter w))" "\<not> r_cache_lock (g_reporter w)"
    and "r_cached_sites (g_reporter w) = Some (b, copies)" "r_cached_pairs (g_reporter w) = Some (b', ps)"
    and "distinct (copy_addrs copies)" "NULL \<notin> set (copy_addrs copies)"
    and "\<forall>(q, se) \<in> set ps. se = NULL \<or> k_is_resolved (g_stack_heap w se)"
  shows "handle_api_leaks X w =
    (ok_header ''application/json'' @ ''{\"leaks\":['' @
       join (CHR '','') (map (\<lambda>(site, se). leak_object w site se) (listed_sites copies ps)) @ '']}'', w)"
proof -
  let ?v = "cache_lock w" and ?n = "r_cached_site_count (g_reporter w)"
  have r: "r_cached_sites (g_reporter ?v) = Some (b, copies)" "r_cached_pairs (g_reporter ?v) = Some (b', ps)"
    "r_cached_site_count (g_reporter ?v) = ?n" "g_stack_heap ?v = g_stack_heap w"
    using assms(3,4) by (simp_all add: cache_lock_def)
  have n: "length copies = ?n" and f: "map fst ps = map site_ptr copies"
    using assms(1,3,4) by (simp_all add: dash_of_def)
  then have l: "length ps = ?n" by (metis length_map)
  have obj: "leak_object ?v = leak_object w" by (simp add: fun_eq_iff leak_object_def r(4))
  have "leak_items X (stack_of_copy (Some (b', ps)) ?n) copies ?v =
      (map (\<lambda>(site, se). leak_object ?v site se) (listed_sites copies ps), ?v)"
    using assms(5-7) f l by (intro leak_items_resolved) (simp_all add: stack_of_copy_def r(4))
  then show ?thesis
    using r n l by (simp add: handle_api_leaks_def leak_list_def Let_def obj cache_lock_unlock [OF assms(2)])
qed

text \<open>Two sites, of which the second could not be copied; the stack of the first is resolved.\<close>

definition shown_site :: leak_site where
  "shown_site = \<lparr>l_stack_hash = 0x2A, l_first_seen = 10, l_last_seen = 20, l_count = 3, l_per_leak_size = 8,
     l_total_size = 24, l_diff_size = 0, l_is_expired = True\<rparr>"

definition shown_world :: "ptr world" where
  "shown_world = upd_reporter (\<lambda>r. r\<lparr>r_cached_sites := Some (0x500, [Some (0x100, shown_site), None]),
     r_cached_site_count := 2, r_cached_pairs := Some (0x600, [(0x100, 0x700), (NULL, NULL)])\<rparr>)
     (demo_world\<lparr>g_stack_heap := (\<lambda>_. \<lparr>k_hash = 0x2A, k_frames = [0x10, 0x20], k_frame_count = 2,
        k_resolved = [''mtt_capture_stack'', ''main''], k_is_resolved = True\<rparr>)\<rparr>)"

theorem api_leaks_lists_witness:
  "handle_api_leaks demo_ext shown_world =
     (ok_header ''application/json'' @ ''{\"leaks\":['' @ leak_head shown_site @ write_json_string ''main'' @ '']}'' @ '']}'',
      shown_world)"
proof -
  have "dash_of (g_reporter shown_world) =
      (Some (0x500, [Some (0x100, shown_site), None]), 2, Some (0x600, [(0x100, 0x700), (NULL, NULL)]))"
    by (simp add: shown_world_def dash_of_def)
  moreover have "\<not> r_cache_lock (g_reporter shown_world)" by (simp add: shown_world_def demo_world_def)
  moreover have "leak_object shown_world shown_site 0x700 = leak_head shown_site @ write_json_string ''main'' @ '']}''"
    by (simp add: leak_object_def leak_frames_def frame_texts_def own_frame_def shown_world_def)
  ultimately show ?thesis
    using api_leaks_lists [of shown_world "0x500" "[Some (0x100, shown_site), None]" "0x600"
        "[(0x100, 0x700), (NULL, NULL)]" demo_ext]
    by (simp add: dash_of_def site_ptr_def) (simp add: shown_world_def)
qed

end
