(* ===== verification/Concurrent_Tracking.thy ===== *)
theory Concurrent_Tracking
  imports Tracking
begin

text \<open>
  Recording and forgetting blocks by several threads at once: the code of \<^verbatim>\<open>hooks.c\<close> between the
  creation of a record and the unlocking of its stripe, and that of \<open>free\<close> between the locking and
  the unlocking, as program counters of threads that interleave. Each access to a shared counter is
  a step of its own; a weak compare-and-exchange may also fail without a reason. The operations on
  the table are one step each: they touch only the chains of the locked stripe and, under its
  own lock, one list of the pool.
\<close>

section \<open>Threads\<close>

datatype alloc_stage =
  A_lock | A_check | A_skip | A_drop | A_discard | A_seq | A_count | A_bytes | A_total | A_cur
  | A_peak size_t | A_cas size_t size_t | A_tell | A_add | A_unlock

datatype free_stage =
  F_lock | F_find | F_test | F_sub | F_zero | F_count | F_note | F_remove | F_unlock

datatype tpc = Idle | Alloc alloc_stage ptr size_t ptr | Free free_stage ptr ptr

text \<open>\<open>malloc\<close> with the block \<open>p\<close> of \<open>sz\<close> bytes and its new record \<open>e\<close>.\<close>

fun alloc_step :: "'l ext \<Rightarrow> bool \<Rightarrow> alloc_stage \<Rightarrow> ptr \<Rightarrow> size_t \<Rightarrow> ptr \<Rightarrow> 'l world \<Rightarrow> tpc \<times> 'l world" where
  "alloc_step X spurious A_lock p sz e w = (Alloc A_check p sz e, mtt_stripe_lock p w)"
| "alloc_step X spurious A_check p sz e w =
     (Alloc (if s_entry_count (g_state w) \<ge> MTT_MAX_ENTRIES then A_skip else A_seq) p sz e, w)"
| "alloc_step X spurious A_skip p sz e w = (Alloc A_drop p sz e, upd_state count_overcap w)"
| "alloc_step X spurious A_drop p sz e w = (Alloc A_discard p sz e, mtt_stripe_unlock p w)"
| "alloc_step X spurious A_discard p sz e w = (Idle, mtt_entry_discard X e w)"
| "alloc_step X spurious A_seq p sz e w =
     (Alloc A_count p sz e,
      upd_state (\<lambda>s. s\<lparr>s_alloc_seq := s_alloc_seq s + 1\<rparr>)
        (upd_entry e (\<lambda>r. r\<lparr>e_alloc_num := s_alloc_seq (g_state w) + 1\<rparr>) w))"
| "alloc_step X spurious A_count p sz e w =
     (Alloc A_bytes p sz e, upd_state (\<lambda>s. s\<lparr>s_alloc_count := s_alloc_count s + 1\<rparr>) w)"
| "alloc_step X spurious A_bytes p sz e w =
     (Alloc A_total p sz e, upd_state (\<lambda>s. s\<lparr>s_current_bytes := s_current_bytes s + sz\<rparr>) w)"
| "alloc_step X spurious A_total p sz e w =
     (Alloc A_cur p sz e, upd_state (\<lambda>s. s\<lparr>s_total_bytes := s_total_bytes s + sz\<rparr>) w)"
| "alloc_step X spurious A_cur p sz e w = (Alloc (A_peak (s_current_bytes (g_state w))) p sz e, w)"
| "alloc_step X spurious (A_peak cur) p sz e w = (Alloc (A_cas cur (s_peak_bytes (g_state w))) p sz e, w)"
| "alloc_step X spurious (A_cas cur old_peak) p sz e w =
     (if cur > old_peak then
        if s_peak_bytes (g_state w) = old_peak \<and> \<not> spurious
        then (Alloc A_tell p sz e, upd_state (\<lambda>s. s\<lparr>s_peak_bytes := cur\<rparr>) w)
        else (Alloc (A_cas cur (s_peak_bytes (g_state w))) p sz e, w)
      else (Alloc A_add p sz e, w))"
| "alloc_step X spurious A_tell p sz e w =
     (Alloc A_add p sz e, upd_state (\<lambda>s. s\<lparr>s_peak_updated := True\<rparr>) w)"
| "alloc_step X spurious A_add p sz e w = (Alloc A_unlock p sz e, mtt_entry_add e w)"
| "alloc_step X spurious A_unlock p sz e w = (Idle, mtt_stripe_unlock p w)"

text \<open>\<open>free\<close> of \<open>p\<close>; after the lookup, \<open>e\<close> is the record found.\<close>

fun free_step :: "'l ext \<Rightarrow> free_stage \<Rightarrow> ptr \<Rightarrow> ptr \<Rightarrow> 'l world \<Rightarrow> tpc \<times> 'l world" where
  "free_step X F_lock p e w = (Free F_find p e, mtt_stripe_lock p w)"
| "free_step X F_find p e w =
     (let (e, w) = mtt_entry_find p w in (Free (if e = NULL then F_unlock else F_test) p e, w))"
| "free_step X F_test p e w =
     (Free (if e_size (g_entries w e) \<le> s_current_bytes (g_state w) then F_sub else F_zero) p e, w)"
| "free_step X F_sub p e w =
     (Free F_count p e, upd_state (\<lambda>s. s\<lparr>s_current_bytes := s_current_bytes s - e_size (g_entries w e)\<rparr>) w)"
| "free_step X F_zero p e w = (Free F_count p e, upd_state (\<lambda>s. s\<lparr>s_current_bytes := 0\<rparr>) w)"
| "free_step X F_count p e w =
     (Free F_note p e, upd_state (\<lambda>s. s\<lparr>s_free_count := s_free_count s + 1\<rparr>) w)"
| "free_step X F_note p e w = (Free F_remove p e, upd_state (note_lifetime (g_entries w e) w) w)"
| "free_step X F_remove p e w = (Free F_unlock p e, mtt_entry_remove X p w)"
| "free_step X F_unlock p e w = (Idle, mtt_stripe_unlock p w)"

text \<open>
  The threads \<open>T\<close>. A thread comes from \<open>malloc\<close> with a new record, or from \<open>free\<close>; a thread that
  waits for a stripe cannot move while it is held. The blocks a program holds fit its address space.
\<close>

abbreviation stripe :: "mtt_state \<Rightarrow> ptr \<Rightarrow> nat" where
  "stripe s p \<equiv> unat (mtt_stripe_of p (s_bucket_count s) (s_hash_seed s))"

definition pending :: "tpc \<Rightarrow> nat" where
  "pending pc =
     (case pc of
        Alloc st p sz e \<Rightarrow> if st \<in> {A_lock, A_check, A_seq, A_count, A_bytes} then unat sz else 0
      | _ \<Rightarrow> 0)"

inductive track_step :: "'l ext \<Rightarrow> int set \<Rightarrow> (int \<Rightarrow> tpc) \<times> 'l world \<Rightarrow> (int \<Rightarrow> tpc) \<times> 'l world \<Rightarrow> bool"
  for X T where
  alloc_begins: "\<lbrakk>t \<in> T; pcs t = Idle; p \<noteq> NULL; sz \<noteq> 0; mtt_entry_new X t p sz w = (e, w'); e \<noteq> NULL;
     unat (s_current_bytes (g_state w)) + (\<Sum>u\<in>T. pending (pcs u)) + unat sz < 2 ^ 64\<rbrakk> \<Longrightarrow>
     track_step X T (pcs, w) (pcs(t := Alloc A_lock p sz e), w')"
| alloc_moves: "\<lbrakk>t \<in> T; pcs t = Alloc st p sz e; st = A_lock \<longrightarrow> \<not> s_bucket_locks (g_state w) (stripe (g_state w) p);
     alloc_step X spurious st p sz e w = (pc, w')\<rbrakk> \<Longrightarrow> track_step X T (pcs, w) (pcs(t := pc), w')"
| free_begins: "\<lbrakk>t \<in> T; pcs t = Idle; p \<noteq> NULL\<rbrakk> \<Longrightarrow>
     track_step X T (pcs, w) (pcs(t := Free F_lock p NULL), w)"
| free_moves: "\<lbrakk>t \<in> T; pcs t = Free st p e; st = F_lock \<longrightarrow> \<not> s_bucket_locks (g_state w) (stripe (g_state w) p);
     free_step X st p e w = (pc, w')\<rbrakk> \<Longrightarrow> track_step X T (pcs, w) (pcs(t := pc), w')"

inductive track_steps :: "'l ext \<Rightarrow> int set \<Rightarrow> (int \<Rightarrow> tpc) \<times> 'l world \<Rightarrow> (int \<Rightarrow> tpc) \<times> 'l world \<Rightarrow> bool"
  for X T where
  no_steps: "track_steps X T c c"
| more_steps: "\<lbrakk>track_steps X T c d; track_step X T d f\<rbrakk> \<Longrightarrow> track_steps X T c f"

section \<open>Critical sections\<close>

text \<open>The stripe a thread is in: a stripe is locked just if a thread is in it, and then just one.\<close>

definition exclusive :: "('t \<Rightarrow> 'p option) \<Rightarrow> ('p \<Rightarrow> nat) \<Rightarrow> (nat \<Rightarrow> bool) \<Rightarrow> bool" where
  "exclusive ins st locks \<longleftrightarrow>
     (\<forall>i. locks i \<longleftrightarrow> (\<exists>t p. ins t = Some p \<and> st p = i)) \<and>
     (\<forall>t u p q. t \<noteq> u \<longrightarrow> ins t = Some p \<longrightarrow> ins u = Some q \<longrightarrow> st p \<noteq> st q)"

lemma exclusive_enter:
  assumes "exclusive ins st locks" "ins t = None" "\<not> locks (st p)"
  shows "exclusive (ins(t := Some p)) st (locks(st p := True))"
  using assms unfolding exclusive_def by (auto split: if_splits) (metis option.distinct(1))+

lemma exclusive_leave:
  assumes "exclusive ins st locks" "ins t = Some p"
  shows "exclusive (ins(t := None)) st (locks(st p := False))"
  using assms unfolding exclusive_def by (auto split: if_splits) (metis option.inject)+

lemma exclusive_other: "exclusive ins st locks \<Longrightarrow> ins t = Some p \<Longrightarrow> u \<noteq> t \<Longrightarrow> ins u \<noteq> Some p"
  unfolding exclusive_def by metis

section \<open>Accounts that run ahead of the table\<close>

text \<open>
  A counter is updated before the record is added or removed. What the counter counts is the view of
  the table with the changes that threads have announced but not made yet.
\<close>

datatype change = Pushed size_t | Popped

fun apply_change :: "change \<Rightarrow> size_t list \<Rightarrow> size_t list" where
  "apply_change (Pushed x) xs = x # xs"
| "apply_change Popped xs = tl xs"

definition ahead :: "('t \<Rightarrow> (ptr \<times> change) option) \<Rightarrow> (ptr \<Rightarrow> size_t list) \<Rightarrow> (ptr \<Rightarrow> size_t list) \<Rightarrow> bool" where
  "ahead d S G \<longleftrightarrow>
     (\<forall>p. (\<forall>t c. d t \<noteq> Some (p, c)) \<longrightarrow> G p = S p) \<and> (\<forall>t p c. d t = Some (p, c) \<longrightarrow> G p = apply_change c (S p))"

lemma ahead_announce:
  assumes "ahead d S G" "d t = None" "\<And>u c. d u \<noteq> Some (p, c)"
  shows "G p = S p" "ahead (d(t := Some (p, c))) S (G(p := apply_change c (S p)))"
  using assms unfolding ahead_def by (auto split: if_splits) (metis option.distinct(1))

lemma ahead_make:
  assumes "ahead d S G" "d t = Some (p, c)" "\<And>u b. u \<noteq> t \<Longrightarrow> d u \<noteq> Some (p, b)"
  shows "ahead (d(t := None)) (S(p := apply_change c (S p))) G"
  using assms unfolding ahead_def by (auto split: if_splits) (metis option.inject prod.inject)

lemma ahead_none: "ahead d S G \<Longrightarrow> \<forall>t. d t = None \<Longrightarrow> G = S"
  by (auto simp: ahead_def fun_eq_iff)

section \<open>The invariant\<close>

text \<open>Where a thread is: the pointer whose stripe it holds, the record it owns, the record it has found.\<close>

definition inside :: "tpc \<Rightarrow> ptr option" where
  "inside pc =
     (case pc of
        Idle \<Rightarrow> None
      | Alloc st p sz e \<Rightarrow> if st \<in> {A_lock, A_discard} then None else Some p
      | Free st p e \<Rightarrow> if st = F_lock then None else Some p)"

definition rec_of :: "tpc \<Rightarrow> ptr option" where
  "rec_of pc = (case pc of Alloc st p sz e \<Rightarrow> if st = A_unlock then None else Some e | _ \<Rightarrow> None)"

definition found :: "tpc \<Rightarrow> (ptr \<times> ptr) option" where
  "found pc =
     (case pc of Free st p e \<Rightarrow> if st \<in> {F_lock, F_find, F_unlock} then None else Some (p, e) | _ \<Rightarrow> None)"

text \<open>The change a thread has announced to the byte counter, to the block counters, or is about to make.\<close>

fun bytes_added :: "alloc_stage \<Rightarrow> bool" where
  "bytes_added A_total = True"
| "bytes_added A_cur = True"
| "bytes_added (A_peak cur) = True"
| "bytes_added (A_cas cur old_peak) = True"
| "bytes_added A_tell = True"
| "bytes_added A_add = True"
| "bytes_added st = False"

definition bytes_ahead :: "tpc \<Rightarrow> (ptr \<times> change) option" where
  "bytes_ahead pc =
     (case pc of
        Idle \<Rightarrow> None
      | Alloc st p sz e \<Rightarrow> if bytes_added st then Some (p, Pushed sz) else None
      | Free st p e \<Rightarrow> if st \<in> {F_count, F_note, F_remove} then Some (p, Popped) else None)"

definition count_ahead :: "tpc \<Rightarrow> (ptr \<times> change) option" where
  "count_ahead pc =
     (case pc of
        Idle \<Rightarrow> None
      | Alloc st p sz e \<Rightarrow> if st = A_bytes \<or> bytes_added st then Some (p, Pushed sz) else None
      | Free st p e \<Rightarrow> if st \<in> {F_note, F_remove} then Some (p, Popped) else None)"

definition table_change :: "tpc \<Rightarrow> (ptr \<times> change) option" where
  "table_change pc =
     (case pc of
        Idle \<Rightarrow> None
      | Alloc st p sz e \<Rightarrow> if st = A_add then Some (p, Pushed sz) else None
      | Free st p e \<Rightarrow> if st = F_remove then Some (p, Popped) else None)"

lemmas pc_defs = inside_def rec_of_def found_def bytes_ahead_def count_ahead_def table_change_def pending_def

text \<open>What a thread relies on: its record is that of its block; the record it found is still the newest.\<close>

definition pc_ok :: "'l world \<Rightarrow> (ptr \<Rightarrow> ptr list) \<Rightarrow> tpc \<Rightarrow> bool" where
  "pc_ok w R pc =
     (case pc of
        Idle \<Rightarrow> True
      | Alloc st p sz e \<Rightarrow> p \<noteq> NULL \<and> sz \<noteq> 0 \<and>
          (st \<noteq> A_unlock \<longrightarrow> e_ptr (g_entries w e) = p \<and> e_size (g_entries w e) = sz)
      | Free st p e \<Rightarrow> p \<noteq> NULL \<and> st \<noteq> F_zero \<and> (found pc \<noteq> None \<longrightarrow> (\<exists>xs. R p = e # xs)))"

definition held :: "('t \<Rightarrow> tpc) \<Rightarrow> ptr set" where
  "held pcs = {e. \<exists>t. rec_of (pcs t) = Some e}"

definition view :: "'l world \<Rightarrow> (ptr \<Rightarrow> ptr list) \<Rightarrow> ptr \<Rightarrow> size_t list" where
  "view w R = (\<lambda>p. map (\<lambda>a. e_size (g_entries w a)) (R p))"

definition own_inv :: "int set \<Rightarrow> (int \<Rightarrow> tpc) \<Rightarrow> 'l world \<Rightarrow> (ptr \<Rightarrow> ptr list) \<Rightarrow> bool" where
  "own_inv T pcs w R \<longleftrightarrow>
     recs w R (held pcs) \<and> s_pool (g_state w) \<noteq> NULL \<and> (\<forall>t. pc_ok w R (pcs t)) \<and>
     (\<forall>t u e. rec_of (pcs t) = Some e \<longrightarrow> rec_of (pcs u) = Some e \<longrightarrow> t = u) \<and>
     (\<forall>t. t \<notin> T \<longrightarrow> pcs t = Idle) \<and> (\<forall>p. 0 \<notin> set (view w R p))"

text \<open>A thread that will still raise the peak to the current usage.\<close>

definition peak_due :: "size_t \<Rightarrow> tpc \<Rightarrow> bool" where
  "peak_due now pc =
     (case pc of
        Alloc st p sz e \<Rightarrow>
          (case st of
             A_total \<Rightarrow> True | A_cur \<Rightarrow> True
           | A_peak cur \<Rightarrow> now \<le> cur | A_cas cur old_peak \<Rightarrow> now \<le> cur | _ \<Rightarrow> False)
      | _ \<Rightarrow> False)"

definition bytes_inv :: "int set \<Rightarrow> (int \<Rightarrow> tpc) \<Rightarrow> mtt_state \<Rightarrow> (ptr \<Rightarrow> size_t list) \<Rightarrow> bool" where
  "bytes_inv T pcs s S \<longleftrightarrow>
     (\<exists>G. ahead (bytes_ahead \<circ> pcs) S G \<and> finite {p. G p \<noteq> []} \<and> unat (s_current_bytes s) = live_bytes G) \<and>
     unat (s_current_bytes s) + (\<Sum>u\<in>T. pending (pcs u)) < 2 ^ 64"

definition count_inv :: "(int \<Rightarrow> tpc) \<Rightarrow> mtt_state \<Rightarrow> (ptr \<Rightarrow> size_t list) \<Rightarrow> bool" where
  "count_inv pcs s S \<longleftrightarrow>
     (\<exists>C. ahead (count_ahead \<circ> pcs) S C \<and> finite {p. C p \<noteq> []} \<and>
        s_alloc_count s - s_free_count s = of_nat (live_count C))"

definition peak_seen :: "size_t \<Rightarrow> tpc \<Rightarrow> bool" where
  "peak_seen peak pc =
     (case pc of Alloc st p sz e \<Rightarrow> (case st of A_cas cur old_peak \<Rightarrow> old_peak \<le> peak | _ \<Rightarrow> True) | _ \<Rightarrow> True)"

definition peak_inv :: "(int \<Rightarrow> tpc) \<Rightarrow> mtt_state \<Rightarrow> bool" where
  "peak_inv pcs s \<longleftrightarrow>
     (s_current_bytes s \<le> s_peak_bytes s \<or> (\<exists>t. peak_due (s_current_bytes s) (pcs t))) \<and>
     (\<forall>t. peak_seen (s_peak_bytes s) (pcs t))"

definition lock_inv :: "(int \<Rightarrow> tpc) \<Rightarrow> mtt_state \<Rightarrow> bool" where
  "lock_inv pcs s \<longleftrightarrow> exclusive (inside \<circ> pcs) (stripe s) (s_bucket_locks s)"

definition track_inv :: "int set \<Rightarrow> (int \<Rightarrow> tpc) \<times> 'l world \<Rightarrow> bool" where
  "track_inv T c \<longleftrightarrow>
     (let pcs = fst c; w = snd c; s = g_state w
      in lock_inv pcs s \<and> peak_inv pcs s \<and>
         (\<exists>R. own_inv T pcs w R \<and> bytes_inv T pcs s (view w R) \<and> count_inv pcs s (view w R)))"

section \<open>Effects of a step on the counters and locks\<close>

lemmas stripe_defs = mtt_stripe_lock_def mtt_stripe_unlock_def bucket_lock_def bucket_unlock_def

lemma table_step_state: "table_step A w w' \<Longrightarrow> table_only (g_state w) (g_state w')"
  by (simp add: table_step_def)

lemmas step_fields = table_only_fields [OF table_step_state]

text \<open>What a step of stage \<open>st\<close> does to the state.\<close>

definition counters_kept :: "mtt_state \<Rightarrow> mtt_state \<Rightarrow> bool" where
  "counters_kept s s' \<longleftrightarrow>
     s_current_bytes s' = s_current_bytes s \<and> s_alloc_count s' = s_alloc_count s \<and>
     s_free_count s' = s_free_count s \<and> s_peak_bytes s' = s_peak_bytes s"

definition lock_kept :: "mtt_state \<Rightarrow> mtt_state \<Rightarrow> bool" where
  "lock_kept s s' \<longleftrightarrow>
     s_bucket_locks s' = s_bucket_locks s \<and> s_bucket_count s' = s_bucket_count s \<and> s_hash_seed s' = s_hash_seed s"

lemma table_step_kept:
  assumes "table_step A w w'"
  shows "counters_kept (g_state w) (g_state w')" "lock_kept (g_state w) (g_state w')"
    "s_pool (g_state w') = s_pool (g_state w)"
  using step_fields [OF assms] by (simp_all add: counters_kept_def lock_kept_def)

lemma alloc_locks:
  "s_bucket_locks (g_state (snd (alloc_step X sp st p sz e w))) =
      (if st = A_lock then (s_bucket_locks (g_state w))(stripe (g_state w) p := True)
       else if st \<in> {A_drop, A_unlock} then (s_bucket_locks (g_state w))(stripe (g_state w) p := False)
       else s_bucket_locks (g_state w))"
  "s_bucket_count (g_state (snd (alloc_step X sp st p sz e w))) = s_bucket_count (g_state w)"
  "s_hash_seed (g_state (snd (alloc_step X sp st p sz e w))) = s_hash_seed (g_state w)"
  "s_pool (g_state (snd (alloc_step X sp st p sz e w))) = s_pool (g_state w)"
  by (cases st; simp add: stripe_defs upd_entry_def count_overcap_def step_fields [OF entry_add_step]
      step_fields [OF entry_discard_step])+

lemma alloc_counters:
  "s_current_bytes (g_state (snd (alloc_step X sp st p sz e w))) =
     s_current_bytes (g_state w) + (if st = A_bytes then sz else 0)"
  "s_alloc_count (g_state (snd (alloc_step X sp st p sz e w))) = s_alloc_count (g_state w) + (if st = A_count then 1 else 0)"
  "s_free_count (g_state (snd (alloc_step X sp st p sz e w))) = s_free_count (g_state w)"
  "s_peak_bytes (g_state (snd (alloc_step X sp st p sz e w))) =
       (case st of A_cas cur old_peak \<Rightarrow>
          if cur > old_peak \<and> s_peak_bytes (g_state w) = old_peak \<and> \<not> sp then cur else s_peak_bytes (g_state w)
        | _ \<Rightarrow> s_peak_bytes (g_state w))"
  by (cases st; simp add: stripe_defs upd_entry_def count_overcap_def step_fields [OF entry_add_step]
      step_fields [OF entry_discard_step])+

lemma find_unchanged:
  assumes "recs w R H" "p \<noteq> NULL"
  shows "mtt_entry_find p w = (case R p of [] \<Rightarrow> NULL | a # _ \<Rightarrow> a, w)"
  by (rule entry_table.lookup_law [OF assms])

lemma note_lifetime_fields [simp]:
  "s_current_bytes (note_lifetime r w s) = s_current_bytes s" "s_alloc_count (note_lifetime r w s) = s_alloc_count s"
  "s_free_count (note_lifetime r w s) = s_free_count s" "s_peak_bytes (note_lifetime r w s) = s_peak_bytes s"
  "s_bucket_locks (note_lifetime r w s) = s_bucket_locks s" "s_bucket_count (note_lifetime r w s) = s_bucket_count s"
  "s_hash_seed (note_lifetime r w s) = s_hash_seed s" "s_pool (note_lifetime r w s) = s_pool s"
  "table_fields (note_lifetime r w s) = table_fields s"
  by (simp_all add: note_lifetime_def table_fields_def Let_def)

lemma free_locks:
  assumes "recs w R H" "p \<noteq> NULL"
  shows "s_bucket_locks (g_state (snd (free_step X st p e w))) =
      (if st = F_lock then (s_bucket_locks (g_state w))(stripe (g_state w) p := True)
       else if st = F_unlock then (s_bucket_locks (g_state w))(stripe (g_state w) p := False)
       else s_bucket_locks (g_state w))"
    "s_bucket_count (g_state (snd (free_step X st p e w))) = s_bucket_count (g_state w)"
    "s_hash_seed (g_state (snd (free_step X st p e w))) = s_hash_seed (g_state w)"
    "s_pool (g_state (snd (free_step X st p e w))) = s_pool (g_state w)"
  by (cases st; simp add: stripe_defs find_unchanged [OF assms] step_fields [OF entry_remove_step [OF assms]])+

lemma free_counters:
  assumes "recs w R H" "p \<noteq> NULL" "st \<noteq> F_zero"
  shows "s_current_bytes (g_state (snd (free_step X st p e w))) =
      s_current_bytes (g_state w) - (if st = F_sub then e_size (g_entries w e) else 0)"
    "s_alloc_count (g_state (snd (free_step X st p e w))) = s_alloc_count (g_state w)"
    "s_free_count (g_state (snd (free_step X st p e w))) = s_free_count (g_state w) + (if st = F_count then 1 else 0)"
    "s_peak_bytes (g_state (snd (free_step X st p e w))) = s_peak_bytes (g_state w)"
  using assms(3)
  by (cases st; simp add: stripe_defs find_unchanged [OF assms(1,2)] step_fields [OF entry_remove_step [OF assms(1,2)]])+

section \<open>Locks\<close>

text \<open>The stripe a thread is in after a step.\<close>

lemma alloc_inside:
  "inside (fst (alloc_step X sp st p sz e w)) = (if st \<in> {A_drop, A_discard, A_unlock} then None else Some p)"
  by (cases st) (simp_all add: inside_def)

lemma free_inside: "inside (fst (free_step X st p e w)) = (if st = F_unlock then None else Some p)"
  by (cases st) (simp_all add: inside_def case_prod_beta)

lemma lock_inv_other: "lock_inv pcs s \<Longrightarrow> inside (pcs t) = Some p \<Longrightarrow> u \<noteq> t \<Longrightarrow> inside (pcs u) \<noteq> Some p"
  unfolding lock_inv_def using exclusive_other [of "inside \<circ> pcs" _ _ t p u] by simp

lemma lock_inv_same:
  assumes "lock_inv pcs s" "inside pc = inside (pcs t)" "lock_kept s s'"
  shows "lock_inv (pcs(t := pc)) s'"
proof -
  have "inside \<circ> pcs(t := pc) = inside \<circ> pcs" using assms(2) by (auto simp: fun_eq_iff)
  then show ?thesis using assms(1,3) by (simp add: lock_inv_def lock_kept_def)
qed

lemma lock_inv_enter:
  assumes "lock_inv pcs s" "inside (pcs t) = None" "inside pc = Some p" "\<not> s_bucket_locks s (stripe s p)"
    and "s_bucket_locks s' = (s_bucket_locks s)(stripe s p := True)" "s_bucket_count s' = s_bucket_count s"
    "s_hash_seed s' = s_hash_seed s"
  shows "lock_inv (pcs(t := pc)) s'"
  using exclusive_enter [of "inside \<circ> pcs" "stripe s" "s_bucket_locks s" t p] assms
  by (simp add: lock_inv_def fun_upd_comp)

lemma lock_inv_leave:
  assumes "lock_inv pcs s" "inside (pcs t) = Some p" "inside pc = None"
    and "s_bucket_locks s' = (s_bucket_locks s)(stripe s p := False)" "s_bucket_count s' = s_bucket_count s"
    "s_hash_seed s' = s_hash_seed s"
  shows "lock_inv (pcs(t := pc)) s'"
  using exclusive_leave [of "inside \<circ> pcs" "stripe s" "s_bucket_locks s" t p] assms
  by (simp add: lock_inv_def fun_upd_comp)

lemma lock_inv_alloc:
  assumes "lock_inv pcs (g_state w)" "pcs t = Alloc st p sz e" "alloc_step X sp st p sz e w = (pc, w')"
    and "st = A_lock \<longrightarrow> \<not> s_bucket_locks (g_state w) (stripe (g_state w) p)"
  shows "lock_inv (pcs(t := pc)) (g_state w')"
proof -
  note i = alloc_inside [of X sp st p sz e w, unfolded assms(3) fst_conv]
  note l = alloc_locks [of X sp st p sz e w, unfolded assms(3) snd_conv]
  have now: "inside (pcs t) = (if st \<in> {A_lock, A_discard} then None else Some p)"
    using assms(2) by (simp add: inside_def)
  consider "st = A_lock" | "st \<in> {A_drop, A_unlock}" | "st \<notin> {A_lock, A_drop, A_unlock}" by blast
  then show ?thesis
  proof cases
    case 1
    then show ?thesis using assms(1,4) now i l by (intro lock_inv_enter [of _ _ _ _ p]) simp_all
  next
    case 2
    then show ?thesis using assms(1) now i l by (intro lock_inv_leave [of _ _ _ p]) auto
  next
    case 3
    then show ?thesis using assms(1) now i l by (intro lock_inv_same) (auto simp: lock_kept_def)
  qed
qed

lemma lock_inv_free:
  assumes "lock_inv pcs (g_state w)" "pcs t = Free st p e" "free_step X st p e w = (pc, w')" "recs w R H" "p \<noteq> NULL"
    and "st = F_lock \<longrightarrow> \<not> s_bucket_locks (g_state w) (stripe (g_state w) p)"
  shows "lock_inv (pcs(t := pc)) (g_state w')"
proof -
  note i = free_inside [of X st p e w, unfolded assms(3) fst_conv]
  note l = free_locks [OF assms(4,5), of X st e, unfolded assms(3) snd_conv]
  have now: "inside (pcs t) = (if st = F_lock then None else Some p)" using assms(2) by (simp add: inside_def)
  consider "st = F_lock" | "st = F_unlock" | "st \<notin> {F_lock, F_unlock}" by blast
  then show ?thesis
  proof cases
    case 1
    then show ?thesis using assms(1,6) now i l by (intro lock_inv_enter [of _ _ _ _ p]) simp_all
  next
    case 2
    then show ?thesis using assms(1) now i l by (intro lock_inv_leave [of _ _ _ p]) auto
  next
    case 3
    then show ?thesis using assms(1) now i l by (intro lock_inv_same) (auto simp: lock_kept_def)
  qed
qed

section \<open>The table and the records in the hands of threads\<close>

lemma held_same: "rec_of pc = rec_of (pcs t) \<Longrightarrow> held (pcs(t := pc)) = held pcs"
  unfolding held_def by (auto split: if_splits)

lemma held_new: "rec_of (pcs t) = None \<Longrightarrow> rec_of pc = Some e \<Longrightarrow> held (pcs(t := pc)) = insert e (held pcs)"
  unfolding held_def by (auto split: if_splits) (metis option.distinct(1))

lemma held_drop:
  assumes "rec_of (pcs t) = Some e" "rec_of pc = None" "\<And>u. rec_of (pcs u) = Some e \<Longrightarrow> u = t"
  shows "held (pcs(t := pc)) = held pcs - {e}"
proof (rule set_eqI, rule iffI)
  fix a assume "a \<in> held (pcs(t := pc))"
  then obtain u where "rec_of ((pcs(t := pc)) u) = Some a" by (auto simp: held_def)
  then have "u \<noteq> t" "rec_of (pcs u) = Some a" using assms(2) by (cases "u = t"; simp)+
  then show "a \<in> held pcs - {e}" using assms(3) [of u] by (auto simp: held_def)
next
  fix a assume "a \<in> held pcs - {e}"
  then obtain u where "rec_of (pcs u) = Some a" "a \<noteq> e" by (auto simp: held_def)
  then have "rec_of ((pcs(t := pc)) u) = Some a" using assms(1) by (cases "u = t") simp_all
  then show "a \<in> held (pcs(t := pc))" unfolding held_def by blast
qed

lemma pc_ok_frame:
  assumes "pc_ok w R pc" "same_sizes A w w'" "\<And>e. rec_of pc = Some e \<Longrightarrow> e \<notin> A"
    and "\<And>p e. found pc = Some (p, e) \<Longrightarrow> R' p = R p"
  shows "pc_ok w' R' pc"
proof (cases pc)
  case (Alloc st p sz e)
  then show ?thesis using assms(1-3) by (simp add: pc_ok_def rec_of_def same_sizes_def)
next
  case (Free st p e)
  then show ?thesis using assms(1) assms(4) [of p e] by (auto simp: pc_ok_def found_def)
qed (simp add: pc_ok_def)

lemma own_inv_step:
  assumes "own_inv T pcs w R" "t \<in> T" "same_sizes A w w'" "recs w' R' (held (pcs(t := pc)))"
    and "s_pool (g_state w') = s_pool (g_state w)" "pc_ok w' R' pc"
    and "\<And>u e. u \<noteq> t \<Longrightarrow> rec_of (pcs u) = Some e \<Longrightarrow> e \<notin> A \<and> rec_of pc \<noteq> Some e"
    and "\<And>u p e. u \<noteq> t \<Longrightarrow> found (pcs u) = Some (p, e) \<Longrightarrow> R' p = R p"
    and "\<And>p. 0 \<notin> set (view w' R' p)"
  shows "own_inv T (pcs(t := pc)) w' R'"
proof -
  have inj: "\<And>u v e. rec_of (pcs u) = Some e \<Longrightarrow> rec_of (pcs v) = Some e \<Longrightarrow> u = v"
    and ok: "\<And>u. pc_ok w R (pcs u)" and pool: "s_pool (g_state w) \<noteq> NULL" and idle: "\<forall>u. u \<notin> T \<longrightarrow> pcs u = Idle"
    using assms(1) unfolding own_inv_def by blast+
  have "pc_ok w' R' ((pcs(t := pc)) u)" for u
  proof (cases "u = t")
    case False
    have "e \<notin> A" if "rec_of (pcs u) = Some e" for e using assms(7) [OF False that] by blast
    then show ?thesis using pc_ok_frame [OF ok assms(3) _ assms(8) [OF False], of u] False by simp
  qed (simp add: assms(6))
  moreover have "u = v" if "rec_of ((pcs(t := pc)) u) = Some e" "rec_of ((pcs(t := pc)) v) = Some e" for u v e
    using that assms(7) [of u e] assms(7) [of v e] inj [of u e v] by (cases "u = t"; cases "v = t") simp_all
  moreover have "\<forall>u. u \<notin> T \<longrightarrow> (pcs(t := pc)) u = Idle" using idle assms(2) by auto
  ultimately show ?thesis unfolding own_inv_def using assms(4,5,9) pool by metis
qed

text \<open>Steps that leave the table and the records as they are.\<close>

lemma own_inv_quiet:
  fixes w w' :: "'l world"
  assumes "own_inv T pcs w R" "t \<in> T" "table_fields (g_state w') = table_fields (g_state w)" "g_entries w' = g_entries w"
    and "rec_of pc = rec_of (pcs t)" "pc_ok w R pc"
  shows "own_inv T (pcs(t := pc)) w' R" "view w' R = view w R"
proof -
  show v: "view w' R = view w R" using assms(4) by (simp add: view_def)
  have sz: "same_sizes {} w w'" using assms(4) by (simp add: same_sizes_def)
  have "recs w' R (held (pcs(t := pc)))"
    using assms(1) recs_fields [OF assms(3,4)] held_same [of pc pcs t] assms(5) by (simp add: own_inv_def)
  moreover have "s_pool (g_state w') = s_pool (g_state w)" using assms(3) by (simp add: table_fields_def)
  moreover have "pc_ok w' R pc" using assms(4,6) by (simp add: pc_ok_def split: tpc.splits)
  ultimately show "own_inv T (pcs(t := pc)) w' R"
    using assms(1,5) v by (intro own_inv_step [OF assms(1,2) sz]) (auto simp: own_inv_def)
qed

lemma own_inv_ok: "own_inv T pcs w R \<Longrightarrow> pc_ok w R (pcs t)"
  by (simp add: own_inv_def)

lemma own_inv_held:
  assumes "own_inv T pcs w R" "rec_of (pcs t) = Some e"
  shows "recs w R (held pcs)" "e \<in> held pcs" "\<And>u. rec_of (pcs u) = Some e \<Longrightarrow> u = t" "e \<notin> set (R p)"
proof -
  show r: "recs w R (held pcs)" and "\<And>u. rec_of (pcs u) = Some e \<Longrightarrow> u = t"
    using assms by (auto simp: own_inv_def)
  show h: "e \<in> held pcs" using assms(2) by (auto simp: held_def)
  show "e \<notin> set (R p)" by (rule recs_held_notin [OF r h])
qed

lemma view_sizes:
  assumes "same_sizes A w w'" "\<And>p. set (R p) \<inter> A = {}"
  shows "view w' R = view w R"
proof
  fix p
  show "view w' R p = view w R p" using assms(1) assms(2) [of p] by (auto simp: view_def same_sizes_def)
qed

text \<open>A new record, its number, and a record given back.\<close>

lemma own_inv_begin:
  assumes "own_inv T pcs w R" "t \<in> T" "pcs t = Idle" "p \<noteq> NULL" "sz \<noteq> 0" "mtt_entry_new X t p sz w = (e, w')" "e \<noteq> NULL"
  shows "own_inv T (pcs(t := Alloc A_lock p sz e)) w' R" "view w' R = view w R"
proof -
  have r: "recs w R (held pcs)" "s_pool (g_state w) \<noteq> NULL" using assms(1) by (simp_all add: own_inv_def)
  have st: "table_step {e} w w'" by (rule entry_new_step [OF assms(6)])
  have n: "e \<notin> held pcs" "recs w' R (insert e (held pcs))" "new_record p sz (g_entries w' e)"
    using recs_new [OF r assms(6)] assms(7) by auto
  have sz: "same_sizes {e} w w'" using st by (simp add: table_step_def)
  show v: "view w' R = view w R" using recs_held_notin [OF n(2), of e] by (intro view_sizes [OF sz]) auto
  have h: "held (pcs(t := Alloc A_lock p sz e)) = insert e (held pcs)"
    using assms(3) by (intro held_new) (simp_all add: rec_of_def)
  have "a \<noteq> e" if "rec_of (pcs u) = Some a" for u a using that n(1) by (auto simp: held_def)
  then show "own_inv T (pcs(t := Alloc A_lock p sz e)) w' R"
    using n(2,3) assms(1,4,5) step_fields [OF st] v
    by (intro own_inv_step [OF assms(1,2) sz])
      (auto simp: h own_inv_def pc_ok_def new_record_def rec_of_def)
qed

lemma own_inv_number:
  assumes "own_inv T pcs w R" "t \<in> T" "pcs t = Alloc A_seq p sz e"
    and "w' = upd_state (\<lambda>s. s\<lparr>s_alloc_seq := s_alloc_seq s + 1\<rparr>) (upd_entry e (\<lambda>r. r\<lparr>e_alloc_num := k\<rparr>) w)"
  shows "own_inv T (pcs(t := Alloc A_count p sz e)) w' R" "view w' R = view w R"
proof -
  have rt: "rec_of (pcs t) = Some e" using assms(3) by (simp add: rec_of_def)
  note h = own_inv_held [OF assms(1) rt]
  let ?v = "upd_entry e (\<lambda>r. r\<lparr>e_alloc_num := k\<rparr>) w"
  have en: "g_entries w' = g_entries ?v" by (simp add: assms(4))
  have sz: "same_sizes {} w w'" by (simp add: same_sizes_def en) (simp add: upd_entry_def)
  show v: "view w' R = view w R" by (rule view_sizes [OF sz]) simp
  have "recs w' R (held pcs)"
    using recs_held [OF h(1,2)] recs_fields [of w' ?v R "held pcs"] by (simp add: assms(4) table_fields_def)
  moreover have "held (pcs(t := Alloc A_count p sz e)) = held pcs" by (rule held_same) (simp add: assms(3) rec_of_def)
  moreover have "pc_ok w' R (pcs t)"
    using assms(1) pc_ok_frame [OF _ sz, of R "pcs t" R] by (simp add: own_inv_def)
  moreover have "s_pool (g_state w') = s_pool (g_state w)" by (simp add: assms(4)) (simp add: upd_entry_def)
  ultimately show "own_inv T (pcs(t := Alloc A_count p sz e)) w' R"
    using assms(1,3) v h(3)
    by (intro own_inv_step [OF assms(1,2) sz]) (auto simp: own_inv_def pc_ok_def rec_of_def)
qed

lemma own_inv_discard:
  assumes "own_inv T pcs w R" "t \<in> T" "pcs t = Alloc A_discard p sz e"
  shows "own_inv T (pcs(t := Idle)) (mtt_entry_discard X e w) R" "view (mtt_entry_discard X e w) R = view w R"
proof -
  let ?w = "mtt_entry_discard X e w"
  have rt: "rec_of (pcs t) = Some e" using assms(3) by (simp add: rec_of_def)
  note h = own_inv_held [OF assms(1) rt]
  have st: "table_step {e} w ?w" by (rule entry_discard_step)
  have sz: "same_sizes {e} w ?w" using st by (simp add: table_step_def)
  show v: "view ?w R = view w R" using h(4) by (intro view_sizes [OF sz]) auto
  have "held (pcs(t := Idle)) = held pcs - {e}" by (rule held_drop [where pcs = pcs and t = t, OF rt _ h(3)]) (simp_all add: rec_of_def)
  then show "own_inv T (pcs(t := Idle)) ?w R"
    using recs_discard [OF h(1,2), of X] step_fields [OF st] v h(3) assms(1)
    by (intro own_inv_step [OF assms(1,2) sz]) (auto simp: own_inv_def pc_ok_def rec_of_def)
qed

text \<open>Adding and removing under the lock: nobody else has found a record of that pointer.\<close>

lemma found_inside: "found pc = Some (p, e) \<Longrightarrow> inside pc = Some p"
  by (auto simp: found_def inside_def split: tpc.splits if_splits)

lemma found_other:
  assumes "lock_inv pcs s" "inside (pcs t) = Some p" "u \<noteq> t" "found (pcs u) = Some (q, a)"
  shows "q \<noteq> p"
  using lock_inv_other [OF assms(1-3)] found_inside [OF assms(4)] by auto

lemma own_inv_add:
  assumes "own_inv T pcs w R" "lock_inv pcs (g_state w)" "t \<in> T" "pcs t = Alloc A_add p sz e"
  shows "own_inv T (pcs(t := Alloc A_unlock p sz e)) (mtt_entry_add e w) (R(p := e # R p))"
    "view (mtt_entry_add e w) (R(p := e # R p)) = (view w R)(p := sz # view w R p)"
proof -
  let ?w = "mtt_entry_add e w" and ?R = "R(p := e # R p)"
  have rt: "rec_of (pcs t) = Some e" using assms(4) by (simp add: rec_of_def)
  note h = own_inv_held [OF assms(1) rt]
  have ok: "p \<noteq> NULL" "sz \<noteq> 0" "e_ptr (g_entries w e) = p" "e_size (g_entries w e) = sz"
    using own_inv_ok [OF assms(1), of t] assms(4) by (simp_all add: pc_ok_def)
  have st: "table_step {} w ?w" by (rule entry_add_step)
  have sz: "same_sizes {} w ?w" using st by (simp add: table_step_def)
  then have "view ?w R = view w R" by (rule view_sizes) simp
  then show v: "view ?w ?R = (view w R)(p := sz # view w R p)"
    using sz ok(4) by (auto simp: view_def fun_eq_iff same_sizes_def)
  have "held (pcs(t := Alloc A_unlock p sz e)) = held pcs - {e}"
    by (rule held_drop [where pcs = pcs and t = t, OF rt _ h(3)]) (simp_all add: rec_of_def)
  then have "recs ?w ?R (held (pcs(t := Alloc A_unlock p sz e)))"
    using entry_table.add_law [OF h(1,2) ok(3)] by simp
  moreover have "0 \<notin> set (view ?w ?R q)" for q using assms(1) ok(2) by (simp add: v own_inv_def)
  moreover have "inside (pcs t) = Some p" using assms(4) by (simp add: inside_def)
  ultimately show "own_inv T (pcs(t := Alloc A_unlock p sz e)) ?w ?R"
    using step_fields [OF st] ok(1,2) found_other [OF assms(2), of t p]
    by (intro own_inv_step [OF assms(1,3) sz]) (auto simp: pc_ok_def rec_of_def)
qed

lemma own_inv_remove:
  assumes "own_inv T pcs w R" "lock_inv pcs (g_state w)" "t \<in> T" "pcs t = Free F_remove p e"
  shows "own_inv T (pcs(t := Free F_unlock p e)) (mtt_entry_remove X p w) (R(p := tl (R p)))"
    "view (mtt_entry_remove X p w) (R(p := tl (R p))) = (view w R)(p := tl (view w R p))"
proof -
  let ?w = "mtt_entry_remove X p w" and ?R = "R(p := tl (R p))"
  have r: "recs w R (held pcs)" using assms(1) by (simp add: own_inv_def)
  have ok: "p \<noteq> NULL" using own_inv_ok [OF assms(1), of t] assms(4) by (simp add: pc_ok_def)
  have st: "table_step (set (take 1 (R p))) w ?w" by (rule entry_remove_step [OF r ok])
  have sz: "same_sizes (set (take 1 (R p))) w ?w" using st by (simp add: table_step_def)
  have dis: "set (?R q) \<inter> set (take 1 (R p)) = {}" for q
  proof (cases "R p")
    case (Cons a as)
    have "a \<notin> set as" using recs_distinct [OF r, of p] Cons by simp
    moreover have "a \<notin> set (R q)" if "q \<noteq> p"
      using entry_table.key_law [OF r, of a p] entry_table.key_law [OF r, of a q] Cons that by auto
    ultimately show ?thesis using Cons by auto
  qed simp
  have "view ?w ?R = view w ?R" by (rule view_sizes [OF sz dis])
  also have "\<dots> = (view w R)(p := tl (view w R p))" by (simp add: view_def fun_eq_iff map_tl)
  finally show v: "view ?w ?R = (view w R)(p := tl (view w R p))" .
  have "rec_of (pcs u) = Some a \<Longrightarrow> a \<notin> set (take 1 (R p))" for u a
    using own_inv_held(4) [OF assms(1), of u a p] by (auto dest: in_set_takeD)
  moreover have "held (pcs(t := Free F_unlock p e)) = held pcs"
    by (rule held_same) (simp add: assms(4) rec_of_def)
  moreover have "0 \<notin> set (view ?w ?R q)" for q
    using assms(1) by (cases "view w R p") (auto simp: v own_inv_def dest: spec [of _ p])
  moreover have "inside (pcs t) = Some p" using assms(4) by (simp add: inside_def)
  ultimately show "own_inv T (pcs(t := Free F_unlock p e)) ?w ?R"
    using entry_table.remove_law [OF r ok] step_fields [OF st] ok found_other [OF assms(2), of t p]
    by (intro own_inv_step [OF assms(1,3) sz]) (auto simp: pc_ok_def rec_of_def found_def)
qed

text \<open>A step of a thread: the table changes as its stage says.\<close>

definition view_after :: "(ptr \<Rightarrow> size_t list) \<Rightarrow> tpc \<Rightarrow> ptr \<Rightarrow> size_t list" where
  "view_after S pc = (case table_change pc of None \<Rightarrow> S | Some (p, c) \<Rightarrow> S(p := apply_change c (S p)))"

lemma alloc_quiet:
  assumes "st \<notin> {A_seq, A_discard, A_add}"
  shows "table_fields (g_state (snd (alloc_step X sp st p sz e w))) = table_fields (g_state w)"
    "g_entries (snd (alloc_step X sp st p sz e w)) = g_entries w"
    "rec_of (fst (alloc_step X sp st p sz e w)) = rec_of (Alloc st p sz e)"
    "pc_ok w R (Alloc st p sz e) \<Longrightarrow> pc_ok w R (fst (alloc_step X sp st p sz e w))"
  using assms
  by (cases st; simp add: stripe_defs count_overcap_def table_fields_def rec_of_def pc_ok_def)+

lemma own_alloc:
  assumes "own_inv T pcs w R" "lock_inv pcs (g_state w)" "t \<in> T" "pcs t = Alloc st p sz e"
    and "alloc_step X sp st p sz e w = (pc, w')"
  shows "\<exists>R'. own_inv T (pcs(t := pc)) w' R' \<and> view w' R' = view_after (view w R) (pcs t)"
proof -
  consider "st = A_seq" | "st = A_discard" | "st = A_add" | "st \<notin> {A_seq, A_discard, A_add}" by blast
  then show ?thesis
  proof cases
    case 1
    then show ?thesis
      using own_inv_number [OF assms(1,3), of p sz e w' "s_alloc_seq (g_state w) + 1"] assms(4,5)
      by (intro exI [of _ R]) (auto simp: view_after_def table_change_def)
  next
    case 2
    then show ?thesis
      using own_inv_discard [OF assms(1,3), of p sz e X] assms(4,5)
      by (intro exI [of _ R]) (auto simp: view_after_def table_change_def)
  next
    case 3
    then show ?thesis
      using own_inv_add [OF assms(1-3), of p sz e] assms(4,5)
      by (intro exI [of _ "R(p := e # R p)"]) (auto simp: view_after_def table_change_def)
  next
    case 4
    note q = alloc_quiet [OF 4, where X = X and sp = sp and p = p and sz = sz and e = e and w = w, unfolded assms(5) fst_conv snd_conv]
    have "pc_ok w R pc" using q(4) own_inv_ok [OF assms(1), of t] assms(4) by simp
    then show ?thesis
      using own_inv_quiet [OF assms(1,3) q(1,2)] q(3) 4 assms(4)
      by (intro exI [of _ R]) (simp add: view_after_def table_change_def)
  qed
qed

lemma free_quiet:
  assumes "recs w R H" "p \<noteq> NULL" "st \<noteq> F_remove" "st \<noteq> F_zero"
  shows "table_fields (g_state (snd (free_step X st p e w))) = table_fields (g_state w)"
    "g_entries (snd (free_step X st p e w)) = g_entries w" "rec_of (fst (free_step X st p e w)) = None"
  using assms(3,4)
  by (cases st; simp add: stripe_defs rec_of_def find_unchanged [OF assms(1,2)]; simp add: table_fields_def)+

lemma own_free:
  assumes "own_inv T pcs w R" "lock_inv pcs (g_state w)" "t \<in> T" "pcs t = Free st p e"
    and "free_step X st p e w = (pc, w')" "st = F_test \<Longrightarrow> e_size (g_entries w e) \<le> s_current_bytes (g_state w)"
  shows "\<exists>R'. own_inv T (pcs(t := pc)) w' R' \<and> view w' R' = view_after (view w R) (pcs t)"
proof (cases "st = F_remove")
  case True
  then show ?thesis
    using own_inv_remove [OF assms(1-3), of p e X] assms(4,5)
    by (intro exI [of _ "R(p := tl (R p))"]) (auto simp: view_after_def table_change_def)
next
  case False
  have ok: "pc_ok w R (Free st p e)" using own_inv_ok [OF assms(1), of t] assms(4) by simp
  then have p: "p \<noteq> NULL" "st \<noteq> F_zero" by (simp_all add: pc_ok_def)
  have r: "recs w R (held pcs)" using assms(1) by (simp add: own_inv_def)
  note f = find_unchanged [OF r p(1)]
  have key: "a \<noteq> NULL" if "R p = a # as" for a as using entry_table.key_law [OF r, of a p] that by simp
  note q = free_quiet [OF r p(1) False p(2), of X e, unfolded assms(5) fst_conv snd_conv]
  have "pc_ok w R pc"
    using False p assms(5,6) ok f key
    by (cases st) (auto simp: pc_ok_def found_def split: list.splits if_splits)
  then show ?thesis
    using own_inv_quiet [OF assms(1,3) q(1,2)] q(3) False assms(4)
    by (intro exI [of _ R]) (simp add: view_after_def table_change_def rec_of_def)
qed

section \<open>The counters\<close>

lemma view_after_simps:
  "table_change pc = None \<Longrightarrow> view_after S pc = S"
  "table_change pc = Some (p, c) \<Longrightarrow> view_after S pc = S(p := apply_change c (S p))"
  by (simp_all add: view_after_def)

text \<open>A thread announces a change of a pointer only inside the stripe of that pointer.\<close>

lemma ahead_inside:
  "\<forall>pc p c. bytes_ahead pc = Some (p, c) \<longrightarrow> inside pc = Some p"
  "\<forall>pc p c. count_ahead pc = Some (p, c) \<longrightarrow> inside pc = Some p"
  by (auto simp: bytes_ahead_def count_ahead_def inside_def split: tpc.splits if_splits)

lemma change_announced:
  "table_change pc = Some (p, c) \<Longrightarrow> bytes_ahead pc = Some (p, c)"
  "table_change pc = Some (p, c) \<Longrightarrow> count_ahead pc = Some (p, c)"
  by (auto simp: bytes_ahead_def count_ahead_def table_change_def split: tpc.splits if_splits)

text \<open>
  What is announced about the table: the announcements \<open>d\<close> of the threads, each inside its stripe. A step
  of a thread makes its announced change, announces one, or does neither.
\<close>

lemma ahead_quiet:
  assumes "ahead (d \<circ> pcs) S G" "d pc = d (pcs t)"
  shows "ahead (d \<circ> pcs(t := pc)) S G"
proof -
  have "d \<circ> pcs(t := pc) = d \<circ> pcs" using assms(2) by (auto simp: fun_eq_iff)
  then show ?thesis using assms(1) by simp
qed

lemma ahead_made:
  assumes "ahead (d \<circ> pcs) S G" "lock_inv pcs s" "\<forall>q p c. d q = Some (p, c) \<longrightarrow> inside q = Some p"
    and "d (pcs t) = Some (p, c)" "d pc = None"
  shows "ahead (d \<circ> pcs(t := pc)) (S(p := apply_change c (S p))) G"
proof -
  have "(d \<circ> pcs) u \<noteq> Some (p, b)" if "u \<noteq> t" for u b
    using lock_inv_other [OF assms(2), of t p u] that assms(3,4) by auto
  then show ?thesis using ahead_make [OF assms(1), of t p c] assms(4,5) by (simp add: fun_upd_comp)
qed

lemma ahead_announced:
  assumes "ahead (d \<circ> pcs) S G" "lock_inv pcs s" "\<forall>q p c. d q = Some (p, c) \<longrightarrow> inside q = Some p"
    and "d (pcs t) = None" "inside (pcs t) = Some p" "d pc = Some (p, c)"
  shows "G p = S p" "ahead (d \<circ> pcs(t := pc)) S (G(p := apply_change c (S p)))"
proof -
  have "(d \<circ> pcs) u \<noteq> Some (p, b)" for u b
    using lock_inv_other [OF assms(2,5), of u] assms(3,4) by (cases "u = t") auto
  then show "G p = S p" "ahead (d \<circ> pcs(t := pc)) S (G(p := apply_change c (S p)))"
    using ahead_announce(1) [OF assms(1), of t p] ahead_announce(2) [OF assms(1), of t p c] assms(4,6)
    by (auto simp: fun_upd_comp)
qed

lemma ahead_step:
  assumes "ahead (d \<circ> pcs) S G" "lock_inv pcs s" "\<forall>q p c. d q = Some (p, c) \<longrightarrow> inside q = Some p"
    and "\<And>x. table_change (pcs t) = Some x \<Longrightarrow> d (pcs t) = Some x"
    and "d pc = (if table_change (pcs t) = None then d (pcs t) else None)"
  shows "ahead (d \<circ> pcs(t := pc)) (view_after S (pcs t)) G"
proof (cases "table_change (pcs t)")
  case None
  then show ?thesis using ahead_quiet [of d pcs S G pc t] assms(1,5) by (simp add: view_after_simps)
next
  case (Some x)
  obtain p c where x: "x = (p, c)" by fastforce
  show ?thesis
    using ahead_made [OF assms(1-3), of t p c pc] assms(4) [OF Some] assms(5) Some
    by (simp add: view_after_simps x)
qed

lemma finite_change:
  assumes "finite {p. G p \<noteq> ([] :: size_t list)}"
  shows "finite {q. (G(p := xs)) q \<noteq> []}"
  by (rule finite_subset [OF _ finite.insertI [OF assms, of p]]) (auto split: if_splits)

lemma pending_upd:
  assumes "finite T" "t \<in> T"
  shows "(\<Sum>u\<in>T. pending ((pcs(t := pc)) u)) + pending (pcs t) = (\<Sum>u\<in>T. pending (pcs u)) + pending pc"
proof -
  have "(\<Sum>u\<in>T - {t}. pending ((pcs(t := pc)) u)) = (\<Sum>u\<in>T - {t}. pending (pcs u))" by (rule sum.cong) auto
  then show ?thesis using sum.remove [OF assms, of "\<lambda>u. pending ((pcs(t := pc)) u)"] sum.remove [OF assms, of "\<lambda>u. pending (pcs u)"]
    by simp
qed

text \<open>The byte counter: a step that leaves it, an allocation that adds its size, a release that subtracts it.\<close>

lemma bytes_calm:
  assumes "bytes_inv T pcs s S" "lock_inv pcs s" "finite T" "t \<in> T" "s_current_bytes s' = s_current_bytes s"
    and "pending pc \<le> pending (pcs t)" "bytes_ahead pc = (if table_change (pcs t) = None then bytes_ahead (pcs t) else None)"
  shows "bytes_inv T (pcs(t := pc)) s' (view_after S (pcs t))"
proof -
  have "ahead (bytes_ahead \<circ> pcs(t := pc)) (view_after S (pcs t)) G" if "ahead (bytes_ahead \<circ> pcs) S G" for G
    using ahead_step [OF that assms(2) ahead_inside(1), of t pc] change_announced(1) [of "pcs t"] assms(7) by fastforce
  then show ?thesis
    using assms(1,5,6) pending_upd [OF assms(3,4), of pcs pc] by (auto simp: bytes_inv_def)
qed

lemma bytes_grow:
  assumes "bytes_inv T pcs s S" "lock_inv pcs s" "finite T" "t \<in> T" "s_current_bytes s' = s_current_bytes s + sz"
    and "bytes_ahead (pcs t) = None" "inside (pcs t) = Some p" "bytes_ahead pc = Some (p, Pushed sz)"
    and "pending (pcs t) = unat sz" "pending pc = 0"
  shows "bytes_inv T (pcs(t := pc)) s' S"
proof -
  obtain G where G: "ahead (bytes_ahead \<circ> pcs) S G" "finite {p. G p \<noteq> []}" "unat (s_current_bytes s) = live_bytes G"
    and room: "unat (s_current_bytes s) + (\<Sum>u\<in>T. pending (pcs u)) < 2 ^ 64"
    using assms(1) by (auto simp: bytes_inv_def)
  note a = ahead_announced [OF G(1) assms(2) ahead_inside(1) assms(6-8)]
  have sum: "(\<Sum>u\<in>T. pending ((pcs(t := pc)) u)) + unat sz = (\<Sum>u\<in>T. pending (pcs u))"
    using pending_upd [OF assms(3,4), of pcs pc] assms(9,10) by simp
  have "unat (s_current_bytes s') = unat (s_current_bytes s) + unat sz"
    using room sum by (simp add: assms(5) unat_word_ariths)
  moreover have "live_bytes (G(p := sz # G p)) = live_bytes G + unat sz" by (rule live_push [OF G(2)])
  ultimately show ?thesis
    using a G(2,3) room sum finite_change [OF G(2), of p "sz # G p"] unfolding bytes_inv_def
    by (intro conjI exI [of _ "G(p := sz # G p)"]) simp_all
qed

lemma bytes_shrink:
  assumes "bytes_inv T pcs s S" "lock_inv pcs s"
    and "bytes_ahead (pcs t) = None" "inside (pcs t) = Some p" "bytes_ahead pc = Some (p, Popped)"
    and "S p = sz # xs"
  shows "sz \<le> s_current_bytes s"
    and "\<lbrakk>finite T; t \<in> T; pending (pcs t) = 0; pending pc = 0; s_current_bytes s' = s_current_bytes s - sz\<rbrakk> \<Longrightarrow>
      bytes_inv T (pcs(t := pc)) s' S"
proof -
  obtain G where G: "ahead (bytes_ahead \<circ> pcs) S G" "finite {p. G p \<noteq> []}" "unat (s_current_bytes s) = live_bytes G"
    and room: "unat (s_current_bytes s) + (\<Sum>u\<in>T. pending (pcs u)) < 2 ^ 64"
    using assms(1) by (auto simp: bytes_inv_def)
  note a = ahead_announced [OF G(1) assms(2) ahead_inside(1) assms(3-5)]
  have lb: "live_bytes G = live_bytes (G(p := xs)) + unat sz" by (rule live_pop [OF G(2)]) (simp add: a(1) assms(6))
  then show le: "sz \<le> s_current_bytes s" using G(3) by (simp add: word_le_nat_alt)
  assume h: "finite T" "t \<in> T" "pending (pcs t) = 0" "pending pc = 0" "s_current_bytes s' = s_current_bytes s - sz"
  have sum: "(\<Sum>u\<in>T. pending ((pcs(t := pc)) u)) = (\<Sum>u\<in>T. pending (pcs u))"
    using pending_upd [OF h(1,2), of pcs pc] h(3,4) by simp
  have "unat (s_current_bytes s') = unat (s_current_bytes s) - unat sz"
    using le by (simp add: h(5) unat_sub)
  then show "bytes_inv T (pcs(t := pc)) s' S"
    using a G(2,3) lb room sum finite_change [OF G(2), of p xs] assms(6) unfolding bytes_inv_def
    by (intro conjI exI [of _ "G(p := xs)"]) simp_all
qed

text \<open>The numbers of recorded allocations and releases.\<close>

lemma count_calm:
  assumes "count_inv pcs s S" "lock_inv pcs s" "s_alloc_count s' = s_alloc_count s" "s_free_count s' = s_free_count s"
    and "count_ahead pc = (if table_change (pcs t) = None then count_ahead (pcs t) else None)"
  shows "count_inv (pcs(t := pc)) s' (view_after S (pcs t))"
proof -
  have "ahead (count_ahead \<circ> pcs(t := pc)) (view_after S (pcs t)) C" if "ahead (count_ahead \<circ> pcs) S C" for C
    using ahead_step [OF that assms(2) ahead_inside(2), of t pc] change_announced(2) [of "pcs t"] assms(5) by fastforce
  then show ?thesis using assms(1,3,4) by (auto simp: count_inv_def)
qed

lemma count_grow:
  assumes "count_inv pcs s S" "lock_inv pcs s" "s_alloc_count s' = s_alloc_count s + 1" "s_free_count s' = s_free_count s"
    and "count_ahead (pcs t) = None" "inside (pcs t) = Some p" "count_ahead pc = Some (p, Pushed sz)"
  shows "count_inv (pcs(t := pc)) s' S"
proof -
  obtain C where C: "ahead (count_ahead \<circ> pcs) S C" "finite {p. C p \<noteq> []}"
    "s_alloc_count s - s_free_count s = of_nat (live_count C)"
    using assms(1) by (auto simp: count_inv_def)
  note a = ahead_announced [OF C(1) assms(2) ahead_inside(2) assms(5-7)]
  have "s_alloc_count s + 1 - s_free_count s = of_nat (live_count C) + 1" using C(3) by (simp add: algebra_simps)
  then show ?thesis
    using a live_push(2) [OF C(2), of p sz] finite_change [OF C(2), of p "sz # C p"] assms(3,4) unfolding count_inv_def
    by (intro exI [of _ "C(p := sz # C p)"]) (simp add: add.commute)
qed

lemma count_shrink:
  assumes "count_inv pcs s S" "lock_inv pcs s" "s_alloc_count s' = s_alloc_count s" "s_free_count s' = s_free_count s + 1"
    and "count_ahead (pcs t) = None" "inside (pcs t) = Some p" "count_ahead pc = Some (p, Popped)" "S p = x # xs"
  shows "count_inv (pcs(t := pc)) s' S"
proof -
  obtain C where C: "ahead (count_ahead \<circ> pcs) S C" "finite {p. C p \<noteq> []}"
    "s_alloc_count s - s_free_count s = of_nat (live_count C)"
    using assms(1) by (auto simp: count_inv_def)
  note a = ahead_announced [OF C(1) assms(2) ahead_inside(2) assms(5-7)]
  have lc: "live_count C = Suc (live_count (C(p := xs)))" by (rule live_pop [OF C(2)]) (simp add: a(1) assms(8))
  have "s_alloc_count s - (s_free_count s + 1) = of_nat (live_count C) - 1" using C(3) by (simp add: algebra_simps)
  then show ?thesis
    using a lc finite_change [OF C(2), of p xs] assms(3,4,8) unfolding count_inv_def
    by (intro exI [of _ "C(p := xs)"]) simp
qed

section \<open>The peak\<close>

lemma peak_due_mono: "peak_due now pc \<Longrightarrow> now' \<le> now \<Longrightarrow> peak_due now' pc"
  by (auto simp: peak_due_def split: tpc.splits alloc_stage.splits)

lemma peak_seen_mono: "peak_seen peak pc \<Longrightarrow> peak \<le> peak' \<Longrightarrow> peak_seen peak' pc"
  by (auto simp: peak_seen_def split: tpc.splits alloc_stage.splits)

lemma peak_calm:
  assumes "peak_inv pcs s" "s_current_bytes s' \<le> s_current_bytes s" "s_peak_bytes s \<le> s_peak_bytes s'"
    and "peak_seen (s_peak_bytes s') pc"
    and "peak_due (s_current_bytes s) (pcs t) \<Longrightarrow> s_current_bytes s' \<le> s_peak_bytes s' \<or> peak_due (s_current_bytes s') pc"
  shows "peak_inv (pcs(t := pc)) s'"
proof -
  have "peak_seen (s_peak_bytes s') ((pcs(t := pc)) u)" for u
    using assms(1,4) peak_seen_mono [OF _ assms(3), of "pcs u"] by (cases "u = t") (simp_all add: peak_inv_def)
  moreover have "s_current_bytes s' \<le> s_peak_bytes s' \<or> (\<exists>u. peak_due (s_current_bytes s') ((pcs(t := pc)) u))"
  proof (cases "s_current_bytes s \<le> s_peak_bytes s")
    case True
    then have "s_current_bytes s' \<le> s_peak_bytes s'" using assms(2,3) by simp
    then show ?thesis ..
  next
    case False
    then obtain u where u: "peak_due (s_current_bytes s) (pcs u)" using assms(1) by (auto simp: peak_inv_def)
    show ?thesis
    proof (cases "u = t")
      case True
      then show ?thesis using u assms(5) by (metis fun_upd_same)
    next
      case False
      then show ?thesis using peak_due_mono [OF u assms(2)] by (metis fun_upd_other)
    qed
  qed
  ultimately show ?thesis by (simp add: peak_inv_def)
qed

lemma peak_due_alloc:
  assumes "st \<noteq> A_bytes" "peak_due (s_current_bytes (g_state w)) (Alloc st p sz e)"
    and "peak_seen (s_peak_bytes (g_state w)) (Alloc st p sz e)"
  shows "s_current_bytes (g_state w) \<le> s_peak_bytes (g_state (snd (alloc_step X sp st p sz e w))) \<or>
     peak_due (s_current_bytes (g_state w)) (fst (alloc_step X sp st p sz e w))"
proof (cases st)
  case (A_cas cur old_peak)
  then have h: "s_current_bytes (g_state w) \<le> cur" "old_peak \<le> s_peak_bytes (g_state w)"
    using assms(2,3) by (simp_all add: peak_due_def peak_seen_def)
  then have "\<not> old_peak < cur \<Longrightarrow> s_current_bytes (g_state w) \<le> old_peak"
    "\<not> old_peak < cur \<Longrightarrow> s_current_bytes (g_state w) \<le> s_peak_bytes (g_state w)"
    by simp_all
  then show ?thesis using h A_cas by (simp add: peak_due_def)
qed (use assms in \<open>simp_all add: peak_due_def\<close>)

lemma peak_alloc:
  assumes "peak_inv pcs (g_state w)" "pcs t = Alloc st p sz e" "alloc_step X sp st p sz e w = (pc, w')"
  shows "peak_inv (pcs(t := pc)) (g_state w')"
proof (cases "st = A_bytes")
  case True
  have "peak_due (s_current_bytes (g_state w')) pc" using assms(3) True by (auto simp: peak_due_def)
  then have "\<exists>u. peak_due (s_current_bytes (g_state w')) ((pcs(t := pc)) u)" by (metis fun_upd_same)
  moreover have "s_peak_bytes (g_state w') = s_peak_bytes (g_state w)"
    using assms(3) True by auto
  moreover have "peak_seen k pc" for k using assms(3) True by (auto simp: peak_seen_def)
  ultimately show ?thesis using assms(1) by (auto simp: peak_inv_def)
next
  case False
  note c = alloc_counters [of X sp st p sz e w, unfolded assms(3) snd_conv]
  have seen: "peak_seen (s_peak_bytes (g_state w)) (Alloc st p sz e)"
    using assms(1,2) unfolding peak_inv_def by metis
  have "s_peak_bytes (g_state w) \<le> s_peak_bytes (g_state w')" using c(4) by (simp split: alloc_stage.splits) (blast intro: less_imp_le)
  moreover have "peak_seen (s_peak_bytes (g_state w')) pc"
    using assms(3) by (cases st) (auto simp: peak_seen_def split: if_splits)
  moreover have "s_current_bytes (g_state w') \<le> s_peak_bytes (g_state w') \<or> peak_due (s_current_bytes (g_state w')) pc"
    if "peak_due (s_current_bytes (g_state w)) (pcs t)"
    using peak_due_alloc [OF False _ seen, of X sp] that assms(2,3) c(1) False by simp
  ultimately show ?thesis using c(1) False by (intro peak_calm [OF assms(1)]) simp_all
qed

section \<open>Every step keeps the invariant\<close>

lemma alloc_ahead:
  "st \<noteq> A_bytes \<Longrightarrow> bytes_ahead (fst (alloc_step X sp st p sz e w)) =
     (if table_change (Alloc st p sz e) = None then bytes_ahead (Alloc st p sz e) else None)"
  "st \<noteq> A_count \<Longrightarrow> count_ahead (fst (alloc_step X sp st p sz e w)) =
     (if table_change (Alloc st p sz e) = None then count_ahead (Alloc st p sz e) else None)"
  "pending (fst (alloc_step X sp st p sz e w)) \<le> pending (Alloc st p sz e)"
  by (cases st; simp add: pc_defs)+

lemma bytes_alloc:
  assumes "bytes_inv T pcs (g_state w) S" "lock_inv pcs (g_state w)" "finite T" "t \<in> T" "pcs t = Alloc st p sz e"
    and "alloc_step X sp st p sz e w = (pc, w')"
  shows "bytes_inv T (pcs(t := pc)) (g_state w') (view_after S (pcs t))"
proof (cases "st = A_bytes")
  case True
  have "bytes_inv T (pcs(t := pc)) (g_state w') S"
    using assms(5,6) True by (intro bytes_grow [OF assms(1-4), where sz = sz and p = p]) (auto simp: pc_defs)
  then show ?thesis using True by (simp add: assms(5) view_after_def table_change_def)
next
  case False
  then show ?thesis
    using alloc_ahead(1) [of st X sp p sz e w] alloc_ahead(3) [of X sp st p sz e w] alloc_counters(1) [of X sp st p sz e w] assms(5,6)
    by (intro bytes_calm [OF assms(1-4)]) simp_all
qed

lemma count_alloc:
  assumes "count_inv pcs (g_state w) S" "lock_inv pcs (g_state w)" "pcs t = Alloc st p sz e"
    and "alloc_step X sp st p sz e w = (pc, w')"
  shows "count_inv (pcs(t := pc)) (g_state w') (view_after S (pcs t))"
proof (cases "st = A_count")
  case True
  have "count_inv (pcs(t := pc)) (g_state w') S"
    using assms(3,4) True by (intro count_grow [OF assms(1,2), where sz = sz and p = p]) (auto simp: pc_defs)
  then show ?thesis using True by (simp add: assms(3) view_after_def table_change_def)
next
  case False
  then show ?thesis
    using alloc_ahead(2) [of st X sp p sz e w] alloc_counters(2,3) [of X sp st p sz e w] assms(3,4)
    by (intro count_calm [OF assms(1,2)]) simp_all
qed

lemma alloc_track:
  assumes "track_inv T (pcs, w)" "finite T" "t \<in> T" "pcs t = Alloc st p sz e"
    and "st = A_lock \<longrightarrow> \<not> s_bucket_locks (g_state w) (stripe (g_state w) p)" "alloc_step X sp st p sz e w = (pc, w')"
  shows "track_inv T (pcs(t := pc), w')"
proof -
  obtain R where i: "lock_inv pcs (g_state w)" "peak_inv pcs (g_state w)" "own_inv T pcs w R"
    "bytes_inv T pcs (g_state w) (view w R)" "count_inv pcs (g_state w) (view w R)"
    using assms(1) by (auto simp: track_inv_def Let_def)
  obtain R' where "own_inv T (pcs(t := pc)) w' R'" "view w' R' = view_after (view w R) (pcs t)"
    using own_alloc [OF i(3,1) assms(3,4,6)] by blast
  then show ?thesis
    using lock_inv_alloc [OF i(1) assms(4,6,5)] peak_alloc [OF i(2) assms(4,6)]
      bytes_alloc [OF i(4,1) assms(2-4,6)] count_alloc [OF i(5,1) assms(4,6)]
    by (auto simp: track_inv_def Let_def)
qed

lemma free_ahead:
  "st \<notin> {F_sub, F_zero} \<Longrightarrow> bytes_ahead (fst (free_step X st p e w)) =
     (if table_change (Free st p e) = None then bytes_ahead (Free st p e) else None)"
  "st \<noteq> F_count \<Longrightarrow> count_ahead (fst (free_step X st p e w)) =
     (if table_change (Free st p e) = None then count_ahead (Free st p e) else None)"
  by (cases st; simp add: pc_defs case_prod_beta)+

lemma free_pending: "pending (fst (free_step X st p e w)) = 0"
  by (cases st) (simp_all add: pc_defs case_prod_beta)

text \<open>The record that \<open>free\<close> found is on the books, so there is enough to subtract.\<close>

lemma found_view:
  assumes "own_inv T pcs w R" "pcs t = Free st p e" "st \<notin> {F_lock, F_find, F_unlock}"
  shows "\<exists>xs. view w R p = e_size (g_entries w e) # xs"
  using own_inv_ok [OF assms(1), of t] assms(2,3) by (auto simp: pc_ok_def found_def view_def)

lemma free_guard:
  assumes "own_inv T pcs w R" "bytes_inv T pcs (g_state w) (view w R)" "lock_inv pcs (g_state w)"
    and "pcs t = Free st p e" "st \<in> {F_test, F_sub}"
  shows "e_size (g_entries w e) \<le> s_current_bytes (g_state w)"
proof -
  obtain xs where "view w R p = e_size (g_entries w e) # xs"
    using found_view [OF assms(1,4)] assms(5) by auto
  then show ?thesis
    using assms(4,5)
    by (intro bytes_shrink(1) [OF assms(2,3), where t = t and p = p and pc = "Free F_count p e"]) (auto simp: pc_defs)
qed

lemma bytes_free:
  assumes "own_inv T pcs w R" "bytes_inv T pcs (g_state w) (view w R)" "lock_inv pcs (g_state w)" "finite T" "t \<in> T"
    and "pcs t = Free st p e" "free_step X st p e w = (pc, w')"
  shows "bytes_inv T (pcs(t := pc)) (g_state w') (view_after (view w R) (pcs t))"
proof (cases "st = F_sub")
  case True
  obtain xs where v: "view w R p = e_size (g_entries w e) # xs" using found_view [OF assms(1,6)] True by auto
  have "bytes_inv T (pcs(t := pc)) (g_state w') (view w R)"
    using True assms(6,7)
    by (intro bytes_shrink(2) [OF assms(2,3) _ _ _ v]) (auto simp: pc_defs assms(4,5))
  then show ?thesis using True by (simp add: assms(6) view_after_def table_change_def)
next
  case False
  have ok: "recs w R (held pcs)" "p \<noteq> NULL" "st \<noteq> F_zero"
    using assms(1) own_inv_ok [OF assms(1), of t] assms(6) by (simp_all add: own_inv_def pc_ok_def)
  show ?thesis
    using free_ahead(1) [of st X p e w] free_counters(1) [OF ok, of X e] free_pending [of X st p e w] assms(6,7) False ok(3)
    by (intro bytes_calm [OF assms(2-5)]) simp_all
qed

lemma count_free:
  assumes "own_inv T pcs w R" "count_inv pcs (g_state w) (view w R)" "lock_inv pcs (g_state w)"
    and "pcs t = Free st p e" "free_step X st p e w = (pc, w')"
  shows "count_inv (pcs(t := pc)) (g_state w') (view_after (view w R) (pcs t))"
proof (cases "st = F_count")
  case True
  obtain xs where v: "view w R p = e_size (g_entries w e) # xs" using found_view [OF assms(1,4)] True by auto
  have "count_inv (pcs(t := pc)) (g_state w') (view w R)"
    using True assms(4,5)
    by (intro count_shrink [OF assms(2,3) _ _ _ _ _ v]) (auto simp: pc_defs)
  then show ?thesis using True by (simp add: assms(4) view_after_def table_change_def)
next
  case False
  have ok: "recs w R (held pcs)" "p \<noteq> NULL" "st \<noteq> F_zero"
    using assms(1) own_inv_ok [OF assms(1), of t] assms(4) by (simp_all add: own_inv_def pc_ok_def)
  show ?thesis
    using free_ahead(2) [of st X p e w] free_counters(2,3) [OF ok, of X e] assms(4,5) False
    by (intro count_calm [OF assms(2,3)]) simp_all
qed

lemma peak_free:
  assumes "peak_inv pcs (g_state w)" "pcs t = Free st p e" "free_step X st p e w = (pc, w')"
    and "recs w R H" "p \<noteq> NULL" "st \<noteq> F_zero" "st = F_sub \<Longrightarrow> e_size (g_entries w e) \<le> s_current_bytes (g_state w)"
  shows "peak_inv (pcs(t := pc)) (g_state w')"
proof -
  note c = free_counters [OF assms(4-6), of X e, unfolded assms(3) snd_conv]
  have "peak_seen k (fst (free_step X st p e w))" for k by (cases st) (simp_all add: peak_seen_def case_prod_beta)
  then have "peak_seen (s_peak_bytes (g_state w')) pc" by (simp add: assms(3))
  then show ?thesis
    using c(1,4) assms(2,7) by (intro peak_calm [OF assms(1)]) (auto simp: peak_due_def word_sub_le)
qed

lemma free_track:
  assumes "track_inv T (pcs, w)" "finite T" "t \<in> T" "pcs t = Free st p e"
    and "st = F_lock \<longrightarrow> \<not> s_bucket_locks (g_state w) (stripe (g_state w) p)" "free_step X st p e w = (pc, w')"
  shows "track_inv T (pcs(t := pc), w')"
proof -
  obtain R where i: "lock_inv pcs (g_state w)" "peak_inv pcs (g_state w)" "own_inv T pcs w R"
    "bytes_inv T pcs (g_state w) (view w R)" "count_inv pcs (g_state w) (view w R)"
    using assms(1) by (auto simp: track_inv_def Let_def)
  have ok: "recs w R (held pcs)" "p \<noteq> NULL" "st \<noteq> F_zero"
    using i(3) own_inv_ok [OF i(3), of t] assms(4) by (simp_all add: own_inv_def pc_ok_def)
  have g: "st \<in> {F_test, F_sub} \<Longrightarrow> e_size (g_entries w e) \<le> s_current_bytes (g_state w)"
    by (rule free_guard [OF i(3,4,1) assms(4)])
  obtain R' where "own_inv T (pcs(t := pc)) w' R'" "view w' R' = view_after (view w R) (pcs t)"
    using own_free [OF i(3,1) assms(3,4,6)] g by blast
  then show ?thesis
    using lock_inv_free [OF i(1) assms(4,6) ok(1,2) assms(5)] peak_free [OF i(2) assms(4,6) ok] g
      bytes_free [OF i(3,4,1) assms(2-4,6)] count_free [OF i(3,5,1) assms(4,6)]
    by (auto simp: track_inv_def Let_def)
qed

lemma begin_track:
  assumes "track_inv T (pcs, w)" "finite T" "t \<in> T" "pcs t = Idle" "table_step A w w'"
    and "pc = Alloc A_lock p sz e \<or> pc = Free F_lock p e"
    and "\<And>R. own_inv T pcs w R \<Longrightarrow> own_inv T (pcs(t := pc)) w' R \<and> view w' R = view w R"
    and "unat (s_current_bytes (g_state w)) + (\<Sum>u\<in>T. pending (pcs u)) + pending pc < 2 ^ 64"
  shows "track_inv T (pcs(t := pc), w')"
proof -
  obtain R where i: "lock_inv pcs (g_state w)" "peak_inv pcs (g_state w)" "own_inv T pcs w R"
    "bytes_inv T pcs (g_state w) (view w R)" "count_inv pcs (g_state w) (view w R)"
    using assms(1) by (auto simp: track_inv_def Let_def)
  note k = table_step_kept [OF assms(5)]
  have pc: "inside pc = inside (pcs t)" "bytes_ahead pc = bytes_ahead (pcs t)" "count_ahead pc = count_ahead (pcs t)"
    "peak_seen z pc" "\<not> peak_due z (pcs t)" for z
    using assms(4,6) by (auto simp: pc_defs peak_seen_def peak_due_def)
  have "lock_inv (pcs(t := pc)) (g_state w')" by (rule lock_inv_same [OF i(1) pc(1) k(2)])
  moreover have "peak_inv (pcs(t := pc)) (g_state w')"
    using k(1) pc(4,5) by (intro peak_calm [OF i(2)]) (auto simp: counters_kept_def)
  moreover have "bytes_inv T (pcs(t := pc)) (g_state w') (view w R)"
    using i(4) k(1) pending_upd [OF assms(2,3), of pcs pc] assms(4,8) ahead_quiet [of bytes_ahead pcs _ _ pc t, OF _ pc(2)]
    by (auto simp: bytes_inv_def counters_kept_def pending_def)
  moreover have "count_inv (pcs(t := pc)) (g_state w') (view w R)"
    using i(5) k(1) ahead_quiet [of count_ahead pcs _ _ pc t, OF _ pc(3)]
    by (auto simp: count_inv_def counters_kept_def)
  ultimately show ?thesis using assms(7) [OF i(3)] by (auto simp: track_inv_def Let_def)
qed

lemma track_step_inv:
  assumes "track_step X T c d" "track_inv T c" "finite T"
  shows "track_inv T d"
  using assms
proof cases
  case (alloc_begins t pcs p sz w e w')
  have "unat (s_current_bytes (g_state w)) + (\<Sum>u\<in>T. pending (pcs u)) + pending (Alloc A_lock p sz e) < 2 ^ 64"
    using alloc_begins(9) by (simp add: pending_def)
  then show ?thesis
    using begin_track [where pcs = pcs and t = t and pc = "Alloc A_lock p sz e", OF _ assms(3) alloc_begins(3,4) entry_new_step [OF alloc_begins(7)]]
      own_inv_begin [where pcs = pcs and t = t, OF _ alloc_begins(3-8)] assms(2) alloc_begins(1,2)
    by blast
next
  case (alloc_moves t pcs st p sz e w spurious pc w')
  then show ?thesis using alloc_track [where pcs = pcs and t = t, OF _ assms(3)] assms(2) by blast
next
  case (free_begins t pcs p w)
  have "unat (s_current_bytes (g_state w)) + (\<Sum>u\<in>T. pending (pcs u)) + pending (Free F_lock p NULL) < 2 ^ 64"
    using assms(2) free_begins(1) by (auto simp: track_inv_def bytes_inv_def pending_def Let_def)
  moreover have "own_inv T (pcs(t := Free F_lock p NULL)) w R" if "own_inv T pcs w R" for R
    using free_begins by (intro own_inv_quiet(1) [OF that]) (simp_all add: rec_of_def pc_ok_def found_def)
  ultimately show ?thesis
    using begin_track [where pcs = pcs and t = t and pc = "Free F_lock p NULL", OF _ assms(3) free_begins(3,4) table_step_refl] assms(2) free_begins(1,2)
    by blast
next
  case (free_moves t pcs st p e w pc w')
  then show ?thesis using free_track [where pcs = pcs and t = t, OF _ assms(3)] assms(2) by blast
qed

lemma track_steps_inv:
  assumes "track_steps X T c d" "track_inv T c" "finite T"
  shows "track_inv T d"
  using assms by (induction rule: track_steps.induct) (auto intro: track_step_inv)

lemma track_steps_trans: "track_steps X T d f \<Longrightarrow> track_steps X T c d \<Longrightarrow> track_steps X T c f"
  by (induction rule: track_steps.induct) (auto intro: more_steps)

text \<open>With no thread under way the invariant is that of the sequential model.\<close>

lemma track_inv_start:
  assumes "books w S {}" "locks_free w" "s_pool (g_state w) \<noteq> NULL"
  shows "track_inv T (\<lambda>_. Idle, w)"
proof -
  obtain R where R: "recs w R {}" "S = view w R" using assms(1) by (auto simp: books_def tracked_def view_def)
  have d: "ahead (f \<circ> (\<lambda>_. Idle)) S S" if "f Idle = None" for f using that by (simp add: ahead_def)
  note c = tracked_count [OF books_tracked [OF assms(1)]]
  have small: "unat (s_current_bytes (g_state w)) < 2 ^ LENGTH(64)" by (rule unsigned_less)
  have "own_inv T (\<lambda>_. Idle) w R"
    using R assms(1,3) by (simp add: own_inv_def held_def rec_of_def pc_ok_def books_def)
  moreover have "bytes_inv T (\<lambda>_. Idle) (g_state w) S"
    using assms(1) c(1) d [of bytes_ahead] small
    unfolding bytes_inv_def by (intro conjI exI [of _ S]) (simp_all add: books_def pending_def bytes_ahead_def)
  moreover have "count_inv (\<lambda>_. Idle) (g_state w) S"
    using assms(1) c d [of count_ahead] by (auto simp: count_inv_def books_def count_ahead_def)
  moreover have "peak_inv (\<lambda>_. Idle) (g_state w)" using assms(1) by (simp add: peak_inv_def books_def peak_seen_def)
  moreover have "lock_inv (\<lambda>_. Idle) (g_state w)"
    using assms(2) by (simp add: lock_inv_def exclusive_def inside_def locks_free_def)
  ultimately show ?thesis using R(2) by (auto simp: track_inv_def Let_def)
qed

lemma track_inv_idle:
  assumes "track_inv T (pcs, w)" "\<forall>t. pcs t = Idle"
  shows "\<exists>S. books w S {} \<and> locks_free w"
proof -
  have pcs: "pcs = (\<lambda>_. Idle)" using assms(2) by (simp add: fun_eq_iff)
  obtain R where i: "lock_inv pcs (g_state w)" "peak_inv pcs (g_state w)" "own_inv T pcs w R"
    "bytes_inv T pcs (g_state w) (view w R)" "count_inv pcs (g_state w) (view w R)"
    using assms(1) by (auto simp: track_inv_def Let_def)
  have r: "recs w R {}" "\<forall>p. 0 \<notin> set (view w R p)" using i(3) pcs by (simp_all add: own_inv_def held_def rec_of_def)
  then have t: "tracked w (view w R) {}" unfolding tracked_def view_def by blast
  obtain G where G: "ahead (bytes_ahead \<circ> pcs) (view w R) G" "unat (s_current_bytes (g_state w)) = live_bytes G"
    using i(4) by (auto simp: bytes_inv_def)
  obtain C where C: "ahead (count_ahead \<circ> pcs) (view w R) C"
    "s_alloc_count (g_state w) - s_free_count (g_state w) = of_nat (live_count C)"
    using i(5) by (auto simp: count_inv_def)
  have "G = view w R" "C = view w R"
    using ahead_none [OF G(1)] ahead_none [OF C(1)] assms(2) by (simp_all add: bytes_ahead_def count_ahead_def)
  then have "books w (view w R) {}"
    using t G(2) C(2) tracked_count(2) [OF t] i(2) r(2) pcs by (simp add: books_def peak_inv_def peak_due_def)
  moreover have "locks_free w"
    using i(1) pcs by (simp add: lock_inv_def exclusive_def inside_def locks_free_def fun_eq_iff)
  ultimately show ?thesis by blast
qed

end
