(* ===== verification/Thread_Runs.thy ===== *)
theory Thread_Runs
  imports Concurrent_Tracking
begin

text \<open>
  What the interleaving steps of \<^verbatim>\<open>Concurrent_Tracking\<close> amount to: a thread that runs alone does what
  the sequential definitions say, threads exclude each other stripe by stripe, no schedule corrupts the
  books, and no schedule reaches a state from which the threads cannot finish.
\<close>

section \<open>One thread alone\<close>

definition thread_step :: "'l ext \<Rightarrow> tpc \<Rightarrow> 'l world \<Rightarrow> tpc \<times> 'l world" where
  "thread_step X pc w =
     (case pc of Idle \<Rightarrow> (Idle, w) | Alloc st p sz e \<Rightarrow> alloc_step X False st p sz e w | Free st p e \<Rightarrow> free_step X st p e w)"

fun alone :: "'l ext \<Rightarrow> nat \<Rightarrow> tpc \<Rightarrow> 'l world \<Rightarrow> tpc \<times> 'l world" where
  "alone X 0 pc w = (pc, w)"
| "alone X (Suc n) pc w = (let (pc, w) = thread_step X pc w in alone X n pc w)"

text \<open>No thread needs more than twelve steps.\<close>

lemma thread_step_simps [simp]:
  "thread_step X Idle w = (Idle, w)"
  "thread_step X (Alloc st p sz e) w = alloc_step X False st p sz e w"
  "thread_step X (Free ft p e) w = free_step X ft p e w"
  by (simp_all add: thread_step_def)

lemma alone_idle [simp]: "alone X n Idle w = (Idle, w)"
  by (induction n) simp_all

lemma alone_numeral: "alone X (numeral k) pc w = (let (pc, w) = thread_step X pc w in alone X (pred_numeral k) pc w)"
  by (simp add: numeral_eq_Suc)

lemma alone_ends: "fst (alone X 12 pc w) = Idle"
proof (cases pc)
  case (Alloc st p sz e)
  then show ?thesis by (cases st) (simp_all add: alone_numeral)
next
  case (Free st p e)
  then show ?thesis by (cases st) (simp_all add: alone_numeral case_prod_beta)
qed simp

lemma alone_add: "alone X (m + n) pc w = (let (pc, w) = alone X m pc w in alone X n pc w)"
  by (induction m arbitrary: pc w) (simp_all add: case_prod_beta Let_def)

lemma upd_state_cong: "f (g_state w) = g (g_state w) \<Longrightarrow> upd_state f w = upd_state g w"
  by (cases w) simp

text \<open>The compare-and-exchange loop is \<open>update_peak\<close>.\<close>

lemma peak_alone:
  "\<exists>n \<le> 4. alone X n (Alloc A_cur p sz e) w =
     (Alloc A_add p sz e, upd_state (\<lambda>s. let (changed, s) = update_peak s
        in if False \<or> changed then s\<lparr>s_peak_updated := True\<rparr> else s) w)"
proof (cases "s_current_bytes (g_state w) > s_peak_bytes (g_state w)")
  case True
  then show ?thesis
    by (intro exI [of _ 4] conjI) (simp_all add: alone_numeral, intro upd_state_cong, simp add: update_peak_def)
next
  case False
  then show ?thesis
    by (intro exI [of _ 3]) (simp add: alone_numeral, cases w, simp add: update_peak_def)
qed

lemma record_alone:
  "\<exists>n \<le> 10. alone X n (Alloc A_seq p sz e) w = (Idle, mtt_stripe_unlock p (record_alloc False sz e w))"
proof -
  define v where "v = upd_state (\<lambda>s. s\<lparr>s_alloc_seq := s_alloc_seq s + 1, s_alloc_count := s_alloc_count s + 1,
      s_current_bytes := s_current_bytes s + sz, s_total_bytes := s_total_bytes s + sz\<rparr>)
    (upd_entry e (\<lambda>r. r\<lparr>e_alloc_num := s_alloc_seq (g_state w) + 1\<rparr>) w)"
  have four: "alone X 4 (Alloc A_seq p sz e) w = (Alloc A_cur p sz e, v)"
    unfolding v_def by (simp add: alone_numeral)
  obtain n where n: "n \<le> 4" "alone X n (Alloc A_cur p sz e) v =
      (Alloc A_add p sz e, upd_state (\<lambda>s. let (changed, s) = update_peak s
         in if False \<or> changed then s\<lparr>s_peak_updated := True\<rparr> else s) v)"
    using peak_alone [of X p sz e v] by blast
  have r: "record_alloc False sz e w = mtt_entry_add e (upd_state (\<lambda>s. let (changed, s) = update_peak s
         in if False \<or> changed then s\<lparr>s_peak_updated := True\<rparr> else s) v)"
    unfolding record_alloc_def v_def Let_def ..
  have "alone X (4 + n + 2) (Alloc A_seq p sz e) w = (Idle, mtt_stripe_unlock p (record_alloc False sz e w))"
    using four n(2) unfolding r by (simp only: alone_add) (simp add: alone_numeral)
  then show ?thesis using n(1) by (intro exI [of _ "4 + n + 2"]) simp
qed

lemma alone_more: "alone X n pc w = (Idle, v) \<Longrightarrow> n \<le> m \<Longrightarrow> alone X m pc w = (Idle, v)"
  using alone_add [of X n "m - n" pc w] by simp

lemma alloc_alone: "alone X 12 (Alloc A_lock p sz e) w = (Idle, insert_entry X False p sz e w)"
proof -
  define v where "v = mtt_stripe_lock p w"
  have ten: "alone X 10 (Alloc (if s_entry_count (g_state v) \<ge> MTT_MAX_ENTRIES then A_skip else A_seq) p sz e) v =
      (Idle, insert_entry X False p sz e w)"
  proof (cases "s_entry_count (g_state v) \<ge> MTT_MAX_ENTRIES")
    case True
    then show ?thesis by (simp add: alone_numeral insert_entry_def v_def [symmetric])
  next
    case False
    obtain n where "n \<le> 10" "alone X n (Alloc A_seq p sz e) v = (Idle, mtt_stripe_unlock p (record_alloc False sz e v))"
      using record_alone by blast
    from alone_more [OF this(2,1)] show ?thesis using False by (simp add: insert_entry_def v_def [symmetric])
  qed
  have "alone X (2 + 10) (Alloc A_lock p sz e) w = (Idle, insert_entry X False p sz e w)"
    by (simp only: alone_add) (simp add: alone_numeral [of X "num.Bit0 num.One"] v_def [symmetric] ten)
  then show ?thesis by simp
qed

lemma forget_alone:
  "alone X 2 (Free F_test p e) w = (Free F_count p e, upd_state (forget_bytes (e_size (g_entries w e))) w)"
  by (simp add: alone_numeral forget_bytes_def)

lemma free_alone: "alone X 12 (Free F_lock p NULL) w = (Idle, untrack X forget_bytes note_lifetime p w)"
proof -
  obtain e v where f: "mtt_entry_find p (mtt_stripe_lock p w) = (e, v)" by fastforce
  define u where "u = upd_state (forget_bytes (e_size (g_entries v e))) v"
  have two: "alone X 2 (Free F_lock p NULL) w = (Free (if e = NULL then F_unlock else F_test) p e, v)"
    by (simp add: alone_numeral f)
  have "alone X (2 + (2 + 8)) (Free F_lock p NULL) w = (Idle, untrack X forget_bytes note_lifetime p w)"
  proof (cases "e = NULL")
    case True
    then show ?thesis using two by (simp only: alone_add [of X 2]) (simp add: untrack_def f alone_numeral)
  next
    case False
    have "alone X 8 (Free F_count p e) u = (Idle, untrack X forget_bytes note_lifetime p w)"
      using False by (simp add: untrack_def f u_def [symmetric] alone_numeral Let_def) (simp add: u_def)
    then show ?thesis using two False by (simp only: alone_add) (simp add: forget_alone u_def [symmetric])
  qed
  then show ?thesis by simp
qed

text \<open>A thread that holds no lock another holds can run alone.\<close>

definition waits_for :: "tpc \<Rightarrow> ptr option" where
  "waits_for pc =
     (case pc of
        Idle \<Rightarrow> None
      | Alloc st p sz e \<Rightarrow> if st = A_lock then Some p else None
      | Free st p e \<Rightarrow> if st = F_lock then Some p else None)"

lemma step_waits: "waits_for (fst (thread_step X pc w)) = None"
proof (cases pc)
  case (Alloc st p sz e)
  then show ?thesis by (cases st) (simp_all add: waits_for_def)
next
  case (Free st p e)
  then show ?thesis by (cases st) (simp_all add: waits_for_def case_prod_beta)
qed (simp add: waits_for_def)

lemma thread_moves:
  assumes "t \<in> T" "\<And>p. waits_for (pcs t) = Some p \<Longrightarrow> \<not> s_bucket_locks (g_state w) (stripe (g_state w) p)"
    and "thread_step X (pcs t) w = (pc, w')"
  shows "track_steps X T (pcs, w) (pcs(t := pc), w')"
proof (cases "pcs t")
  case Idle
  then show ?thesis using assms(3) by (simp add: fun_upd_idem no_steps)
next
  case (Alloc st p sz e)
  then show ?thesis
    using alloc_moves [of t T pcs st p sz e w X False pc w'] assms by (auto simp: waits_for_def intro: more_steps no_steps)
next
  case (Free st p e)
  then show ?thesis
    using free_moves [of t T pcs st p e w X pc w'] assms by (auto simp: waits_for_def intro: more_steps no_steps)
qed

lemma alone_steps:
  assumes "t \<in> T" "\<And>p. waits_for (pcs t) = Some p \<Longrightarrow> \<not> s_bucket_locks (g_state w) (stripe (g_state w) p)"
    and "alone X n (pcs t) w = (pc, w')"
  shows "track_steps X T (pcs, w) (pcs(t := pc), w')"
  using assms(2,3)
proof (induction n arbitrary: pcs w)
  case 0
  then have "pcs(t := pc) = pcs" "w' = w" by auto
  then show ?case by (simp add: no_steps)
next
  case (Suc n)
  obtain pc1 w1 where s: "thread_step X (pcs t) w = (pc1, w1)" by fastforce
  have "waits_for pc1 = None" using step_waits [of X "pcs t" w] s by simp
  then have "track_steps X T (pcs(t := pc1), w1) (pcs(t := pc1, t := pc), w')"
    using Suc.prems(2) s by (intro Suc.IH) simp_all
  then show ?case using thread_moves [where pcs = pcs and t = t, OF assms(1) Suc.prems(1) s] track_steps_trans by fastforce
qed

section \<open>No deadlock\<close>

text \<open>A thread inside a stripe waits for nothing; if nobody is inside, nothing is locked.\<close>

lemma inside_waits: "inside pc = Some p \<Longrightarrow> waits_for pc = None"
  by (auto simp: inside_def waits_for_def split: tpc.splits if_splits)

lemma some_can_run:
  assumes "lock_inv pcs s" "pcs u \<noteq> Idle"
  shows "\<exists>t. pcs t \<noteq> Idle \<and> (\<forall>p. waits_for (pcs t) = Some p \<longrightarrow> \<not> s_bucket_locks s (stripe s p))"
proof (cases "\<exists>t p. inside (pcs t) = Some p")
  case True
  then obtain t p where "inside (pcs t) = Some p" by blast
  moreover from this have "pcs t \<noteq> Idle" by (auto simp: inside_def)
  ultimately show ?thesis using inside_waits by fastforce
next
  case False
  then have "\<not> s_bucket_locks s i" for i using assms(1) by (auto simp: lock_inv_def exclusive_def)
  then show ?thesis using assms(2) by blast
qed

lemma threads_finish:
  assumes "track_inv T (pcs, w)" "finite T"
  shows "\<exists>w'. track_steps X T (pcs, w) (\<lambda>_. Idle, w')"
  using assms(1)
proof (induction "card {t \<in> T. pcs t \<noteq> Idle}" arbitrary: pcs w rule: less_induct)
  case less
  have out: "pcs t = Idle" if "t \<notin> T" for t
    using less.prems that by (auto simp: track_inv_def own_inv_def Let_def)
  show ?case
  proof (cases "\<exists>t. pcs t \<noteq> Idle")
    case False
    then have "pcs = (\<lambda>_. Idle)" by auto
    then show ?thesis by (auto intro: no_steps)
  next
    case True
    then obtain t where t: "pcs t \<noteq> Idle"
      "\<And>p. waits_for (pcs t) = Some p \<Longrightarrow> \<not> s_bucket_locks (g_state w) (stripe (g_state w) p)"
      using some_can_run [of pcs "g_state w"] less.prems by (auto simp: track_inv_def Let_def)
    then have T: "t \<in> T" using out by blast
    obtain w1 where "alone X 12 (pcs t) w = (Idle, w1)" using alone_ends [of X "pcs t" w] by (metis prod.collapse)
    from alone_steps [where pcs = pcs and t = t, OF T t(2) this] have s: "track_steps X T (pcs, w) (pcs(t := Idle), w1)" .
    have "{u \<in> T. (pcs(t := Idle)) u \<noteq> Idle} \<subset> {u \<in> T. pcs u \<noteq> Idle}" using T t(1) by auto
    then have "card {u \<in> T. (pcs(t := Idle)) u \<noteq> Idle} < card {u \<in> T. pcs u \<noteq> Idle}"
      using assms(2) by (intro psubset_card_mono) simp_all
    then obtain w' where "track_steps X T (pcs(t := Idle), w1) (\<lambda>_. Idle, w')"
      using less.hyps [of "pcs(t := Idle)" w1] track_steps_inv [OF s less.prems assms(2)] by blast
    then show ?thesis using track_steps_trans s by blast
  qed
qed

lemma pc_ok_found:
  assumes "pc_ok w R pc" "found pc = Some (p, e)"
  shows "p \<noteq> NULL \<and> (\<exists>xs. R p = e # xs)"
proof (cases pc)
  case (Free st q a)
  then show ?thesis using assms by (auto simp: pc_ok_def found_def split: if_splits)
qed (use assms in \<open>simp_all add: found_def\<close>)

section \<open>A run\<close>

text \<open>Threads 7 and 8 over the small pool: thread 7 has allocated 24 bytes at \<open>0x20\<close> and waits for the stripe.\<close>

lemma pool_world_start: "books pool_world (\<lambda>_. []) {}" "locks_free pool_world" "s_pool (g_state pool_world) \<noteq> NULL"
proof -
  have "tracked pool_world (\<lambda>_. []) {}" unfolding tracked_def using pool_world_recs by (intro exI [of _ "\<lambda>_. []"]) simp
  then show "books pool_world (\<lambda>_. []) {}"
    by (simp add: books_def live_bytes_def) (simp add: pool_world_def zero_state_def)
  show "locks_free pool_world" "s_pool (g_state pool_world) \<noteq> NULL"
    by (simp_all add: locks_free_def pool_world_def zero_state_def)
qed

lemma pool_world_begins:
  "\<exists>e w. locks_free w \<and> track_steps demo_ext {7, 8} (\<lambda>_. Idle, pool_world) ((\<lambda>_. Idle)(7 := Alloc A_lock 0x20 24 e), w)"
proof -
  obtain e w where n: "mtt_entry_new demo_ext 7 0x20 24 pool_world = (e, w)" by fastforce
  have "nodes ((\<lambda>_. [])(0 := [0x1000, 0x1230])) \<noteq> ({} :: ptr set)" by (auto simp: nodes_def)
  then have e: "e \<noteq> NULL"
    using entry_new_NULL_iff [OF pool_world_inv _ _ n] by (simp add: pool_unlocked_def pool_world_def zero_state_def)
  have "track_step demo_ext {7, 8} (\<lambda>_. Idle, pool_world) ((\<lambda>_. Idle)(7 := Alloc A_lock 0x20 24 e), w)"
    using n e by (intro alloc_begins) (simp_all add: pending_def pool_world_def zero_state_def)
  moreover have "locks_free w"
    using step_fields(7) [OF entry_new_step [OF n]] pool_world_start(2) by (simp add: locks_free_def)
  ultimately show ?thesis by (blast intro: more_steps no_steps)
qed

lemma pool_world_inside:
  "\<exists>e w. track_steps demo_ext {7, 8} (\<lambda>_. Idle, pool_world) ((\<lambda>_. Idle)(7 := Alloc A_check 0x20 24 e), w)"
proof -
  obtain e w where b: "locks_free w" "track_steps demo_ext {7, 8} (\<lambda>_. Idle, pool_world) ((\<lambda>_. Idle)(7 := Alloc A_lock 0x20 24 e), w)"
    using pool_world_begins by blast
  have "track_step demo_ext {7, 8} ((\<lambda>_. Idle)(7 := Alloc A_lock 0x20 24 e), w)
      (((\<lambda>_. Idle)(7 := Alloc A_lock 0x20 24 e))(7 := Alloc A_check 0x20 24 e), mtt_stripe_lock 0x20 w)"
    using b(1) by (intro alloc_moves [where st = A_lock and spurious = False]) (simp_all add: locks_free_def)
  then show ?thesis using more_steps [OF b(2)] by fastforce
qed

section \<open>Properties\<close>

text \<open>The stages are those of the sequential code: a thread that runs without interruption from the
  locking of the stripe does exactly what \<open>insert_entry\<close>, the hook's sequence for a new block, does to the
  process, and one in \<open>free\<close> what \<open>untrack\<close> does.\<close>

theorem stages_sequential:
  "alone X 12 (Alloc A_lock p sz e) w = (Idle, insert_entry X False p sz e w)
   \<and> alone X 12 (Free F_lock p NULL) w = (Idle, untrack X forget_bytes note_lifetime p w)"
  using alloc_alone free_alone by blast

text \<open>C5. No schedule corrupts the books: whatever threads allocate and free, and however their accesses
  to the counters and the table interleave, whenever no thread is under way the byte counter is the sum
  of the recorded sizes, the block counters differ by the number of records, the peak is at least the
  current usage, every table chain is well formed, and no lock is held.\<close>

theorem concurrent_books:
  assumes "books w S {}" "locks_free w" "s_pool (g_state w) \<noteq> NULL" "finite T"
    and "track_steps X T (\<lambda>_. Idle, w) (pcs, w')" "\<forall>t. pcs t = Idle"
  shows "\<exists>S'. books w' S' {} \<and> locks_free w'"
  using track_inv_idle [OF track_steps_inv [OF assms(5) track_inv_start [OF assms(1-3)] assms(4)] assms(6)] .

theorem concurrent_books_witness:
  "\<exists>e w v. track_steps demo_ext {7, 8} (\<lambda>_. Idle, pool_world) ((\<lambda>_. Idle)(7 := Alloc A_lock 0x20 24 e), w) \<and>
     v = insert_entry demo_ext False 0x20 24 e w \<and> (\<exists>S. books v S {})"
proof -
  obtain e w where b: "locks_free w" "track_steps demo_ext {7, 8} (\<lambda>_. Idle, pool_world) ((\<lambda>_. Idle)(7 := Alloc A_lock 0x20 24 e), w)"
    using pool_world_begins by blast
  let ?v = "insert_entry demo_ext False 0x20 24 e w"
  have "track_steps demo_ext {7, 8} ((\<lambda>_. Idle)(7 := Alloc A_lock 0x20 24 e), w)
      (((\<lambda>_. Idle)(7 := Alloc A_lock 0x20 24 e))(7 := Idle), ?v)"
    using b(1) by (intro alone_steps [where n = 12]) (simp_all add: locks_free_def alloc_alone)
  then have "track_steps demo_ext {7, 8} (\<lambda>_. Idle, pool_world) (((\<lambda>_. Idle)(7 := Alloc A_lock 0x20 24 e))(7 := Idle), ?v)"
    using b(2) by (rule track_steps_trans)
  from concurrent_books [OF pool_world_start _ this] have "\<exists>S. books ?v S {}" by auto
  then show ?thesis using b(2) by blast
qed

text \<open>C6. Threads exclude each other: two threads between lock and unlock are in different stripes, a
  stripe is marked as locked just while a thread is in it, and the record \<open>free\<close> has found is still in the
  table, the newest one of its pointer, until \<open>free\<close> itself removes it; so the size it subtracts is on the
  books and the branch that resets the counter to 0 is never taken.\<close>

theorem stripe_exclusion:
  assumes "books w S {}" "locks_free w" "s_pool (g_state w) \<noteq> NULL" "finite T"
    and "track_steps X T (\<lambda>_. Idle, w) (pcs, w')"
  shows "(\<forall>t u p q. t \<noteq> u \<longrightarrow> inside (pcs t) = Some p \<longrightarrow> inside (pcs u) = Some q \<longrightarrow>
       stripe (g_state w') p \<noteq> stripe (g_state w') q)
   \<and> (\<forall>i. s_bucket_locks (g_state w') i \<longleftrightarrow> (\<exists>t p. inside (pcs t) = Some p \<and> stripe (g_state w') p = i))
   \<and> (\<forall>t p e. found (pcs t) = Some (p, e) \<longrightarrow> e \<noteq> NULL \<and> mtt_entry_find p w' = (e, w') \<and> e_ptr (g_entries w' e) = p)
   \<and> (\<forall>t p e. pcs t \<noteq> Free F_zero p e)"
proof -
  have "track_inv T (pcs, w')" by (rule track_steps_inv [OF assms(5) track_inv_start [OF assms(1-3)] assms(4)])
  then obtain R where i: "lock_inv pcs (g_state w')" "own_inv T pcs w' R" by (auto simp: track_inv_def Let_def)
  have r: "recs w' R (held pcs)" and ok: "\<And>t. pc_ok w' R (pcs t)" using i(2) by (simp_all add: own_inv_def)
  have "e \<noteq> NULL \<and> mtt_entry_find p w' = (e, w') \<and> e_ptr (g_entries w' e) = p" if "found (pcs t) = Some (p, e)" for t p e
  proof -
    note f = pc_ok_found [OF ok that]
    then obtain xs where "p \<noteq> NULL" "R p = e # xs" by blast
    then show ?thesis using find_unchanged [OF r, of p] entry_table.key_law [OF r, of e p] by simp
  qed
  moreover have "pcs t \<noteq> Free F_zero p e" for t p e using ok [of t] by (auto simp: pc_ok_def)
  ultimately show ?thesis using i(1) unfolding lock_inv_def exclusive_def by (simp add: comp_def)
qed

theorem stripe_exclusion_witness:
  "\<exists>e w. track_steps demo_ext {7, 8} (\<lambda>_. Idle, pool_world) ((\<lambda>_. Idle)(7 := Alloc A_check 0x20 24 e), w) \<and>
     s_bucket_locks (g_state w) (stripe (g_state w) 0x20)"
proof -
  obtain e w where b: "track_steps demo_ext {7, 8} (\<lambda>_. Idle, pool_world) ((\<lambda>_. Idle)(7 := Alloc A_check 0x20 24 e), w)"
    using pool_world_inside by blast
  from stripe_exclusion [OF pool_world_start _ this] have "s_bucket_locks (g_state w) (stripe (g_state w) 0x20)"
    by (auto simp: inside_def intro!: exI [of _ 7])
  then show ?thesis using b by blast
qed

text \<open>C7. There is no deadlock: from every reachable configuration the threads can all finish, and then
  the books are in order.\<close>

theorem concurrent_finishes:
  assumes "books w S {}" "locks_free w" "s_pool (g_state w) \<noteq> NULL" "finite T"
    and "track_steps X T (\<lambda>_. Idle, w) (pcs, w')"
  shows "\<exists>v S'. track_steps X T (pcs, w') (\<lambda>_. Idle, v) \<and> books v S' {}"
proof -
  have inv: "track_inv T (pcs, w')" by (rule track_steps_inv [OF assms(5) track_inv_start [OF assms(1-3)] assms(4)])
  obtain v where v: "track_steps X T (pcs, w') (\<lambda>_. Idle, v)" using threads_finish [OF inv assms(4)] by blast
  from track_inv_idle [OF track_steps_inv [OF v inv assms(4)]] v show ?thesis by blast
qed

theorem concurrent_finishes_witness:
  "\<exists>e w v S. track_steps demo_ext {7, 8} ((\<lambda>_. Idle)(7 := Alloc A_check 0x20 24 e), w) (\<lambda>_. Idle, v) \<and> books v S {}"
proof -
  obtain e w where "track_steps demo_ext {7, 8} (\<lambda>_. Idle, pool_world) ((\<lambda>_. Idle)(7 := Alloc A_check 0x20 24 e), w)"
    using pool_world_inside by blast
  from concurrent_finishes [OF pool_world_start _ this] show ?thesis by blast
qed

end
