(* ===== verification/Spec2Isabelle.thy ===== *)
theory Spec2Isabelle
  imports Fork No_Hang Scan_Locks Http_Server Thread_Runs
begin

text \<open>
  MemoryTraceTool: a verification library for the heap tracer under \<^verbatim>\<open>src/src\<close>.

  \<^bold>\<open>The program.\<close> An \<^verbatim>\<open>LD_PRELOAD\<close> library that interposes the C allocator. Each interposed
  call (\<^verbatim>\<open>hooks.c\<close>) finds the calling thread's slot (\<^verbatim>\<open>per_thread.h\<close>), guards itself
  against recursion, calls the real allocator through a \<open>raw_*\<close> pointer and records the block in a
  hash table of tracking records taken from a preallocated pool (\<^verbatim>\<open>tracker.c\<close>), with the call
  stack captured by the unwinder (\<^verbatim>\<open>unwind_libunwind.c\<close>) and checked against the executable
  ranges of \<^verbatim>\<open>/proc/self/maps\<close> (\<^verbatim>\<open>addr_validate.c\<close>). Background threads sample the counters
  (\<^verbatim>\<open>time_series.c\<close>), group the live records into leak sites with resolved stacks
  (\<^verbatim>\<open>reporter.c\<close>, \<^verbatim>\<open>stack_cache.c\<close>) and serve a dashboard (\<^verbatim>\<open>http_server.c\<close>).

  \<^bold>\<open>State.\<close> The record \<open>world\<close> of \<open>Mtt_World\<close> holds the globals of the C files under their
  names; a mutex is a flag, a fixed array a function on indices, user memory a map from addresses
  to bytes, a heap of records a map from addresses to records. The record \<open>ext\<close> is the code that is
  not in the sources (libc's allocator, the dynamic linker, the kernel, the unwinder): an argument
  of every operation that calls it. Operations are functions that return the new world; the flag
  \<open>g_hung\<close> records that the thread would never return (a held mutex, a NULL function pointer).

  \<^bold>\<open>Theories.\<close>
  \<^item> \<open>Mtt_Prelude\<close>, \<open>Mtt_Types\<close>, \<open>Mtt_World\<close>, \<open>C_Format\<close>: strings and pointer chains of C, the
    limits and structures of the headers, the world, the number formats of \<open>printf\<close>.
  \<^item> \<open>Per_Thread\<close> (\<^verbatim>\<open>per_thread.h\<close>): thread slots, the cached lookup, the recursion depth. Two
    threads never share a slot; the cached lookup is the uncached one; the depth is balanced.
  \<^item> \<open>Raw_Alloc\<close> (\<^verbatim>\<open>tracker.c\<close>): the bootstrap allocator and the resolution of the real
    functions, also as steps that two threads interleave.
  \<^item> \<open>Sampling\<close> (\<^verbatim>\<open>tracker.c\<close>): which allocations are recorded.
  \<^item> \<open>Proc_Maps\<close> (\<^verbatim>\<open>addr_validate.c\<close>, \<^verbatim>\<open>tracker.c\<close>): the parsing of
    \<^verbatim>\<open>/proc/self/maps\<close>, the binary search over it, the library blacklist.
  \<^item> \<open>Unwind\<close> (\<^verbatim>\<open>unwind_libunwind.c\<close>, \<^verbatim>\<open>tracker.c\<close>): capturing a stack with its
    fall-backs; a fault in the unwinder is survived and the frames stay within the array.
  \<^item> \<open>Entry_Table\<close> (\<^verbatim>\<open>tracker.c\<close>): the hash table and the record pool refine a map from
    pointers to records (locale \<open>tracking_table\<close>); a removed record goes back to the pool or to the
    allocator.
  \<^item> \<open>Tracker_Init\<close>, \<open>Tracking\<close>, \<open>Tracker_Api\<close> (\<^verbatim>\<open>tracker.c\<close>, \<^verbatim>\<open>hooks.c\<close>): initialisation,
    whose settings are those the environment asks for, each number read and cut to its range (\<open>config_of_env\<close>
    is written out independently of the code); the recording and forgetting of blocks with all counters (the
    invariant \<open>books\<close>), no record of the pool being lost or used twice by any sequence of table operations;
    the public \<open>mtt_*\<close> functions (locale \<open>traced_allocator\<close>).
  \<^item> \<open>Hooks\<close>, \<open>Transparency\<close> (\<^verbatim>\<open>hooks.c\<close>): every interposed function; a run of calls under the
    tracer returns what the C library's own functions return, where these keep what the C standard and the
    GNU manual say of them (\<open>libc_laws\<close>), and the statistics count it exactly.
  \<^item> \<open>No_Hang\<close> (\<^verbatim>\<open>hooks.c\<close>, \<^verbatim>\<open>unwind_libunwind.c\<close>): the interposed calls return; no mutex is
    waited for that stays held, no chain of records is endless, and a fault of the unwinder is survived.
  \<^item> \<open>Fork\<close> (\<^verbatim>\<open>hooks.c\<close>, \<^verbatim>\<open>tracker.c\<close>): the interposed \<open>fork\<close>; the parent is restored, the
    child starts empty, whatever stripes, pool records and counters other threads were in the middle of
    changing.
  \<^item> \<open>Concurrent_Tracking\<close>, \<open>Thread_Runs\<close> (\<^verbatim>\<open>hooks.c\<close>): \<open>malloc\<close> and \<open>free\<close> of several threads, one
    access to a counter or to the table per step. The locks exclude, no interleaving corrupts the
    books (an invariant of the step relation, with counters that run ahead of the table), every
    configuration can run to its end, and a thread that runs alone does what \<open>Tracking\<close> says.
  \<^item> \<open>Time_Series\<close> (\<^verbatim>\<open>time_series.c\<close>): the ring refines the history of samples (locale
    \<open>history_buffer\<close>).
  \<^item> \<open>Services\<close> (\<^verbatim>\<open>reporter.c\<close>, \<^verbatim>\<open>http_server.c\<close>, \<^verbatim>\<open>tracker.c\<close>): starting, stopping and
    resetting the background threads, as a step relation.
  \<^item> \<open>Stack_Cache\<close> (\<^verbatim>\<open>stack_cache.c\<close>): the cache of stacks is a map from stacks to entries, and
    resolving a stack gives, frame by frame, the text the address cache holds from an earlier resolution,
    which may be out of date, or else what the linker answers now.
  \<^item> \<open>Leak_Scan\<close>, \<open>Leak_Sites\<close> (\<^verbatim>\<open>reporter.c\<close>): a scan copies every tracked record, groups the
    copies exactly by their stacks and lists the groups in order.
  \<^item> \<open>Report_Text\<close>, \<open>Report\<close> (\<^verbatim>\<open>reporter.c\<close>, \<^verbatim>\<open>flamegraph.c\<close>, \<^verbatim>\<open>tracker.c\<close>): the texts of the
    report files, a whole scan with everything it allocates, writes, keeps and releases, and the
    threads that scan.
  \<^item> \<open>Scan_Effect\<close> (\<^verbatim>\<open>reporter.c\<close>): a scan stores its two results and leaves the rest of the
    tracing state alone; the total it stores is the current usage; the copies for the dashboard
    agree with their count, and each has its pair whenever the allocator gave the memory.
  \<^item> \<open>Scan_Locks\<close> (\<^verbatim>\<open>reporter.c\<close>): a scan, a sample and a heartbeat give back every mutex they take, so
    the reporter thread never blocks on its own locks and stops when told.
  \<^item> \<open>Http_Server\<close> (\<^verbatim>\<open>http_server.c\<close>): the JSON of the dashboard, its pages and the thread that
    serves them. Escaped strings are read back unchanged, routing is a test on the request line, and
    the leak list shows the sites of the last scan.
  \<^item> This theory: a traced process as a sequence of hook calls, samples, scans, heartbeats and requests
    to the dashboard. The books hold all along, and a scan at the end reports the bytes in use.

  \<^bold>\<open>Bounds and fuel.\<close> Walks along a chain of records are \<open>partial_function (option)\<close> and shown
  to return on well-formed chains; the snapshot's walk is bounded by the room left in its array;
  the background threads run for as long as the list of what happens meanwhile;
  every other loop is structural or has a measure. Counters keep their width, and overflow wraps.

  \<^bold>\<open>Not modelled.\<close> Diagnostic messages, also the scan's warning about shallow stacks; the HTML
  text of the dashboard page, which is an argument of its handler; what standard I/O allocates for itself;
  the vendored \<^verbatim>\<open>open/libunwind\<close>, which the tracer only calls; tests, examples and scripts. The
  capture of stacks is that of the default build with the static libunwind, without the frames that a
  crashing \<open>backtrace\<close> or dynamically loaded unwinder has already stored; \<open>%lx\<close> reads plain hex digits, as the
  kernel prints them; the field \<open>leak_table\<close> of the reporter, which is cleared and never used, is left out;
  the heartbeat line is the formatted text in full (its buffer holds 255 characters, which counters of
  realistic size do not reach). A
  single definition is atomic, except where a theory takes it apart: the resolution of the real
  functions in \<open>Raw_Alloc\<close>, the recording and forgetting of blocks in \<open>Concurrent_Tracking\<close>. Their
  steps are sequentially consistent; reorderings that relaxed atomic accesses would allow are not
  modelled.
\<close>

section \<open>The tracer at work\<close>

text \<open>
  Everything that happens to a traced process: calls of the interposed functions by any threads, samples
  for the time series, scans with their reports, heartbeats, and requests to the dashboard, in any order.
\<close>

datatype session_event = Call heap_op | Sample | Scan | Heartbeat | Serve string int string

fun session_step :: "'l ext \<Rightarrow> session_event \<Rightarrow> 'l world \<Rightarrow> 'l world" where
  "session_step X (Call c) w = snd (hook_call X c w)"
| "session_step X Sample w = mtt_ts_record_point X w"
| "session_step X Scan w = scan_and_report X w"
| "session_step X Heartbeat w = mtt_heartbeat_write X w"
| "session_step X (Serve html tid received) w = snd (respond X html tid received w)"

fun session_bytes :: "session_event \<Rightarrow> nat" where
  "session_bytes (Call c) = requested c"
| "session_bytes e = 0"

text \<open>The part of the world the books are kept in.\<close>

definition ledger_of :: "'l world \<Rightarrow> (mtt_state \<times> (ptr \<Rightarrow> mtt_entry)) \<times> (fnptr \<times> fnptr \<times> fnptr \<times> fnptr \<times> bool)" where
  "ledger_of w = ((g_state w, g_entries w), (raw_malloc w, raw_free w, raw_calloc w, raw_realloc w, g_raw_ready w))"

lemma ledger_trace: "trace_of w' = trace_of w \<Longrightarrow> ledger_of w' = ledger_of w"
  by (simp add: core_of_def ledger_of_def)

lemma ledger_core: "core_of w' = core_of w \<Longrightarrow> ledger_of w' = ledger_of w"
  by (rule ledger_trace) (rule core_trace)

lemma running_ledger:
  assumes "ledger_of w' = ledger_of w"
  shows "running k w' S = running k w S"
proof -
  have e: "g_state w' = g_state w" "g_entries w' = g_entries w" "g_raw_ready w' = g_raw_ready w" "setup_of w' = setup_of w"
    using assms by (simp_all add: ledger_of_def setup_of_def)
  have "books w' S {} = books w S {}" by (rule books_same) (simp_all add: e same_books_def)
  then show ?thesis by (simp add: running_def locks_free_def e)
qed

lemma ledger_thread_get: "ledger_of (snd (mtt_thread_get X tid w)) = ledger_of w"
proof (cases rule: thread_get_cases [of X tid w])
  case (claimed i)
  then show ?thesis by (simp only: claimed(1) snd_conv) (simp add: upd_slot_def ledger_of_def)
qed (simp_all only: snd_conv)

text \<open>The dashboard reads.\<close>

lemma core_leak_items: "core_of (snd (leak_items X f cs w)) = core_of w"
  by (induction X f cs w rule: leak_items.induct)
    (simp_all add: write_leak_json_def Let_def case_prod_beta core_simps)

lemma core_leak_list: "core_of (snd (leak_list X w)) = core_of w"
  by (simp add: leak_list_def Let_def case_prod_beta core_leak_items core_simps split: option.splits)

lemma core_series_list: "core_of (snd (series_list X w)) = core_of w"
  by (simp add: series_list_def Let_def case_prod_beta core_simps)

lemma respond_ledger: "ledger_of (snd (respond X html tid received w)) = ledger_of w"
proof -
  have "ledger_of (snd (handle_api_data X tid w)) = ledger_of (snd (mtt_thread_get X tid w))"
    by (rule ledger_core) (simp add: handle_api_data_def Let_def case_prod_beta core_leak_list core_series_list)
  moreover have "ledger_of (snd (handle_api_leaks X w)) = ledger_of w"
    by (rule ledger_core) (simp add: handle_api_leaks_def Let_def case_prod_beta core_leak_list)
  ultimately show ?thesis by (simp add: respond_def ledger_thread_get split: page.split)
qed

lemma record_point_ledger: "ledger_of (mtt_ts_record_point X w) = ledger_of w"
  by (rule ledger_core) (simp add: mtt_ts_record_point_def Let_def core_simps)

lemma heartbeat_ledger: "ledger_of (mtt_heartbeat_write X w) = ledger_of w"
  by (rule ledger_core) (simp add: mtt_heartbeat_write_def Let_def core_simps)

lemma scan_running:
  assumes "running k w S"
  shows "running k (scan_and_report X w) S"
proof -
  have "\<forall>i. \<not> s_bucket_locks (g_state w) i" using assms by (simp add: running_def locks_free_def)
  then obtain b n where "trace_of (scan_and_report X w) = trace_of (store_results b n w)" using scan_trace by blast
  then have "running k (scan_and_report X w) S = running k (store_results b n w) S"
    by (intro running_ledger ledger_trace)
  moreover have "books (store_results b n w) S {} = books w S {}"
    by (rule books_same) (simp_all add: same_books_def table_fields_def)
  ultimately show ?thesis using assms by (simp add: running_def locks_free_def setup_of_def)
qed

text \<open>Every event keeps the contract of the interposed functions.\<close>

lemma session_step_running:
  assumes "running k w S" "live_bytes S + session_bytes e < 2 ^ 64"
  shows "\<exists>S'. running k (session_step X e w) S' \<and> live_bytes S' \<le> live_bytes S + session_bytes e"
proof (cases e)
  case (Call c)
  then show ?thesis using hooks.step_running [OF assms(1), of c] assms(2) hook_call_step [of X c w] by simp
next
  case Scan
  then show ?thesis using scan_running [OF assms(1)] by auto
qed (use assms(1) in \<open>auto simp: running_ledger [OF record_point_ledger] running_ledger [OF heartbeat_ledger]
    running_ledger [OF respond_ledger]\<close>)

lemma session_running:
  assumes "running k w S" "live_bytes S + sum_list (map session_bytes es) < 2 ^ 64"
  shows "\<exists>S'. running k (fold (session_step X) es w) S' \<and> live_bytes S' \<le> live_bytes S + sum_list (map session_bytes es)"
  using assms
proof (induction es arbitrary: w S)
  case (Cons e es)
  from session_step_running [OF Cons.prems(1), of e X] Cons.prems(2) obtain S' where
    s: "running k (session_step X e w) S'" "live_bytes S' \<le> live_bytes S + session_bytes e" by auto
  from Cons.IH [OF s(1)] s(2) Cons.prems(2) obtain R where
    "running k (fold (session_step X) es (session_step X e w)) R" "live_bytes R \<le> live_bytes S' + sum_list (map session_bytes es)"
    by auto
  then show ?case using s(2) by (intro exI [of _ R]) simp
qed auto

text \<open>No recorded block is empty, so there are at most as many blocks as bytes.\<close>

lemma count_le_bytes:
  assumes "books w S {}"
  shows "live_count S \<le> live_bytes S"
proof -
  have "length xs \<le> (\<Sum>x\<leftarrow>xs. unat x)" if "0 \<notin> set xs" for xs :: "size_t list"
    using that
  proof (induction xs)
    case (Cons x xs)
    then have "unat x \<noteq> 0" by (simp add: unat_eq_0)
    then show ?case using Cons by simp
  qed simp
  then show ?thesis using assms unfolding live_count_def live_bytes_def books_def by (intro sum_mono) blast
qed

text \<open>C4. The tracer reports what is in use: whatever the process does while its calls are traced, its
  usage sampled, scans and heartbeats written and the dashboard served, the counters agree with the
  recorded blocks all along; and the scan at the end, where \<open>malloc\<close> does not fail and there are no more
  records than it can tell apart, reports exactly the bytes of the blocks still recorded.\<close>

theorem session_exact:
  assumes "running k w S" "live_bytes S + sum_list (map session_bytes es) < 2 ^ 64" "raw_malloc w = F_LIBC"
    and "\<And>l n. fst (x_malloc X l n) \<noteq> NULL" "w' = fold (session_step X) es w"
    and "unat (s_entry_count (g_state w')) \<le> MTT_LEAK_DEDUP_SIZE"
  shows "\<exists>S'. running k w' S' \<and> running k (scan_and_report X w') S' \<and>
     unat (mtt_get_current_usage w') = live_bytes S' \<and>
     unat (s_leak_bytes_total (g_state (scan_and_report X w'))) = live_bytes S'"
proof -
  obtain S' where r: "running k w' S'" using session_running [OF assms(1,2), of X] assms(5) by blast
  then have b: "books w' S' {}" "\<forall>i. \<not> s_bucket_locks (g_state w') i" "s_initialized (g_state w')"
    by (simp_all add: running_def locks_free_def)
  have "raw_malloc w' = F_LIBC" using r assms(1,3) by (simp add: running_def setup_of_def) (metis tracer_setup.inject)
  from scan_total [OF b this assms(4,6)] show ?thesis
    using r scan_running [OF r, of X] b(1) by (auto simp: books_def mtt_get_current_usage_def)
qed

theorem session_exact_witness:
  "\<exists>S'. running (setup_of ready_world) (fold (session_step roomy_ext)
       [Call (OP_malloc 7 0x400000 24), Sample, Scan, Serve [] 9 ''GET /api/data HTTP/1.0''] ready_world) S' \<and>
     unat (s_leak_bytes_total (g_state (scan_and_report roomy_ext (fold (session_step roomy_ext)
       [Call (OP_malloc 7 0x400000 24), Sample, Scan, Serve [] 9 ''GET /api/data HTTP/1.0''] ready_world)))) = live_bytes S'"
proof -
  define es where "es = [Call (OP_malloc 7 0x400000 24), Sample, Scan, Serve [] 9 ''GET /api/data HTTP/1.0'']"
  define w' where "w' = fold (session_step roomy_ext) es ready_world"
  have room: "live_bytes (\<lambda>_. []) + sum_list (map session_bytes es) = 24" by (simp add: es_def live_bytes_def)
  then obtain S' where r: "running (setup_of ready_world) w' S'" "live_bytes S' \<le> 24"
    using session_running [OF ready_running, of es roomy_ext] by (auto simp: w'_def)
  note b = running_books [OF r(1)]
  have c: "live_count S' \<le> 24" using count_le_bytes [OF b] r(2) by simp
  have "unat (s_entry_count (g_state w')) \<le> MTT_LEAK_DEDUP_SIZE"
    unfolding tracked_count(2) [OF books_tracked [OF b]] using c by (simp add: unat_of_nat MTT_LEAK_DEDUP_SIZE_def)
  with session_exact [OF ready_running _ _ roomy_malloc w'_def] room show ?thesis
    unfolding w'_def es_def [symmetric] by auto
qed

end
